(* ===== verification/Prelude.thy ===== *)
theory Prelude imports Main "HOL-Library.Monad_Syntax" "HOL-Library.Word" "HOL-Library.Multiset" begin

text \<open>
  What the components share.

  \<^item> A C operation is a HOL function into \<open>'a option\<close>.  \<open>None\<close> stands for the runs that
    have no defined result: an access through a null or dangling pointer or outside an array, a
    failed \<open>assert\<close>, or (for the loops defined with \<^theory_text>\<open>partial_function\<close>)
    a loop that never ends.  Error codes are ordinary results and never \<open>None\<close>.
  \<^item> \<open>blit\<close> is \<open>memcpy\<close> into the middle of a buffer; its laws are the byte-level
    reasoning of the file system.
  \<^item> \<open>run_defs\<close> collects the definitions that symbolic execution unfolds.
\<close>

named_theorems run_defs \<open>definitions unfolded by symbolic execution\<close>
named_theorems inv_intros \<open>introduction rules of the component invariants\<close>

declare Option.bind_cong [fundef_cong]

type_synonym byte = "8 word"
type_synonym addr = nat

text \<open>A checked step: \<open>assert(b)\<close>, or a side condition whose failure is undefined behaviour.\<close>

definition ensure :: "bool \<Rightarrow> unit option" where
  "ensure b = (if b then Some () else None)"

lemma ensure_simps [simp]:
  "ensure True = Some ()" "ensure False = None"
  "(ensure b = Some u) = b" "(ensure b = None) = (\<not> b)"
  by (simp_all add: ensure_def)

text \<open>Reading slot \<open>i\<close> of an array that has been allocated with \<open>length xs\<close> slots.\<close>

definition slot :: "'a list \<Rightarrow> nat \<Rightarrow> 'a option" where
  "slot xs i = (if i < length xs then Some (xs ! i) else None)"

lemma slot_eq_Some [simp]: "slot xs i = Some x \<longleftrightarrow> i < length xs \<and> xs ! i = x"
  by (auto simp: slot_def)

lemma slot_in [simp]: "i < length xs \<Longrightarrow> slot xs i = Some (xs ! i)"
  by (simp add: slot_def)

lemma UN_upd_notin: "a \<notin> A \<Longrightarrow> (\<Union>x \<in> A. set ((B(a := v)) x)) = (\<Union>x \<in> A. set (B x))"
  by (intro SUP_cong) auto

text \<open>Counting the slots of an array that satisfy a test.\<close>

abbreviation count_if :: "('a \<Rightarrow> bool) \<Rightarrow> 'a list \<Rightarrow> nat" where
  "count_if P xs \<equiv> length (filter P xs)"

lemma count_if_update:
  "i < length xs \<Longrightarrow> int (count_if P (xs[i := y])) =
    int (count_if P xs) - (if P (xs ! i) then 1 else 0) + (if P y then 1 else 0)"
proof (induction xs arbitrary: i)
  case (Cons x xs)
  show ?case
  proof (cases i)
    case (Suc j)
    with Cons.prems have "j < length xs" by simp
    from Cons.IH[OF this] Suc show ?thesis by (simp split: if_splits)
  qed simp
qed simp

lemma count_if_pos: "x \<in> set xs \<Longrightarrow> P x \<Longrightarrow> 0 < count_if P xs"
  by (metis filter_empty_conv length_greater_0_conv)

lemma count_if_less: "count_if P xs < length xs \<Longrightarrow> \<exists>i < length xs. \<not> P (xs ! i)"
  by (metis filter_True in_set_conv_nth less_irrefl)

lemma distinct_if_count:
  assumes "\<And>a. count (mset xs) a \<le> 1"
  shows "distinct xs"
  unfolding distinct_count_atmost_1
proof
  fix a
  show "count (mset xs) a = (if a \<in> set xs then 1 else 0)"
  proof (cases "a \<in> set xs")
    case True
    then have "1 \<le> count (mset xs) a" by (metis One_nat_def Suc_leI count_greater_zero_iff set_mset_mset)
    with assms[of a] have "count (mset xs) a = 1" by (rule le_antisym)
    then show ?thesis using True by (simp only: if_True)
  next
    case False
    then have "count (mset xs) a = 0" by (metis count_eq_zero_iff set_mset_mset)
    then show ?thesis using False by (simp only: if_False)
  qed
qed

lemma sum_list_upd:
  fixes f :: "'a \<Rightarrow> nat"
  shows "i < length xs \<Longrightarrow> sum_list (map f (xs[i := x])) + f (xs ! i) = sum_list (map f xs) + f x"
  by (induction xs arbitrary: i) (auto split: nat.splits)

text \<open>Moving on inside a block of size \<open>B\<close>, at most to its end.\<close>

lemma offset_step:
  fixes B :: nat
  assumes "off mod B + n \<le> B" "0 < B"
  shows "(off + n) mod B = (if off mod B + n = B then 0 else off mod B + n)"
    and "(off + n) div B = (if off mod B + n = B then off div B + 1 else off div B)"
proof -
  obtain m where m: "off mod B + n = m" by blast
  have off: "off + n = m + B * (off div B)" by (simp flip: m)
  have "(off + n) mod B = m mod B" unfolding off by (rule mod_mult_self2)
  then show "(off + n) mod B = (if off mod B + n = B then 0 else off mod B + n)"
    using assms unfolding m by (cases "m = B") simp_all
  obtain q where q: "off div B = q" by blast
  have "(off + n) div B = q + m div B" unfolding off q using assms(2) by simp
  then show "(off + n) div B = (if off mod B + n = B then off div B + 1 else off div B)"
    using assms unfolding m q by (cases "m = B") simp_all
qed

lemma div_pred: "m mod B \<noteq> 0 \<Longrightarrow> 1 < B \<Longrightarrow> (m - 1) div B = m div (B :: nat)"
proof -
  assume m: "m mod B \<noteq> 0" and B: "1 < B"
  then obtain t where t: "m = t + 1" by (cases m) auto
  have fit: "t mod B + 1 \<le> B" using B mod_less_divisor[of B t] by linarith
  have "t mod B + 1 \<noteq> B"
  proof
    assume "t mod B + 1 = B"
    then have "(t + 1) mod B = 0" using offset_step(1)[OF fit] B by simp
    with m t show False by simp
  qed
  then have "(t + 1) div B = t div B" using offset_step(2)[OF fit] B by simp
  with t show ?thesis by simp
qed

text \<open>Moving back inside a block, or from the start of one into its predecessor.\<close>

lemma offset_back:
  fixes B :: nat
  shows "m \<le> n mod B \<Longrightarrow> 0 < B \<Longrightarrow> (n - m) div B = n div B"
    and "n mod B = 0 \<Longrightarrow> 0 < m \<Longrightarrow> m \<le> B \<Longrightarrow> m \<le> n \<Longrightarrow> (n - m) div B + 1 = n div B"
proof -
  assume m: "m \<le> n mod B" and B: "0 < B"
  have "n - m = (n mod B - m) + n div B * B" using m mod_mult_div_eq[of n B] by (simp add: mult.commute)
  moreover have "n mod B - m < B" using B by (meson le_less_trans diff_le_self mod_less_divisor)
  ultimately show "(n - m) div B = n div B" by simp
next
  assume n: "n mod B = 0" and m: "0 < m" "m \<le> B" "m \<le> n"
  from n obtain q where q: "n = B * q" by auto
  with m obtain p where p: "q = Suc p" by (cases q) auto
  obtain r where r: "B - m = r" "r < B" using m by (simp add: diff_less)
  have "n - m = (B - m) + p * B" using q m p by (simp add: mult.commute)
  then have "n - m = r + p * B" unfolding r(1) .
  moreover have "(r + p * B) div B = p" using r(2) by simp
  ultimately have "(n - m) div B = p" by simp
  moreover have "n div B = Suc p" using q p m by simp
  ultimately show "(n - m) div B + 1 = n div B" by simp
qed

lemma max_div: "max a b div c = max (a div c) (b div (c :: nat))"
  by (rule max_of_mono[symmetric]) (simp add: mono_def div_le_mono)

lemma div_less_mult: "m div B < n \<Longrightarrow> 0 < B \<Longrightarrow> m < B * (n :: nat)"
  by (simp add: div_less_iff_less_mult mult.commute)

subsection \<open>Copying into a buffer\<close>

definition blit :: "nat \<Rightarrow> 'a list \<Rightarrow> 'a list \<Rightarrow> 'a list" where
  "blit off new old = take off old @ new @ drop (off + length new) old"

lemma length_blit [simp]:
  "off + length new \<le> length old \<Longrightarrow> length (blit off new old) = length old"
  by (simp add: blit_def)

lemma nth_blit:
  assumes "off + length new \<le> length old" "i < length old"
  shows "blit off new old ! i =
    (if off \<le> i \<and> i < off + length new then new ! (i - off) else old ! i)"
proof -
  have "length (take off old) = off" using assms by simp
  then show ?thesis using assms
    by (auto simp: blit_def nth_append not_less) 
qed

lemma blit_Nil [simp]: "blit off [] old = old"
  by (simp add: blit_def)

lemma blit_all: "length new = length old \<Longrightarrow> blit 0 new old = new"
  by (simp add: blit_def)

text \<open>Two adjacent copies are one copy.\<close>

lemma blit_blit:
  assumes "off + length a + length b \<le> length old"
  shows "blit (off + length a) b (blit off a old) = blit off (a @ b) old"
  using assms by (intro nth_equalityI) (auto simp: nth_blit nth_append)

lemma blit_append1: "off + length new \<le> length a \<Longrightarrow> blit off new (a @ b) = blit off new a @ b"
  by (simp add: blit_def)

lemma blit_append2: "blit (length a + off) new (a @ b) = a @ blit off new b"
  by (simp add: blit_def)

subsection \<open>Buffers cut into pieces of equal length\<close>

lemma length_concat_const: "(\<And>x. x \<in> set xss \<Longrightarrow> length x = n) \<Longrightarrow> length (concat xss) = n * length xss"
  by (induction xss) auto

text \<open>A copy inside one piece is a copy into the whole.\<close>

lemma concat_blit:
  assumes "\<And>x. x \<in> set xss \<Longrightarrow> length x = n" "k < length xss" "r + length new \<le> n"
  shows "concat (xss[k := blit r new (xss ! k)]) = blit (n * k + r) new (concat xss)"
  using assms
proof (induction xss arbitrary: k)
  case (Cons x xss)
  then have x: "length x = n" by simp
  show ?case
  proof (cases k)
    case 0
    then show ?thesis using Cons.prems x by (simp add: blit_append1)
  next
    case (Suc j)
    have "blit (n * Suc j + r) new (x @ concat xss) = x @ blit (n * j + r) new (concat xss)"
      using blit_append2[of x "n * j + r" new "concat xss"] x by (simp add: add.assoc)
    moreover have "concat (xss[j := blit r new (xss ! j)]) = blit (n * j + r) new (concat xss)"
      by (rule Cons.IH) (use Cons.prems Suc in auto)
    ultimately show ?thesis using Suc by simp
  qed
qed simp

lemma concat_read:
  assumes "\<And>x. x \<in> set xss \<Longrightarrow> length x = n" "k < length xss" "r + m \<le> n"
  shows "take m (drop r (xss ! k)) = take m (drop (n * k + r) (concat xss))"
  using assms
proof (induction xss arbitrary: k)
  case (Cons x xss)
  then have x: "length x = n" by simp
  show ?case
  proof (cases k)
    case (Suc j)
    have "take m (drop r (xss ! j)) = take m (drop (n * j + r) (concat xss))"
      by (rule Cons.IH) (use Cons.prems Suc in auto)
    then show ?thesis using Suc x by (simp add: add.assoc)
  qed (use Cons.prems x in simp)
qed simp

end
