(* ===== verification/Dll.thy ===== *)
theory Dll imports Prelude begin

text \<open>
  Doubly linked lists in a heap, shared by the block lists and the file list of the file system
  (\<open>struct block\<close>, \<open>struct file\<close> in Assignment_3/userfs.c) and by the
  coroutine list (\<open>struct coro\<close> in Assignment_1/src/libcoro.c).

  \<open>dseg nx pv h p x as l n\<close> says that from the cell \<open>x\<close> the heap \<open>h\<close> holds exactly the
  cells \<open>as\<close>, linked forwards by \<open>nx\<close> and backwards by \<open>pv\<close>; \<open>p\<close> is the cell before
  the first, \<open>l\<close> the last one and \<open>n\<close> the cell after it.  The locale \<open>linked\<close> names what
  a client needs of the two link fields: they are independent and can be overwritten.
\<close>

fun dseg :: "('n \<Rightarrow> 'a option) \<Rightarrow> ('n \<Rightarrow> 'a option) \<Rightarrow> ('a \<rightharpoonup> 'n) \<Rightarrow>
    'a option \<Rightarrow> 'a option \<Rightarrow> 'a list \<Rightarrow> 'a option \<Rightarrow> 'a option \<Rightarrow> bool" where
  "dseg nx pv h p x [] l n \<longleftrightarrow> x = n \<and> l = p"
| "dseg nx pv h p x (a # as) l n \<longleftrightarrow> x = Some a \<and>
     (case h a of None \<Rightarrow> False | Some c \<Rightarrow> pv c = p \<and> dseg nx pv h (Some a) (nx c) as l n)"

text \<open>A whole list: nothing before the first cell, nothing after the last.\<close>

abbreviation dlist where
  "dlist nx pv h x as l \<equiv> dseg nx pv h None x as l None"

lemma dseg_append:
  "dseg nx pv h p x (as @ bs) l n \<longleftrightarrow>
    (\<exists>m y. dseg nx pv h p x as m y \<and> dseg nx pv h m y bs l n)"
  by (induction as arbitrary: p x) (auto split: option.splits)

lemma dseg_cells: "dseg nx pv h p x as l n \<Longrightarrow> a \<in> set as \<Longrightarrow> \<exists>c. h a = Some c"
  by (induction as arbitrary: p x) (auto split: option.splits)

lemma dseg_subset_dom: "dseg nx pv h p x as l n \<Longrightarrow> set as \<subseteq> dom h"
  by (auto dest: dseg_cells)

lemma dseg_first: "dseg nx pv h p x as l n \<Longrightarrow> x = (if as = [] then n else Some (hd as))"
  by (cases as) auto

lemma dseg_last: "dseg nx pv h p x as l n \<Longrightarrow> l = (if as = [] then p else Some (last as))"
  by (induction as arbitrary: p x) (auto split: option.splits if_splits)

text \<open>The frame rule: only the links of the cells in the segment matter.\<close>

lemma dseg_frame:
  assumes "\<And>a. a \<in> set as \<Longrightarrow> map_option nx (h' a) = map_option nx (h a)"
    and "\<And>a. a \<in> set as \<Longrightarrow> map_option pv (h' a) = map_option pv (h a)"
  shows "dseg nx pv h' p x as l n = dseg nx pv h p x as l n"
  using assms
proof (induction as arbitrary: p x)
  case (Cons a as)
  have IH: "dseg nx pv h' q y as l n = dseg nx pv h q y as l n" for q y
    by (rule Cons.IH) (simp_all add: Cons.prems)
  from Cons.prems(1)[of a] Cons.prems(2)[of a] show ?case
    by (cases "h' a"; cases "h a") (auto simp: IH)
qed simp

lemma dseg_cong:
  "(\<And>a. a \<in> set as \<Longrightarrow> h' a = h a) \<Longrightarrow>
    dseg nx pv h' p x as l n = dseg nx pv h p x as l n"
  by (rule dseg_frame) simp_all

lemma dseg_unique:
  "dseg nx pv h p x as l None \<Longrightarrow> dseg nx pv h p x bs l' None \<Longrightarrow> as = bs"
proof (induction as arbitrary: p x bs)
  case Nil
  then show ?case by (cases bs) auto
next
  case (Cons a as)
  from Cons.prems show ?case
    by (cases bs) (auto split: option.splits dest: Cons.IH)
qed

text \<open>Random access: the links of the \<open>i\<close>-th cell.\<close>

lemma dseg_nth:
  assumes "dseg nx pv h p x as l n" "i < length as"
  obtains c where "h (as ! i) = Some c"
    "nx c = (if Suc i < length as then Some (as ! Suc i) else n)"
    "pv c = (if i = 0 then p else Some (as ! (i - 1)))"
  using assms
proof (induction as arbitrary: p x i thesis)
  case (Cons a as)
  then obtain c where c: "h a = Some c" "pv c = p" "dseg nx pv h (Some a) (nx c) as l n"
    by (auto split: option.splits)
  show ?case
  proof (cases i)
    case 0
    with c dseg_first[OF c(3)] show ?thesis
      by (intro Cons.prems(1)[of c]) (auto simp: hd_conv_nth)
  next
    case (Suc j)
    with Cons.prems(3) have "j < length as" by simp
    from Cons.IH[OF _ c(3) this] obtain d where d: "h (as ! j) = Some d"
      "nx d = (if Suc j < length as then Some (as ! Suc j) else n)"
      "pv d = (if j = 0 then Some a else Some (as ! (j - 1)))" by blast
    from d Suc show ?thesis
      by (intro Cons.prems(1)[of d]) (auto simp: nth_Cons')
  qed
qed simp

text \<open>A list ends, so it visits no cell twice.\<close>

lemma dseg_distinct: "dseg nx pv h p x as l None \<Longrightarrow> distinct as"
proof (induction as arbitrary: p x)
  case (Cons a as)
  then obtain c where c: "h a = Some c" "dseg nx pv h (Some a) (nx c) as l None"
    by (auto split: option.splits)
  have "a \<notin> set as"
  proof
    assume "a \<in> set as"
    then obtain us vs where as: "as = us @ a # vs" by (meson split_list)
    with c(2) obtain m where "dseg nx pv h m (Some a) (a # vs) l None"
      by (auto simp: dseg_append)
    with c(1) have "dseg nx pv h (Some a) (nx c) vs l None" by simp
    with c(2) have "as = vs" by (rule dseg_unique)
    with as show False by simp
  qed
  with c Cons.IH show ?case by auto
qed simp

text \<open>The cells reached from a pointer, following \<open>nx\<close> for at most \<open>n\<close> cells.\<close>

fun follow :: "nat \<Rightarrow> ('n \<Rightarrow> 'a option) \<Rightarrow> ('a \<rightharpoonup> 'n) \<Rightarrow> 'a option \<Rightarrow> 'a list" where
  "follow 0 nx h x = []"
| "follow (Suc k) nx h None = []"
| "follow (Suc k) nx h (Some a) =
     a # (case h a of None \<Rightarrow> [] | Some c \<Rightarrow> follow k nx h (nx c))"

lemma follow_None [simp]: "follow k nx h None = []"
  by (cases k) auto

lemma follow_dseg:
  "dseg nx pv h p x as l None \<Longrightarrow> length as \<le> k \<Longrightarrow> follow k nx h x = as"
proof (induction as arbitrary: p x k)
  case (Cons a as)
  then show ?case by (cases k) (auto split: option.splits)
qed simp

locale linked =
  fixes nx :: "'n \<Rightarrow> 'a option"
    and pv :: "'n \<Rightarrow> 'a option"
    and set_nx :: "'a option \<Rightarrow> 'n \<Rightarrow> 'n"
    and set_pv :: "'a option \<Rightarrow> 'n \<Rightarrow> 'n"
  assumes nx_set_nx: "nx (set_nx x c) = x"
    and pv_set_pv: "pv (set_pv x c) = x"
    and nx_set_pv: "nx (set_pv x c) = nx c"
    and pv_set_nx: "pv (set_nx x c) = pv c"
begin

lemmas link_simps = nx_set_nx pv_set_pv nx_set_pv pv_set_nx

text \<open>Appending the fresh cell \<open>b\<close> behind the last cell.\<close>

lemma dlist_snoc:
  assumes d: "dlist nx pv h x as (Some l)" and l: "h l = Some c"
    and b: "b \<notin> set as" and new: "nx e = None" "pv e = Some l"
  shows "dlist nx pv (h(l \<mapsto> set_nx (Some b) c, b \<mapsto> e)) x (as @ [b]) (Some b)"
proof -
  from dseg_last[OF d] have ne: "as \<noteq> []" and last: "last as = l" by (auto split: if_splits)
  define bs where "bs = butlast as"
  have as: "as = bs @ [l]" using ne last by (metis append_butlast_last_id bs_def)
  have dist: "distinct as" using d by (rule dseg_distinct)
  from d as l obtain m where seg: "dseg nx pv h None x bs m (Some l)" and m: "pv c = m"
    by (auto simp: dseg_append)
  let ?h = "h(l \<mapsto> set_nx (Some b) c, b \<mapsto> e)"
  have "dseg nx pv ?h None x bs m (Some l)"
    using seg b dist by (subst dseg_cong[where h = h]) (auto simp: as)
  moreover have "dseg nx pv ?h m (Some l) [l, b] (Some b) None"
    using new m b as by (auto simp: link_simps)
  ultimately show ?thesis by (auto simp: as dseg_append)
qed

text \<open>Dropping the last cell.\<close>

lemma dlist_butlast:
  assumes d: "dlist nx pv h x (as @ [k, b]) (Some b)" and k: "h k = Some c"
  shows "dlist nx pv (h(k \<mapsto> set_nx None c, b := e)) x (as @ [k]) (Some k)"
proof -
  have dist: "distinct (as @ [k, b])" using d by (rule dseg_distinct)
  from d k obtain m where seg: "dseg nx pv h None x as m (Some k)" and m: "pv c = m"
    by (auto simp: dseg_append split: option.splits)
  let ?h = "h(k \<mapsto> set_nx None c, b := e)"
  have "dseg nx pv ?h None x as m (Some k)"
    using seg dist by (subst dseg_cong[where h = h]) auto
  moreover have "dseg nx pv ?h m (Some k) [k] (Some k) None"
    using m dist by (auto simp: link_simps)
  ultimately show ?thesis by (auto simp: dseg_append)
qed

text \<open>Appending to a possibly empty list, the way the code does it: the head is set when it was null.\<close>

lemma dlist_append_cell:
  assumes d: "dlist nx pv h x as l" and b: "b \<notin> set as" and new: "nx e = None" "pv e = l"
    and h': "h' = (case l of None \<Rightarrow> h | Some k \<Rightarrow> h(k \<mapsto> set_nx (Some b) (the (h k))))(b \<mapsto> e)"
  shows "dlist nx pv h' (if x = None then Some b else x) (as @ [b]) (Some b)"
proof (cases l)
  case None
  then have "as = []" using dseg_last[OF d] by (auto split: if_splits)
  with d None new show ?thesis by (simp add: h')
next
  case (Some k)
  then have ne: "as \<noteq> []" and k: "last as = k" using dseg_last[OF d] by (auto split: if_splits)
  then have x: "x = Some (hd as)" using dseg_first[OF d] by simp
  obtain c where c: "h k = Some c"
    using dseg_cells[OF d, of k] last_in_set[OF ne] k by blast
  from dlist_snoc[OF d[unfolded Some] c b] new Some x c show ?thesis by (simp add: h')
qed

text \<open>Unlinking a cell from anywhere in the list.\<close>

lemma dlist_unlink:
  assumes d: "dlist nx pv h x (as @ a # bs) l" and c: "h a = Some c"
    and h1: "h1 = (case pv c of None \<Rightarrow> h | Some p \<Rightarrow> h(p \<mapsto> set_nx (nx c) (the (h p))))"
    and h2: "h2 = (case nx c of None \<Rightarrow> h1 | Some n \<Rightarrow> h1(n \<mapsto> set_pv (pv c) (the (h1 n))))"
  shows "dlist nx pv (h2(a := None)) (if x = Some a then nx c else x) (as @ bs)
      (if l = Some a then pv c else l)"
proof -
  have dist: "distinct (as @ a # bs)" using d by (rule dseg_distinct)
  from d c obtain y where A: "dseg nx pv h None x as (pv c) (Some a)"
    and y: "y = nx c" and B: "dseg nx pv h (Some a) y bs l None"
    by (auto simp: dseg_append)
  let ?h = "h2(a := None)"
  have pvc: "pv c = (if as = [] then None else Some (last as))" using dseg_last[OF A] .
  have nxc: "nx c = (if bs = [] then None else Some (hd bs))" using dseg_first[OF B] y by simp
  have nxnot: "nx c \<noteq> Some k" if "k \<in> set as" for k
    using that dist nxc by (cases bs) auto
  have pvnot: "pv c \<noteq> Some k" if "k \<in> set bs" for k
    using that dist pvc by (cases as rule: rev_cases) auto
  have other: "?h k = h k" if "k \<noteq> a" "pv c \<noteq> Some k" "nx c \<noteq> Some k" for k
    using that by (auto simp: h1 h2 split: option.splits)
  have A': "dseg nx pv ?h None (if x = Some a then nx c else x) as (pv c) (nx c)"
  proof (cases as rule: rev_cases)
    case Nil
    with A show ?thesis by simp
  next
    case (snoc us p)
    with A obtain m cp where U: "dseg nx pv h None x us m (Some p)" "h p = Some cp" "pv cp = m"
      by (auto simp: dseg_append split: option.splits)
    have "x \<noteq> Some a" using dseg_first[OF A] snoc dist by (cases us) auto
    moreover have "dseg nx pv ?h None x us m (Some p)"
      using U(1) other dist nxnot snoc pvc by (subst dseg_cong[where h = h]) auto
    moreover have "?h p = Some (set_nx (nx c) cp)"
      using snoc dist U(2) pvc nxc by (auto simp: h1 h2)
    ultimately show ?thesis using U snoc pvc by (auto simp: dseg_append link_simps)
  qed
  have B': "dseg nx pv ?h (pv c) (nx c) bs (if l = Some a then pv c else l) None"
  proof (cases bs)
    case Nil
    with B show ?thesis using y by simp
  next
    case (Cons n us)
    with B y obtain cn where U: "h n = Some cn" "pv cn = Some a" "dseg nx pv h (Some n) (nx cn) us l None"
      by (auto split: option.splits)
    have "l \<noteq> Some a" using dseg_last[OF B] Cons dist by (auto split: if_splits)
    moreover have "dseg nx pv ?h (Some n) (nx cn) us l None"
      using U(3) other dist nxc Cons pvnot by (subst dseg_cong[where h = h]) auto
    moreover have "?h n = Some (set_pv (pv c) cn)"
      using Cons dist U(1) pvc nxc by (auto simp: h1 h2)
    ultimately show ?thesis using U Cons nxc by (auto simp: link_simps)
  qed
  from A' B' show ?thesis unfolding dseg_append by blast
qed

end

end
