(* ===== verification/Ufs_State.thy ===== *)
theory Ufs_State imports Prelude Dll begin

unbundle bit_operations_syntax

text \<open>
  The data of the in-memory file system, Assignment_3/userfs.h and userfs.c: constants, the three
  structs, the static variables, and the access functions the operations are written with.

  The heap is explicit.  \<open>blocks\<close> and \<open>files\<close> map addresses to live structs; an
  absent address is unallocated or freed memory, and using it is \<open>None\<close>.  A block owns its
  \<open>memory\<close> buffer and a file its \<open>name\<close>, so these are kept inside the structs.  A
  \<open>struct filedesc\<close> is reachable only through its slot of the descriptor array, so the slot
  holds the struct itself.

  \<open>calloc\<close> is the C library's: the environment decides which of the successive allocations
  succeed (\<open>calloc_ok\<close>), and the \<open>k\<close>-th allocation returns the address \<open>k\<close>,
  which no earlier one has returned.
\<close>

datatype ufs_error_code =
    UFS_ERR_NO_ERR
  | UFS_ERR_NO_FILE
  | UFS_ERR_NO_MEM
  | UFS_ERR_NOT_IMPLEMENTED
  | UFS_ERR_NO_PERMISSION

abbreviation (input) UFS_CREATE :: "32 word" where "UFS_CREATE \<equiv> 1"
abbreviation (input) UFS_READ_ONLY :: "32 word" where "UFS_READ_ONLY \<equiv> 2"
abbreviation (input) UFS_WRITE_ONLY :: "32 word" where "UFS_WRITE_ONLY \<equiv> 4"
abbreviation (input) UFS_READ_WRITE :: "32 word" where "UFS_READ_WRITE \<equiv> 8"

abbreviation (input) BLOCK_SIZE :: nat where "BLOCK_SIZE \<equiv> 512"
abbreviation (input) MAX_FILE_SIZE :: nat where "MAX_FILE_SIZE \<equiv> 104857600"
abbreviation (input) RETVAL_SUCCESS :: int where "RETVAL_SUCCESS \<equiv> 0"
abbreviation (input) RETVAL_FAILURE :: int where "RETVAL_FAILURE \<equiv> - 1"
abbreviation (input) RETVAL_EOF :: int where "RETVAL_EOF \<equiv> 0"

text \<open>Width of \<open>size_t\<close>: sums of sizes are taken modulo this.\<close>

abbreviation (input) SIZE_T :: nat where "SIZE_T \<equiv> 2 ^ 64"

record block =
  memory :: "byte list"
  blk_next :: "addr option"
  blk_prev :: "addr option"

record ufs_file =
  block_list :: "addr option"
  last_block :: "addr option"
  refs :: int
  fname :: string
  file_next :: "addr option"
  file_prev :: "addr option"
  marked_for_deletion :: bool
  total_size :: nat

record filedesc =
  fd_file :: addr
  read_allowed :: bool
  write_allowed :: bool
  cur_block :: "addr option"
  total_offset :: nat

record ufs =
  ufs_error_code :: ufs_error_code
  blocks :: "addr \<rightharpoonup> block"
  files :: "addr \<rightharpoonup> ufs_file"
  file_list :: "addr option"
  file_list_last :: "addr option"
  file_descriptors :: "filedesc option list"
  file_descriptor_count :: int
  file_descriptor_capacity :: nat
  file_descriptors_rr_ptr :: nat
  calloc_ok :: "nat \<Rightarrow> bool"
  calloc_count :: nat

text \<open>The static variables' initial values.\<close>

definition ufs_init :: "(nat \<Rightarrow> bool) \<Rightarrow> ufs" where
  "ufs_init ok = \<lparr>ufs_error_code = UFS_ERR_NO_ERR, blocks = Map.empty, files = Map.empty,
     file_list = None, file_list_last = None, file_descriptors = [],
     file_descriptor_count = 0, file_descriptor_capacity = 0, file_descriptors_rr_ptr = 0,
     calloc_ok = ok, calloc_count = 0\<rparr>"

definition ufs_errno :: "ufs \<Rightarrow> ufs_error_code" where
  "ufs_errno s = ufs_error_code s"

subsection \<open>Allocation and access\<close>

definition calloc :: "ufs \<Rightarrow> addr option \<times> ufs" where
  "calloc s = (if calloc_ok s (calloc_count s) then Some (calloc_count s) else None,
     s\<lparr>calloc_count := Suc (calloc_count s)\<rparr>)"

definition set_err :: "ufs_error_code \<Rightarrow> ufs \<Rightarrow> ufs" where
  "set_err e s = s\<lparr>ufs_error_code := e\<rparr>"

definition set_block :: "addr \<Rightarrow> block \<Rightarrow> ufs \<Rightarrow> ufs" where
  "set_block a b s = s\<lparr>blocks := (blocks s)(a \<mapsto> b)\<rparr>"

definition set_file :: "addr \<Rightarrow> ufs_file \<Rightarrow> ufs \<Rightarrow> ufs" where
  "set_file a f s = s\<lparr>files := (files s)(a \<mapsto> f)\<rparr>"

definition set_fd :: "nat \<Rightarrow> filedesc option \<Rightarrow> ufs \<Rightarrow> ufs" where
  "set_fd i fd s = s\<lparr>file_descriptors := (file_descriptors s)[i := fd]\<rparr>"

text \<open>\<open>p->field\<close> through a block pointer that may be null.\<close>

definition deref_block :: "addr option \<Rightarrow> ufs \<Rightarrow> (addr \<times> block) option" where
  "deref_block p s = do { a \<leftarrow> p; b \<leftarrow> blocks s a; Some (a, b) }"

text \<open>\<open>file_descriptors[i]\<close>, and the same dereferenced.\<close>

definition fd_slot :: "nat \<Rightarrow> ufs \<Rightarrow> filedesc option option" where
  "fd_slot i s = slot (file_descriptors s) i"

definition get_fd :: "nat \<Rightarrow> ufs \<Rightarrow> filedesc option" where
  "get_fd i s = do { fd \<leftarrow> fd_slot i s; fd }"

definition free_block :: "addr \<Rightarrow> ufs \<Rightarrow> ufs option" where
  "free_block a s = do { _ \<leftarrow> blocks s a; Some (s\<lparr>blocks := (blocks s)(a := None)\<rparr>) }"

definition free_file :: "addr \<Rightarrow> ufs \<Rightarrow> ufs option" where
  "free_file a s = do { _ \<leftarrow> files s a; Some (s\<lparr>files := (files s)(a := None)\<rparr>) }"

definition upd_file :: "addr \<Rightarrow> (ufs_file \<Rightarrow> ufs_file) \<Rightarrow> ufs \<Rightarrow> ufs option" where
  "upd_file a g s = do { f \<leftarrow> files s a; Some (set_file a (g f) s) }"

definition upd_block :: "addr \<Rightarrow> (block \<Rightarrow> block) \<Rightarrow> ufs \<Rightarrow> ufs option" where
  "upd_block a g s = do { b \<leftarrow> blocks s a; Some (set_block a (g b) s) }"

lemmas access_defs [run_defs] =
  set_err_def set_block_def set_file_def set_fd_def deref_block_def
  fd_slot_def get_fd_def free_block_def free_file_def upd_file_def upd_block_def

lemma set_err_simps [simp]:
  "calloc_ok (set_err e s) = calloc_ok s" "ufs_error_code (set_err e s) = e" "set_err e (set_err d s) = set_err e s"
  "set_err (ufs_error_code s) s = s"
  by (simp_all add: set_err_def)

lemma get_fd_Some [simp]:
  "get_fd i s = Some fd \<longleftrightarrow> i < length (file_descriptors s) \<and> file_descriptors s ! i = Some fd"
  by (auto simp: get_fd_def fd_slot_def slot_def)

lemma deref_block_Some [simp]:
  "deref_block p s = Some ab \<longleftrightarrow> p = Some (fst ab) \<and> blocks s (fst ab) = Some (snd ab)"
  by (cases ab) (auto simp: deref_block_def bind_eq_Some_conv)

subsection \<open>The two list structures\<close>

interpretation bl: linked blk_next blk_prev
  "\<lambda>x b. b\<lparr>blk_next := x\<rparr>" "\<lambda>x b. b\<lparr>blk_prev := x\<rparr>"
  by unfold_locales simp_all

interpretation fl: linked file_next file_prev
  "\<lambda>x f. f\<lparr>file_next := x\<rparr>" "\<lambda>x f. f\<lparr>file_prev := x\<rparr>"
  by unfold_locales simp_all

end
