(* ===== verification/Ufs_Blocks.thy ===== *)
theory Ufs_Blocks imports Ufs_State begin

text \<open>
  Block maintenance of Assignment_3/userfs.c: \<open>ufs_add_block\<close>, \<open>ufs_free_blocks\<close>.
\<close>

definition ufs_add_block :: "addr option \<Rightarrow> ufs \<Rightarrow> (addr option \<times> ufs) option" where
  "ufs_add_block prev_last s =
    (case calloc s of
       (None, s) \<Rightarrow> Some (None, set_err UFS_ERR_NO_MEM s)
     | (Some new_block, s) \<Rightarrow>
       (case calloc s of
          (None, s) \<Rightarrow> Some (None, set_err UFS_ERR_NO_MEM s)
        | (Some _, s) \<Rightarrow>
          (let b = \<lparr>memory = replicate BLOCK_SIZE 0, blk_next = None, blk_prev = None\<rparr> in
           case prev_last of
             None \<Rightarrow> Some (Some new_block, set_block new_block b s)
           | Some l \<Rightarrow> do {
               s \<leftarrow> upd_block l (\<lambda>c. c\<lparr>blk_next := Some new_block\<rparr>) s;
               Some (Some new_block, set_block new_block (b\<lparr>blk_prev := Some l\<rparr>) s)
             })))"

partial_function (option) ufs_free_blocks :: "addr option \<Rightarrow> ufs \<Rightarrow> ufs option" where
  "ufs_free_blocks cur s =
    (case cur of
       None \<Rightarrow> Some s
     | Some a \<Rightarrow> do {
         b \<leftarrow> blocks s a;
         s \<leftarrow> free_block a s;
         ufs_free_blocks (blk_next b) s
       })"

declare ufs_free_blocks.simps [code]


subsection \<open>Allocation that succeeds\<close>

definition plenty :: "ufs \<Rightarrow> bool" where
  "plenty s \<longleftrightarrow> (\<forall>n. calloc_ok s n)"

lemma plenty_ok [simp]: "plenty s \<Longrightarrow> calloc_ok s n"
  by (simp add: plenty_def)

lemma calloc_succ:
  "calloc_ok s (calloc_count s) \<Longrightarrow>
    calloc s = (Some (calloc_count s), s\<lparr>calloc_count := Suc (calloc_count s)\<rparr>)"
  by (simp add: calloc_def)

text \<open>The next \<open>n\<close> allocations succeed.\<close>

definition mem_for :: "nat \<Rightarrow> ufs \<Rightarrow> bool" where
  "mem_for n s \<longleftrightarrow> (\<forall>k < n. calloc_ok s (calloc_count s + k))"

lemma mem_for_2 [simp]:
  "mem_for 2 s \<longleftrightarrow> calloc_ok s (calloc_count s) \<and> calloc_ok s (Suc (calloc_count s))"
  by (auto simp: mem_for_def numeral_2_eq_2 less_Suc_eq)

lemma plenty_cong: "calloc_ok s' = calloc_ok s \<Longrightarrow> plenty s' = plenty s"
  by (simp add: plenty_def)

lemma plenty_upd [simp]:
  "plenty (s\<lparr>blocks := x1\<rparr>) = plenty s" "plenty (s\<lparr>files := x2\<rparr>) = plenty s"
  "plenty (s\<lparr>file_descriptors := x3\<rparr>) = plenty s" "plenty (s\<lparr>calloc_count := x4\<rparr>) = plenty s"
  "plenty (s\<lparr>file_list := x5\<rparr>) = plenty s" "plenty (s\<lparr>file_list_last := x5\<rparr>) = plenty s"
  "plenty (s\<lparr>ufs_error_code := x6\<rparr>) = plenty s"
  "plenty (s\<lparr>file_descriptor_count := x7\<rparr>) = plenty s"
  "plenty (s\<lparr>file_descriptor_capacity := x8\<rparr>) = plenty s"
  "plenty (s\<lparr>file_descriptors_rr_ptr := x8\<rparr>) = plenty s"
  by (simp_all add: plenty_def)

abbreviation zero_block :: "addr option \<Rightarrow> block" where
  "zero_block p \<equiv> \<lparr>memory = replicate BLOCK_SIZE 0, blk_next = None, blk_prev = p\<rparr>"

text \<open>With memory available, a block is added at the end of a list and nothing else changes.\<close>

lemma ufs_add_block_first:
  "mem_for 2 s \<Longrightarrow> ufs_add_block None s = Some (Some (calloc_count s),
     s\<lparr>calloc_count := calloc_count s + 2,
       blocks := (blocks s)(calloc_count s \<mapsto> zero_block None)\<rparr>)"
  by (simp add: ufs_add_block_def calloc_succ set_block_def)

lemma ufs_add_block_after:
  "mem_for 2 s \<Longrightarrow> blocks s l = Some c \<Longrightarrow> ufs_add_block (Some l) s = Some (Some (calloc_count s),
     s\<lparr>calloc_count := calloc_count s + 2,
       blocks := (blocks s)(l \<mapsto> c\<lparr>blk_next := Some (calloc_count s)\<rparr>,
         calloc_count s \<mapsto> zero_block (Some l))\<rparr>)"
  by (simp add: ufs_add_block_def calloc_succ set_block_def upd_block_def)

text \<open>Without memory, no block is added and the error code is set.\<close>

lemma ufs_add_block_fail:
  "\<not> mem_for 2 s \<Longrightarrow>
   \<exists>n. ufs_add_block p s = Some (None,
     s\<lparr>calloc_count := calloc_count s + n, ufs_error_code := UFS_ERR_NO_MEM\<rparr>)"
  by (cases "calloc_ok s (calloc_count s)")
    (auto simp: ufs_add_block_def calloc_def set_err_def intro: exI[of _ 1] exI[of _ 2])

subsection \<open>Block lists and their bytes\<close>

text \<open>
  \<open>layout h f bs\<close>: the blocks of the file \<open>f\<close> are \<open>bs\<close>, linked both ways, and each has its
  \<open>BLOCK_SIZE\<close> bytes.  \<open>bytes h bs\<close> is what they hold.
\<close>

definition blocks_full :: "(addr \<rightharpoonup> block) \<Rightarrow> addr list \<Rightarrow> bool" where
  "blocks_full h bs \<longleftrightarrow> (\<forall>b \<in> set bs. \<exists>c. h b = Some c \<and> length (memory c) = BLOCK_SIZE)"

definition layout :: "(addr \<rightharpoonup> block) \<Rightarrow> ufs_file \<Rightarrow> addr list \<Rightarrow> bool" where
  "layout h f bs \<longleftrightarrow> bs \<noteq> [] \<and> dlist blk_next blk_prev h (block_list f) bs (last_block f) \<and> blocks_full h bs"

definition mem_at :: "(addr \<rightharpoonup> block) \<Rightarrow> addr \<Rightarrow> byte list" where
  "mem_at h b = (case h b of None \<Rightarrow> [] | Some c \<Rightarrow> memory c)"

definition bytes :: "(addr \<rightharpoonup> block) \<Rightarrow> addr list \<Rightarrow> byte list" where
  "bytes h bs = concat (map (mem_at h) bs)"

lemma bytes_simps [simp]:
  "bytes h [] = []" "bytes h (b # bs) = mem_at h b @ bytes h bs"
  "bytes h (as @ bs) = bytes h as @ bytes h bs"
  by (simp_all add: bytes_def)

lemma mem_at_upd [simp]: "mem_at (h(a \<mapsto> c)) b = (if b = a then memory c else mem_at h b)"
  by (simp add: mem_at_def)

lemma bytes_cong: "(\<And>b. b \<in> set bs \<Longrightarrow> h' b = h b) \<Longrightarrow> bytes h' bs = bytes h bs"
  unfolding bytes_def mem_at_def by (intro arg_cong[where f = concat] map_cong) auto

lemma bytes_mem_cong: "(\<And>b. b \<in> set bs \<Longrightarrow> mem_at h' b = mem_at h b) \<Longrightarrow> bytes h' bs = bytes h bs"
  unfolding bytes_def by (intro arg_cong[where f = concat] map_cong) auto

lemma blocks_full_mem: "blocks_full h bs \<Longrightarrow> b \<in> set bs \<Longrightarrow> length (mem_at h b) = BLOCK_SIZE"
  by (auto simp: blocks_full_def mem_at_def)

lemma length_bytes: "blocks_full h bs \<Longrightarrow> length (bytes h bs) = BLOCK_SIZE * length bs"
  unfolding bytes_def by (subst length_concat_const[where n = BLOCK_SIZE]) (auto simp: blocks_full_mem)

lemma blocks_full_append [simp]:
  "blocks_full h (as @ bs) \<longleftrightarrow> blocks_full h as \<and> blocks_full h bs"
  by (auto simp: blocks_full_def)

lemma blocks_full_cong: "(\<And>b. b \<in> set bs \<Longrightarrow> h' b = h b) \<Longrightarrow> blocks_full h' bs = blocks_full h bs"
  by (simp add: blocks_full_def)

lemma layout_cong:
  assumes "\<And>b. b \<in> set bs \<Longrightarrow> h' b = h b" "block_list f' = block_list f" "last_block f' = last_block f"
  shows "layout h' f' bs = layout h f bs"
  using assms by (simp add: layout_def blocks_full_cong[of bs h' h] dseg_cong[of bs h' h])

lemma layout_distinct: "layout h f bs \<Longrightarrow> distinct bs"
  by (auto simp: layout_def dest: dseg_distinct)

lemma layout_last: "layout h f bs \<Longrightarrow> last_block f = Some (last bs)"
  by (auto simp: layout_def dest: dseg_last)

lemma layout_first: "layout h f bs \<Longrightarrow> block_list f = Some (hd bs)"
  by (auto simp: layout_def dest: dseg_first)

lemma layoutD:
  "layout h f bs \<Longrightarrow> dlist blk_next blk_prev h (block_list f) bs (Some (last bs))"
  "layout h f bs \<Longrightarrow> blocks_full h bs" "layout h f bs \<Longrightarrow> bs \<noteq> []"
  using layout_last[of h f bs] by (auto simp: layout_def)

lemma layout_unique:
  "layout h f as \<Longrightarrow> layout h f bs \<Longrightarrow> as = bs"
  by (auto simp: layout_def dest: dseg_unique)

lemma layout_nth:
  assumes "layout h f bs" "k < length bs"
  obtains c where "h (bs ! k) = Some c" "length (memory c) = BLOCK_SIZE" "mem_at h (bs ! k) = memory c"
    "blk_next c = (if Suc k < length bs then Some (bs ! Suc k) else None)"
    "blk_prev c = (if k = 0 then None else Some (bs ! (k - 1)))"
proof -
  from assms have d: "dlist blk_next blk_prev h (block_list f) bs (last_block f)"
    and full: "blocks_full h bs" by (auto simp: layout_def)
  from full assms(2) obtain c where "h (bs ! k) = Some c" "length (memory c) = BLOCK_SIZE"
    by (auto simp: blocks_full_def dest!: nth_mem)
  with dseg_nth[OF d assms(2)] that show ?thesis by (auto simp: mem_at_def)
qed

text \<open>Writing into the \<open>k\<close>-th block changes the bytes at its place, and no link.\<close>

lemma layout_write:
  assumes "layout h f bs" "h b = Some c" "length m = BLOCK_SIZE"
  shows "layout (h(b \<mapsto> c\<lparr>memory := m\<rparr>)) f bs"
proof -
  have "dlist blk_next blk_prev (h(b \<mapsto> c\<lparr>memory := m\<rparr>)) (block_list f) bs (last_block f)"
    using assms by (subst dseg_frame[where h = h]) (auto simp: layout_def)
  then show ?thesis using assms by (auto simp: layout_def blocks_full_def)
qed

lemma bytes_write:
  assumes "layout h f bs" "k < length bs" "h (bs ! k) = Some c" "r + length new \<le> BLOCK_SIZE"
  shows "bytes (h(bs ! k \<mapsto> c\<lparr>memory := blit r new (memory c)\<rparr>)) bs =
    blit (BLOCK_SIZE * k + r) new (bytes h bs)"
proof -
  let ?h = "h(bs ! k \<mapsto> c\<lparr>memory := blit r new (memory c)\<rparr>)"
  have dist: "distinct bs" and full: "blocks_full h bs"
    using assms(1) by (auto simp: layout_def dest: dseg_distinct)
  have k: "mem_at h (bs ! k) = memory c" using assms(3) by (simp add: mem_at_def)
  have "map (mem_at ?h) bs = (map (mem_at h) bs)[k := blit r new (map (mem_at h) bs ! k)]"
    using assms(2) dist k by (intro nth_equalityI) (auto simp: nth_list_update nth_eq_iff_index_eq)
  then show ?thesis unfolding bytes_def
    using assms(2,4) full by (subst concat_blit[symmetric]) (auto simp: blocks_full_mem)
qed

lemma bytes_read:
  assumes "layout h f bs" "k < length bs" "h (bs ! k) = Some c" "r + m \<le> BLOCK_SIZE"
  shows "take m (drop r (memory c)) = take m (drop (BLOCK_SIZE * k + r) (bytes h bs))"
proof -
  have "mem_at h (bs ! k) = memory c" using assms(3) by (simp add: mem_at_def)
  moreover have "blocks_full h bs" using assms(1) by (simp add: layout_def)
  ultimately show ?thesis unfolding bytes_def
    using assms(2,4) by (subst concat_read[symmetric, where n = BLOCK_SIZE]) (auto simp: blocks_full_mem)
qed

text \<open>Linking in a zeroed block at the end.\<close>

lemma layout_snoc:
  assumes lay: "layout h f bs" and c: "h (last bs) = Some c" and b: "h b = None"
  shows "layout (h(last bs \<mapsto> c\<lparr>blk_next := Some b\<rparr>, b \<mapsto> zero_block (Some (last bs))))
    (f\<lparr>last_block := Some b\<rparr>) (bs @ [b])"
    and "bytes (h(last bs \<mapsto> c\<lparr>blk_next := Some b\<rparr>, b \<mapsto> zero_block (Some (last bs)))) (bs @ [b]) =
      bytes h bs @ replicate BLOCK_SIZE 0"
proof -
  let ?h = "h(last bs \<mapsto> c\<lparr>blk_next := Some b\<rparr>, b \<mapsto> zero_block (Some (last bs)))"
  note d = layoutD(1)[OF lay] and full = layoutD(2)[OF lay] and ne = layoutD(3)[OF lay]
  have notin: "b \<notin> set bs" using full b by (auto simp: blocks_full_def)
  have "length (memory c) = BLOCK_SIZE"
    using full c last_in_set[OF ne] by (auto simp: blocks_full_def)
  with bl.dlist_snoc[OF d c notin, of "zero_block (Some (last bs))"]
  show "layout ?h (f\<lparr>last_block := Some b\<rparr>) (bs @ [b])"
    using full ne c notin by (auto simp: layout_def blocks_full_def)
  have "bytes ?h bs = bytes h bs"
    using notin c by (intro bytes_mem_cong) (auto simp: mem_at_def)
  then show "bytes ?h (bs @ [b]) = bytes h bs @ replicate BLOCK_SIZE 0" by simp
qed

text \<open>Taking off the last of at least two blocks.\<close>

lemma layout_butlast:
  assumes lay: "layout h f (bs @ [k, b])" and c: "h k = Some c"
  shows "layout (h(k \<mapsto> c\<lparr>blk_next := None\<rparr>, b := None)) (f\<lparr>last_block := Some k\<rparr>) (bs @ [k])"
    and "bytes (h(k \<mapsto> c\<lparr>blk_next := None\<rparr>, b := None)) (bs @ [k]) = bytes h (bs @ [k])"
proof -
  let ?h = "h(k \<mapsto> c\<lparr>blk_next := None\<rparr>, b := None)"
  have d: "dlist blk_next blk_prev h (block_list f) (bs @ [k, b]) (Some b)"
    using layoutD(1)[OF lay] by simp
  note full = layoutD(2)[OF lay]
  have dist: "distinct (bs @ [k, b])" using d by (rule dseg_distinct)
  from bl.dlist_butlast[OF d c] full dist c
  show "layout ?h (f\<lparr>last_block := Some k\<rparr>) (bs @ [k])"
    by (auto simp: layout_def blocks_full_def)
  show "bytes ?h (bs @ [k]) = bytes h (bs @ [k])"
    using dist c by (intro bytes_mem_cong) (auto simp: mem_at_def)
qed

text \<open>The bytes of a file.\<close>

definition contents :: "(addr \<rightharpoonup> block) \<Rightarrow> ufs_file \<Rightarrow> addr list \<Rightarrow> byte list" where
  "contents h f bs = take (total_size f) (bytes h bs)"

lemma contents_cong:
  "total_size f' = total_size f \<Longrightarrow> (\<And>b. b \<in> set bs \<Longrightarrow> h' b = h b) \<Longrightarrow> contents h' f' bs = contents h f bs"
  by (simp add: contents_def bytes_cong[of bs h' h])

lemma take_blit:
  "off \<le> n \<Longrightarrow> n \<le> length b \<Longrightarrow> take (max n (off + length x)) (blit off x (b @ z)) = blit off x (take n b)"
proof (cases "off + length x \<le> n")
  case True
  assume "n \<le> length b"
  with True show ?thesis by (simp add: blit_def drop_take)
next
  case False
  assume "off \<le> n" "n \<le> length b"
  with False show ?thesis by (simp add: blit_def)
qed

subsection \<open>Freeing a block list\<close>

lemma ufs_free_blocks_dseg:
  "dseg blk_next blk_prev (blocks s) p x bs l None \<Longrightarrow>
   ufs_free_blocks x s = Some (s\<lparr>blocks := blocks s |` (- set bs)\<rparr>)"
proof (induction bs arbitrary: p x s)
  case Nil
  then show ?case by (simp add: ufs_free_blocks.simps)
next
  case (Cons b bs)
  then obtain c where x: "x = Some b" and c: "blocks s b = Some c"
    and seg: "dseg blk_next blk_prev (blocks s) (Some b) (blk_next c) bs l None"
    by (auto split: option.splits)
  have "b \<notin> set bs" using dseg_distinct[OF Cons.prems] by simp
  define s' where "s' = s\<lparr>blocks := (blocks s)(b := None)\<rparr>"
  have "dseg blk_next blk_prev (blocks s') (Some b) (blk_next c) bs l None"
    using seg \<open>b \<notin> set bs\<close> by (subst dseg_cong[where h = "blocks s"]) (auto simp: s'_def)
  from Cons.IH[OF this] c x
  have "ufs_free_blocks x s = Some (s'\<lparr>blocks := blocks s' |` (- set bs)\<rparr>)"
    by (simp add: ufs_free_blocks.simps[of "Some b"] free_block_def flip: s'_def)
  moreover have "s'\<lparr>blocks := blocks s' |` (- set bs)\<rparr> = s\<lparr>blocks := blocks s |` (- set (b # bs))\<rparr>"
    by (rule ufs.equality) (auto simp: s'_def restrict_map_def fun_eq_iff)
  ultimately show ?case by simp
qed

end
