(* ===== verification/Ufs_Files.thy ===== *)
theory Ufs_Files imports Ufs_Blocks begin

text \<open>
  The file list of Assignment_3/userfs.c: \<open>ufs_find_file\<close>, \<open>ufs_create_file\<close>,
  \<open>ufs_mark_file_for_delete\<close>, \<open>ufs_real_delete_file\<close>.
\<close>

partial_function (option) find_file_loop :: "string \<Rightarrow> addr option \<Rightarrow> ufs \<Rightarrow> addr option option" where
  "find_file_loop nm cur_file s =
    (case cur_file of
       None \<Rightarrow> Some None
     | Some a \<Rightarrow> do {
         f \<leftarrow> files s a;
         if nm \<noteq> fname f \<or> marked_for_deletion f then find_file_loop nm (file_next f) s
         else Some (Some a)
       })"

declare find_file_loop.simps [code]

definition ufs_find_file :: "string \<Rightarrow> ufs \<Rightarrow> addr option option" where
  "ufs_find_file nm s = find_file_loop nm (file_list s) s"

text \<open>
  The file struct and its name are two allocations, the first block two more (struct and memory).
  When the block fails, \<open>ufs_add_block\<close> has set the error code.
\<close>

definition ufs_create_file :: "string \<Rightarrow> ufs \<Rightarrow> (addr option \<times> ufs) option" where
  "ufs_create_file nm s =
    (case calloc s of
       (None, s) \<Rightarrow> Some (None, set_err UFS_ERR_NO_MEM s)
     | (Some new_file, s) \<Rightarrow>
       (case calloc s of
          (None, s) \<Rightarrow> Some (None, set_err UFS_ERR_NO_MEM s)
        | (Some _, s) \<Rightarrow> do {
            (first_block, s) \<leftarrow> ufs_add_block None s;
            if first_block = None then Some (None, s)
            else do {
              let f = \<lparr>block_list = first_block, last_block = first_block, refs = 0,
                       fname = nm, file_next = None, file_prev = file_list_last s,
                       marked_for_deletion = False, total_size = 0\<rparr>;
              let s = set_file new_file f s;
              let s = (if file_list s = None then s\<lparr>file_list := Some new_file\<rparr> else s);
              s \<leftarrow> (case file_list_last s of
                     None \<Rightarrow> Some (s\<lparr>file_list_last := Some new_file\<rparr>)
                   | Some l \<Rightarrow> do {
                       s \<leftarrow> upd_file l (\<lambda>g. g\<lparr>file_next := Some new_file\<rparr>) s;
                       Some (s\<lparr>file_list_last := Some new_file\<rparr>)
                     });
              Some (Some new_file, s)
            }
          }))"

definition ufs_mark_file_for_delete :: "addr \<Rightarrow> ufs \<Rightarrow> ufs option" where
  "ufs_mark_file_for_delete a s = upd_file a (\<lambda>f. f\<lparr>marked_for_deletion := True\<rparr>) s"

definition ufs_real_delete_file :: "addr \<Rightarrow> ufs \<Rightarrow> ufs option" where
  "ufs_real_delete_file a s = do {
     f \<leftarrow> files s a;
     s \<leftarrow> ufs_free_blocks (block_list f) s;
     s \<leftarrow> (case file_prev f of
            None \<Rightarrow> Some s
          | Some p \<Rightarrow> upd_file p (\<lambda>g. g\<lparr>file_next := file_next f\<rparr>) s);
     let s = (if file_list s = Some a then s\<lparr>file_list := file_next f\<rparr> else s);
     let s = (if file_list_last s = Some a then s\<lparr>file_list_last := file_prev f\<rparr> else s);
     s \<leftarrow> (case file_next f of
            None \<Rightarrow> Some s
          | Some n \<Rightarrow> upd_file n (\<lambda>g. g\<lparr>file_prev := file_prev f\<rparr>) s);
     free_file a s
   }"


subsection \<open>The invariant of files and blocks\<close>

text \<open>
  \<open>files_wf s fs B\<close>: the file list is \<open>fs\<close> and the file at \<open>a\<close> consists of the blocks
  \<open>B a\<close>, one more than it has full blocks.  Every live struct is reachable this way, so nothing
  leaks; no block belongs to two files; and no two files that can be opened share a name.
\<close>

definition size_ok :: "ufs_file \<Rightarrow> addr list \<Rightarrow> bool" where
  "size_ok f bs \<longleftrightarrow> length bs = total_size f div BLOCK_SIZE + 1 \<and> total_size f \<le> MAX_FILE_SIZE"

lemma size_ok_fits:
  "layout h f bs \<Longrightarrow> size_ok f bs \<Longrightarrow> total_size f < length (bytes h bs)"
  unfolding size_ok_def by (simp add: layoutD(2) length_bytes div_less_mult)

lemma length_contents: "layout h f bs \<Longrightarrow> size_ok f bs \<Longrightarrow> length (contents h f bs) = total_size f"
  using size_ok_fits by (simp add: contents_def)

definition files_wf :: "ufs \<Rightarrow> addr list \<Rightarrow> (addr \<Rightarrow> addr list) \<Rightarrow> bool" where
  "files_wf s fs B \<longleftrightarrow>
     dlist file_next file_prev (files s) (file_list s) fs (file_list_last s) \<and>
     dom (files s) = set fs \<and>
     (\<forall>a f. files s a = Some f \<longrightarrow> layout (blocks s) f (B a) \<and> size_ok f (B a)) \<and>
     (\<forall>a \<in> set fs. \<forall>b \<in> set fs. a \<noteq> b \<longrightarrow> set (B a) \<inter> set (B b) = {}) \<and>
     dom (blocks s) = (\<Union>a \<in> set fs. set (B a)) \<and>
     (\<forall>a \<in> dom (files s) \<union> dom (blocks s). a < calloc_count s) \<and>
     (\<forall>a b f g. files s a = Some f \<longrightarrow> files s b = Some g \<longrightarrow> \<not> marked_for_deletion f \<longrightarrow>
        \<not> marked_for_deletion g \<longrightarrow> fname f = fname g \<longrightarrow> a = b)"

lemma files_wfD:
  assumes "files_wf s fs B"
  shows "dlist file_next file_prev (files s) (file_list s) fs (file_list_last s)"
    and "dom (files s) = set fs"
    and "files s a = Some f \<Longrightarrow> layout (blocks s) f (B a)"
    and "files s a = Some f \<Longrightarrow> size_ok f (B a)"
    and "a \<in> set fs \<Longrightarrow> b \<in> set fs \<Longrightarrow> a \<noteq> b \<Longrightarrow> set (B a) \<inter> set (B b) = {}"
    and "dom (blocks s) = (\<Union>a \<in> set fs. set (B a))"
    and "files s a = Some f \<Longrightarrow> a < calloc_count s"
    and "blocks s b = Some c \<Longrightarrow> b < calloc_count s"
    and "files s a = Some f \<Longrightarrow> files s b = Some g \<Longrightarrow> \<not> marked_for_deletion f \<Longrightarrow>
        \<not> marked_for_deletion g \<Longrightarrow> fname f = fname g \<Longrightarrow> a = b"
    and "distinct fs"
proof -
  note c = assms[unfolded files_wf_def]
  note c1 = c[THEN conjunct1] and c2 = c[THEN conjunct2, THEN conjunct1]
    and c3 = c[THEN conjunct2, THEN conjunct2, THEN conjunct1]
    and c4 = c[THEN conjunct2, THEN conjunct2, THEN conjunct2, THEN conjunct1]
    and c5 = c[THEN conjunct2, THEN conjunct2, THEN conjunct2, THEN conjunct2, THEN conjunct1]
    and c6 = c[THEN conjunct2, THEN conjunct2, THEN conjunct2, THEN conjunct2, THEN conjunct2]
  show "dlist file_next file_prev (files s) (file_list s) fs (file_list_last s)"
    "dom (files s) = set fs" "dom (blocks s) = (\<Union>a \<in> set fs. set (B a))" by (fact c1 c2 c5)+
  show "distinct fs" using c1 by (rule dseg_distinct)
  show "files s a = Some f \<Longrightarrow> layout (blocks s) f (B a)" "files s a = Some f \<Longrightarrow> size_ok f (B a)"
    using c3 by simp_all
  show "a \<in> set fs \<Longrightarrow> b \<in> set fs \<Longrightarrow> a \<noteq> b \<Longrightarrow> set (B a) \<inter> set (B b) = {}" using c4 by blast
  show "files s a = Some f \<Longrightarrow> a < calloc_count s" "blocks s b = Some c \<Longrightarrow> b < calloc_count s"
    using c6 by (meson UnCI domI)+
  show "files s a = Some f \<Longrightarrow> files s b = Some g \<Longrightarrow> \<not> marked_for_deletion f \<Longrightarrow>
        \<not> marked_for_deletion g \<Longrightarrow> fname f = fname g \<Longrightarrow> a = b"
    using c6 by blast
qed

lemma files_wfI:
  assumes "dlist file_next file_prev (files s) (file_list s) fs (file_list_last s)"
    and "dom (files s) = set fs"
    and "\<And>a f. files s a = Some f \<Longrightarrow> layout (blocks s) f (B a)"
    and "\<And>a f. files s a = Some f \<Longrightarrow> size_ok f (B a)"
    and "\<And>a b. a \<in> set fs \<Longrightarrow> b \<in> set fs \<Longrightarrow> a \<noteq> b \<Longrightarrow> set (B a) \<inter> set (B b) = {}"
    and "dom (blocks s) = (\<Union>a \<in> set fs. set (B a))"
    and "\<And>a f. files s a = Some f \<Longrightarrow> a < calloc_count s"
    and "\<And>b c. blocks s b = Some c \<Longrightarrow> b < calloc_count s"
    and "\<And>a b f g. files s a = Some f \<Longrightarrow> files s b = Some g \<Longrightarrow> \<not> marked_for_deletion f \<Longrightarrow>
        \<not> marked_for_deletion g \<Longrightarrow> fname f = fname g \<Longrightarrow> a = b"
  shows "files_wf s fs B"
  unfolding files_wf_def
proof (intro conjI)
  show "\<forall>a \<in> dom (files s) \<union> dom (blocks s). a < calloc_count s" using assms(7,8) by fast
  show "\<forall>a f. files s a = Some f \<longrightarrow> layout (blocks s) f (B a) \<and> size_ok f (B a)"
    using assms(3,4) by simp
  show "\<forall>a b f g. files s a = Some f \<longrightarrow> files s b = Some g \<longrightarrow> \<not> marked_for_deletion f \<longrightarrow>
        \<not> marked_for_deletion g \<longrightarrow> fname f = fname g \<longrightarrow> a = b" using assms(9) by blast
qed (use assms in blast)+

text \<open>The fields the invariant reads.\<close>

lemma files_wf_cong:
  "\<lbrakk>blocks s' = blocks s; files s' = files s; file_list s' = file_list s;
    file_list_last s' = file_list_last s; calloc_count s \<le> calloc_count s'\<rbrakk> \<Longrightarrow>
   files_wf s fs B \<Longrightarrow> files_wf s' fs B"
  by (rule files_wfI) (simp_all add: files_wfD order_less_le_trans[of _ "calloc_count s"])

text \<open>
  \<open>reshapes s bs s' bs'\<close>: on the way from \<open>s\<close> to \<open>s'\<close> a file's blocks \<open>bs\<close> became
  \<open>bs'\<close>; new blocks are fresh, dropped ones are freed, all others are untouched.
\<close>

definition reshapes :: "ufs \<Rightarrow> addr list \<Rightarrow> ufs \<Rightarrow> addr list \<Rightarrow> bool" where
  "reshapes s bs s' bs' \<longleftrightarrow> calloc_count s \<le> calloc_count s' \<and>
     (\<forall>b. b \<notin> set bs \<longrightarrow> b \<notin> set bs' \<longrightarrow> blocks s' b = blocks s b) \<and>
     dom (blocks s') = (dom (blocks s) - set bs) \<union> set bs' \<and>
     (\<forall>b \<in> set bs'. b \<in> set bs \<or> calloc_count s \<le> b \<and> b < calloc_count s')"

lemma reshapes_refl: "set bs \<subseteq> dom (blocks s) \<Longrightarrow> blocks s' = blocks s \<Longrightarrow>
    calloc_count s \<le> calloc_count s' \<Longrightarrow> reshapes s bs s' bs"
  by (auto simp: reshapes_def)

lemma reshapes_trans:
  assumes "reshapes s bs s1 bs1" "reshapes s1 bs1 s2 bs2"
    and "\<forall>b \<in> dom (blocks s). b < calloc_count s"
  shows "reshapes s bs s2 bs2"
proof -
  have "blocks s2 b = blocks s b" if b: "b \<notin> set bs" "b \<notin> set bs2" for b
  proof (cases "b \<in> set bs1")
    case True
    with assms(1) b have "calloc_count s \<le> b" by (auto simp: reshapes_def)
    with assms(3) have "blocks s b = None" by (meson domIff not_le)
    moreover have "b \<notin> dom (blocks s2)" using assms(2) True b by (auto simp: reshapes_def)
    ultimately show ?thesis by (simp add: domIff)
  next
    case False
    with assms(1,2) b show ?thesis by (auto simp: reshapes_def)
  qed
  moreover have "dom (blocks s2) = (dom (blocks s) - set bs) \<union> set bs2"
  proof -
    have "b \<notin> dom (blocks s)" if "b \<in> set bs1" "b \<notin> set bs" for b
    proof
      assume "b \<in> dom (blocks s)"
      then have "b < calloc_count s" using assms(3) by simp
      moreover have "calloc_count s \<le> b" using assms(1) that by (auto simp: reshapes_def)
      ultimately show False by simp
    qed
    moreover have "dom (blocks s1) = (dom (blocks s) - set bs) \<union> set bs1"
      "dom (blocks s2) = (dom (blocks s1) - set bs1) \<union> set bs2"
      using assms(1,2) by (simp_all add: reshapes_def)
    ultimately show ?thesis by auto
  qed
  moreover have "b \<in> set bs \<or> calloc_count s \<le> b \<and> b < calloc_count s2" if "b \<in> set bs2" for b
    using assms(1,2) that unfolding reshapes_def by (meson dual_order.trans order_less_le_trans)
  ultimately show ?thesis using assms unfolding reshapes_def by auto
qed

lemma reshapes_fresh:
  assumes r: "reshapes s bs s' bs'" and sub: "set bs \<subseteq> dom (blocks s)"
    and fresh: "\<forall>b \<in> dom (blocks s). b < calloc_count s"
  shows "\<forall>b \<in> dom (blocks s'). b < calloc_count s'"
proof
  fix b assume "b \<in> dom (blocks s')"
  then have "b \<in> dom (blocks s) \<or> calloc_count s \<le> b \<and> b < calloc_count s'"
    using r sub unfolding reshapes_def by blast
  then show "b < calloc_count s'"
    using fresh r unfolding reshapes_def by (meson order_less_le_trans)
qed

text \<open>An operation that works on one file keeps the invariant.\<close>

lemma files_wf_update:
  assumes wf: "files_wf s fs B" and a: "files s a = Some f"
    and r: "reshapes s (B a) s' bs'"
    and f': "files s' = (files s)(a \<mapsto> f')"
      "file_next f' = file_next f" "file_prev f' = file_prev f" "fname f' = fname f"
      "marked_for_deletion f \<longrightarrow> marked_for_deletion f'"
    and l: "layout (blocks s') f' bs'" "size_ok f' bs'"
    and heads: "file_list s' = file_list s" "file_list_last s' = file_list_last s"
  shows "files_wf s' fs (B(a := bs'))"
proof -
  note D = files_wfD[OF wf]
  let ?B = "B(a := bs')"
  have afs: "a \<in> set fs" using D(2) a by auto
  have B_dom: "set (B x) \<subseteq> dom (blocks s)" if "x \<in> set fs" for x using D(6) that by auto
  have cc: "calloc_count s \<le> calloc_count s'" using r by (simp add: reshapes_def)
  have fresh: "set (B x) \<inter> set bs' = {}" if x: "x \<in> set fs" "x \<noteq> a" for x
  proof -
    have "b \<notin> set bs'" if b: "b \<in> set (B x)" for b
    proof -
      have "b \<notin> set (B a)" using D(5)[OF x(1) afs x(2)] b by auto
      moreover have "b < calloc_count s" using B_dom[OF x(1)] b D(8) by auto
      ultimately show ?thesis using r by (auto simp: reshapes_def)
    qed
    then show ?thesis by auto
  qed
  have keep: "blocks s' b = blocks s b" if "x \<in> set fs" "x \<noteq> a" "b \<in> set (B x)" for x b
    using r fresh[OF that(1,2)] D(5)[OF that(1) afs that(2)] that(3) by (auto simp: reshapes_def)
  show ?thesis
  proof (rule files_wfI)
    show "dlist file_next file_prev (files s') (file_list s') fs (file_list_last s')"
      unfolding heads using D(1) a by (subst dseg_frame[where h = "files s"]) (auto simp: f')
    show "dom (files s') = set fs" using D(2) a f' by auto
    fix x g assume g: "files s' x = Some g"
    show "layout (blocks s') g (?B x)"
    proof (cases "x = a")
      case False
      then have gx: "files s x = Some g" using g f' by simp
      then have "x \<in> set fs" using D(2) by auto
      then show ?thesis using False D(3)[OF gx] layout_cong[of "B x" "blocks s'" "blocks s" g g] keep by auto
    qed (use g f' l in simp)
    show "size_ok g (?B x)" using g f' l D(4)[of x g] by (auto split: if_splits)
    show "x < calloc_count s'" using g f' D(7)[of x g] D(7)[OF a] cc by (auto split: if_splits)
  next
    fix x y assume "x \<in> set fs" "y \<in> set fs" "x \<noteq> y"
    then show "set (?B x) \<inter> set (?B y) = {}" using D(5)[of x y] fresh[of x] fresh[of y] by auto
  next
    have "dom (blocks s) - set (B a) = (\<Union>x \<in> set fs - {a}. set (B x))"
      using D(5,6) afs by auto
    moreover have "(\<Union>x \<in> set fs. set (?B x)) = (\<Union>x \<in> set fs - {a}. set (B x)) \<union> set bs'"
      using afs by (auto split: if_splits)
    ultimately show "dom (blocks s') = (\<Union>x \<in> set fs. set (?B x))"
      using r by (simp add: reshapes_def)
  next
    fix x c assume "blocks s' x = Some c"
    then have "x \<in> dom (blocks s')" by blast
    then have "x \<in> dom (blocks s) \<or> x \<in> set (B a) \<or> x < calloc_count s'"
      using r by (auto simp: reshapes_def)
    then show "x < calloc_count s'" using B_dom[OF afs] D(8) cc by (auto intro: less_le_trans)
  next
    fix x y g h
    assume that: "files s' x = Some g" "files s' y = Some h" "\<not> marked_for_deletion g"
      "\<not> marked_for_deletion h" "fname g = fname h"
    define g' where "g' = (if x = a then f else g)"
    define h' where "h' = (if y = a then f else h)"
    have "files s x = Some g'" "files s y = Some h'" "\<not> marked_for_deletion g'"
      "\<not> marked_for_deletion h'" "fname g' = fname h'"
      using that a f' by (auto simp: g'_def h'_def split: if_splits)
    then show "x = y" by (rule D(9))
  qed
qed


subsection \<open>Finding a file\<close>

definition openable :: "ufs \<Rightarrow> string \<Rightarrow> addr \<Rightarrow> bool" where
  "openable s nm a \<longleftrightarrow> (\<exists>f. files s a = Some f \<and> fname f = nm \<and> \<not> marked_for_deletion f)"

lemma find_file_loop_dseg:
  "dseg file_next file_prev (files s) p x fs l None \<Longrightarrow>
   find_file_loop nm x s = Some (find (openable s nm) fs)"
proof (induction fs arbitrary: p x)
  case Nil
  then show ?case by (simp add: find_file_loop.simps)
next
  case (Cons a fs)
  then obtain f where "x = Some a" "files s a = Some f"
    "dseg file_next file_prev (files s) (Some a) (file_next f) fs l None"
    by (auto split: option.splits)
  with Cons.IH show ?case
    by (auto simp: find_file_loop.simps[of nm "Some a"] openable_def)
qed

lemma ufs_find_file_wf:
  assumes "files_wf s fs B"
  obtains r where "ufs_find_file nm s = Some r" "\<And>a. r = Some a \<longleftrightarrow> openable s nm a"
proof -
  note D = files_wfD[OF assms]
  let ?r = "find (openable s nm) fs"
  have "ufs_find_file nm s = Some ?r"
    unfolding ufs_find_file_def using D(1) by (rule find_file_loop_dseg)
  moreover have "?r = Some a \<longleftrightarrow> openable s nm a" for a
  proof
    assume "?r = Some a"
    then show "openable s nm a" by (auto simp: find_Some_iff)
  next
    assume a: "openable s nm a"
    then have "a \<in> set fs" using D(2) by (auto simp: openable_def)
    with a obtain b where b: "?r = Some b" by (cases ?r) (auto simp: find_None_iff)
    then have "openable s nm b" by (auto simp: find_Some_iff)
    with a have "a = b" using D(9)[of a _ b] by (auto simp: openable_def)
    with b show "?r = Some a" by simp
  qed
  ultimately show thesis by (rule that)
qed

text \<open>A file apart from its place in the list.\<close>

definition file_core :: "ufs_file \<Rightarrow> ufs_file" where
  "file_core f = f\<lparr>file_next := None, file_prev := None\<rparr>"

lemma file_core_eqD:
  assumes "file_core f = file_core g"
  shows "block_list f = block_list g" "last_block f = last_block g" "refs f = refs g"
    "fname f = fname g" "marked_for_deletion f = marked_for_deletion g" "total_size f = total_size g"
  using assms by (cases f; cases g; simp add: file_core_def)+

lemma layout_core: "file_core f = file_core g \<Longrightarrow> layout h f bs = layout h g bs"
  using file_core_eqD[of f g] by (simp add: layout_def)

lemma size_ok_core: "file_core f = file_core g \<Longrightarrow> size_ok f bs = size_ok g bs"
  using file_core_eqD[of f g] by (simp add: size_ok_def)

lemma file_core_Some:
  "map_option file_core x = map_option file_core y \<Longrightarrow> x = Some f \<Longrightarrow>
    \<exists>g. y = Some g \<and> file_core f = file_core g"
  by (cases y) auto

subsection \<open>Creating a file\<close>

abbreviation new_file :: "string \<Rightarrow> addr \<Rightarrow> addr option \<Rightarrow> ufs_file" where
  "new_file nm b p \<equiv> \<lparr>block_list = Some b, last_block = Some b, refs = 0, fname = nm,
     file_next = None, file_prev = p, marked_for_deletion = False, total_size = 0\<rparr>"

lemma mem_for_4: "mem_for 4 s \<longleftrightarrow> calloc_ok s (calloc_count s) \<and> calloc_ok s (Suc (calloc_count s)) \<and>
    mem_for 2 (s\<lparr>calloc_count := Suc (Suc (calloc_count s))\<rparr>)"
  by (auto simp: mem_for_def numeral_eq_Suc less_Suc_eq)

lemma ufs_create_file_succ:
  assumes mem: "mem_for 4 s" and last: "\<And>l. file_list_last s = Some l \<Longrightarrow> l < calloc_count s \<and> files s l \<noteq> None"
  shows "ufs_create_file nm s = Some (Some (calloc_count s),
    s\<lparr>calloc_count := calloc_count s + 4,
      blocks := (blocks s)(calloc_count s + 2 \<mapsto> zero_block None),
      files := (case file_list_last s of None \<Rightarrow> files s
          | Some l \<Rightarrow> (files s)(l \<mapsto> (the (files s l))\<lparr>file_next := Some (calloc_count s)\<rparr>))
        (calloc_count s \<mapsto> new_file nm (calloc_count s + 2) (file_list_last s)),
      file_list := (if file_list s = None then Some (calloc_count s) else file_list s),
      file_list_last := Some (calloc_count s)\<rparr>)"
proof -
  let ?c = "calloc_count s"
  have "ufs_add_block None (s\<lparr>calloc_count := Suc (Suc ?c)\<rparr>) = Some (Some (?c + 2),
     s\<lparr>calloc_count := ?c + 4, blocks := (blocks s)(?c + 2 \<mapsto> zero_block None)\<rparr>)"
    using mem by (subst ufs_add_block_first) (simp_all add: mem_for_4)
  with mem last show ?thesis
    by (auto simp: ufs_create_file_def calloc_def mem_for_4 set_file_def upd_file_def fun_upd_twist
        split: option.splits)
qed

text \<open>Without memory for the file, its name, and its first block, nothing is created.\<close>

lemma ufs_create_file_fail:
  assumes "\<not> mem_for 4 s"
  obtains n where "ufs_create_file nm s = Some (None,
     s\<lparr>calloc_count := calloc_count s + n, ufs_error_code := UFS_ERR_NO_MEM\<rparr>)"
proof -
  let ?c = "calloc_count s"
  let ?s = "s\<lparr>calloc_count := Suc (Suc ?c)\<rparr>"
  consider "\<not> calloc_ok s ?c" | "calloc_ok s ?c" "\<not> calloc_ok s (Suc ?c)"
    | "calloc_ok s ?c" "calloc_ok s (Suc ?c)" "\<not> mem_for 2 ?s"
    using assms by (auto simp: mem_for_4)
  then show thesis
  proof cases
    case 3
    from ufs_add_block_fail[OF 3(3), of None] obtain n where
      "ufs_add_block None ?s = Some (None, ?s\<lparr>calloc_count := calloc_count ?s + n, ufs_error_code := UFS_ERR_NO_MEM\<rparr>)"
      by blast
    with 3 show thesis
      by (intro that[of "n + 2"]) (simp add: ufs_create_file_def calloc_def)
  qed (auto simp: ufs_create_file_def calloc_def set_err_def intro: that[of 1] that[of 2])
qed

lemma files_wf_create:
  assumes wf: "files_wf s fs B" and mem: "mem_for 4 s" and free: "\<And>a. \<not> openable s nm a"
  obtains s' where "ufs_create_file nm s = Some (Some (calloc_count s), s')"
    "files_wf s' (fs @ [calloc_count s]) (B(calloc_count s := [calloc_count s + 2]))"
    "openable s' nm (calloc_count s)" "ufs_error_code s' = ufs_error_code s"
    "blocks s' = (blocks s)(calloc_count s + 2 \<mapsto> zero_block None)"
    "\<And>a. a \<noteq> calloc_count s \<Longrightarrow> map_option file_core (files s' a) = map_option file_core (files s a)"
    "files s' (calloc_count s) = Some (new_file nm (calloc_count s + 2) (file_list_last s))"
    "file_descriptors s' = file_descriptors s" "file_descriptor_count s' = file_descriptor_count s"
    "file_descriptor_capacity s' = file_descriptor_capacity s"
    "file_descriptors_rr_ptr s' = file_descriptors_rr_ptr s"
    "calloc_ok s' = calloc_ok s" "calloc_count s' = calloc_count s + 4"
proof -
  note D = files_wfD[OF wf]
  let ?c = "calloc_count s"
  have last: "l < ?c \<and> files s l \<noteq> None" if "file_list_last s = Some l" for l
  proof -
    have "l \<in> set fs" using dseg_last[OF D(1)] that last_in_set[of fs] by (auto split: if_splits)
    then show ?thesis using D(2,7) by (metis domIff not_None_eq)
  qed
  note run = ufs_create_file_succ[OF mem last, of nm]
  obtain s' where s': "ufs_create_file nm s = Some (Some ?c, s')" using run by blast
  note eqs = run[unfolded s' option.inject prod.inject, THEN conjunct2]
  have c_none: "files s ?c = None" using D(7)[of ?c] by (cases "files s ?c") auto
  then have c_new: "?c \<notin> set fs" "files s ?c = None" using D(2) by auto
  have b_new: "blocks s (?c + 2) = None" using D(8)[of "?c + 2"] by (cases "blocks s (?c + 2)") auto
  have core: "map_option file_core (files s' a) = map_option file_core (files s a)" if "a \<noteq> ?c" for a
    using that last by (auto simp: eqs file_core_def split: option.splits)
  have f_same: "\<exists>g. files s a = Some g \<and> file_core f = file_core g"
    if "files s' a = Some f" "a \<noteq> ?c" for a f
    using core[OF that(2)] that(1) by (rule file_core_Some)
  note lay_eq = layout_core size_ok_core
  have B_blocks: "blocks s' b = blocks s b" if "a \<in> set fs" "b \<in> set (B a)" for a b
  proof -
    have "b \<in> dom (blocks s)" using that D(6) by auto
    with b_new have "b \<noteq> ?c + 2" by auto
    then show ?thesis by (simp add: eqs)
  qed
  show thesis
  proof (rule that[OF s'])
    show "files_wf s' (fs @ [?c]) (B(?c := [?c + 2]))" (is "files_wf s' ?fs ?B")
    proof (rule files_wfI)
      show "dlist file_next file_prev (files s') (file_list s') ?fs (file_list_last s')"
        using fl.dlist_append_cell[OF D(1) c_new(1) _ _ refl, of "new_file nm (?c + 2) (file_list_last s)"]
        by (simp add: eqs)
      show "dom (files s') = set ?fs" using D(2) last by (auto simp: eqs split: option.splits)
      fix a f assume f: "files s' a = Some f"
      show "layout (blocks s') f (?B a)"
      proof (cases "a = ?c")
        case True
        then show ?thesis using f by (auto simp: eqs layout_def blocks_full_def)
      next
        case False
        from f_same[OF f this] obtain g where g: "files s a = Some g" "layout (blocks s') f (B a) = layout (blocks s') g (B a)"
          using lay_eq(1) by blast
        moreover have "a \<in> set fs" using g D(2) by auto
        ultimately show ?thesis using False D(3)[OF g(1)] layout_cong[of "B a" "blocks s'" "blocks s" g g] B_blocks by auto
      qed
      show "size_ok f (?B a)"
      proof (cases "a = ?c")
        case False
        from f_same[OF f this] obtain g where "files s a = Some g" "size_ok f (B a) = size_ok g (B a)"
          using lay_eq(2) by blast
        then show ?thesis using False D(4) by simp
      qed (use f in \<open>auto simp: eqs size_ok_def\<close>)
      show "a < calloc_count s'" using f f_same[OF f] D(7) by (cases "a = ?c") (auto simp: eqs intro: trans_less_add1)
    next
      fix a b assume "a \<in> set ?fs" "b \<in> set ?fs" "a \<noteq> b"
      moreover have "?c + 2 \<notin> set (B x)" if "x \<in> set fs" for x
        using D(6) b_new that by (metis UN_I domIff)
      ultimately show "set (?B a) \<inter> set (?B b) = {}" using D(5) c_new by auto
    next
      show "dom (blocks s') = (\<Union>a \<in> set ?fs. set (?B a))"
        using D(6) UN_upd_notin[OF c_new(1), of B "[?c + 2]"] by (simp add: eqs)
    next
      fix b c assume "blocks s' b = Some c"
      then show "b < calloc_count s'" using D(8) by (auto simp: eqs intro: trans_less_add1 split: if_splits)
    next
      fix a b f g
      assume A: "files s' a = Some f" "files s' b = Some g" "\<not> marked_for_deletion f"
        "\<not> marked_for_deletion g" "fname f = fname g"
      have old: "\<exists>g. files s a = Some g \<and> fname g = fname f \<and> \<not> marked_for_deletion g"
        if "files s' a = Some f" "a \<noteq> ?c" "\<not> marked_for_deletion f" for a f
        using that last by (auto simp: eqs split: option.splits if_splits)
      have new: "fname f = nm" if "files s' ?c = Some f" for f using that by (auto simp: eqs)
      show "a = b"
      proof (cases "a = ?c"; cases "b = ?c")
        assume "a \<noteq> ?c" "b \<noteq> ?c"
        with old[OF A(1)] old[OF A(2)] A D(9) show "a = b" by metis
      qed (use A free old new in \<open>unfold openable_def, metis+\<close>)
    qed
  qed (use core in \<open>auto simp: eqs openable_def\<close>)
qed


subsection \<open>Removing a file\<close>

lemma files_wf_real_delete:
  assumes wf: "files_wf s fs B" and a: "files s a = Some f"
  obtains s' where "ufs_real_delete_file a s = Some s'" "files_wf s' (remove1 a fs) B"
    "blocks s' = blocks s |` (- set (B a))" "files s' a = None"
    "\<And>x. x \<noteq> a \<Longrightarrow> map_option file_core (files s' x) = map_option file_core (files s x)"
    "s' = s\<lparr>blocks := blocks s', files := files s', file_list := file_list s',
       file_list_last := file_list_last s'\<rparr>"
proof -
  note D = files_wfD[OF wf]
  have "a \<in> set fs" using a D(2) by auto
  then obtain us vs where fs: "fs = us @ a # vs" by (meson split_list)
  have dist: "distinct fs" by (rule D(10))
  then have rem: "remove1 a fs = us @ vs" by (auto simp: fs remove1_append)
  from D(3)[OF a] have "ufs_free_blocks (block_list f) s = Some (s\<lparr>blocks := blocks s |` (- set (B a))\<rparr>)"
    by (intro ufs_free_blocks_dseg[of s None _ _ "last_block f"]) (simp add: layout_def)
  note free = this
  from D(1) a obtain y where A: "dseg file_next file_prev (files s) None (file_list s) us (file_prev f) (Some a)"
    and y: "y = file_next f" and V: "dseg file_next file_prev (files s) (Some a) y vs (file_list_last s) None"
    by (auto simp: fs dseg_append)
  define h1 where "h1 = (case file_prev f of None \<Rightarrow> files s
    | Some p \<Rightarrow> (files s)(p \<mapsto> (the (files s p))\<lparr>file_next := file_next f\<rparr>))"
  define h2 where "h2 = (case file_next f of None \<Rightarrow> h1
    | Some n \<Rightarrow> h1(n \<mapsto> (the (h1 n))\<lparr>file_prev := file_prev f\<rparr>))"
  define s' where "s' = s\<lparr>blocks := blocks s |` (- set (B a)), files := h2(a := None),
    file_list := (if file_list s = Some a then file_next f else file_list s),
    file_list_last := (if file_list_last s = Some a then file_prev f else file_list_last s)\<rparr>"
  have p: "\<exists>g. files s p = Some g" "p \<noteq> a" "p \<in> set us" if "file_prev f = Some p" for p
    using dseg_last[OF A] that dseg_cells[OF A, of p] last_in_set[of us] dist
    by (auto simp: fs split: if_splits)
  have n: "\<exists>g. files s n = Some g" "n \<noteq> a" "n \<in> set vs" if "file_next f = Some n" for n
    using dseg_first[OF V] that y dseg_cells[OF V, of n] hd_in_set[of vs] dist
    by (auto simp: fs split: if_splits)
  have pn: "file_prev f = Some p \<Longrightarrow> file_next f = Some n \<Longrightarrow> p \<noteq> n" for p n
    using p(3) n(3) dist by (auto simp: fs)
  have run: "ufs_real_delete_file a s = Some s'"
  proof -
    let ?s1 = "s\<lparr>blocks := blocks s |` (- set (B a))\<rparr>"
    have step1: "(case file_prev f of None \<Rightarrow> Some ?s1
        | Some p \<Rightarrow> upd_file p (\<lambda>g. g\<lparr>file_next := file_next f\<rparr>) ?s1) = Some (?s1\<lparr>files := h1\<rparr>)"
      using p(1) by (auto simp: h1_def upd_file_def set_file_def split: option.split)
    have step2: "(case file_next f of None \<Rightarrow> Some s2
        | Some m \<Rightarrow> upd_file m (\<lambda>g. g\<lparr>file_prev := file_prev f\<rparr>) s2) = Some (s2\<lparr>files := h2\<rparr>)"
      if "files s2 = h1" for s2
    proof -
      have "\<exists>g. h1 m = Some g" if "file_next f = Some m" for m
        using n(1)[OF that] pn[OF _ that] by (auto simp: h1_def split: option.split)
      then show ?thesis using that by (auto simp: h2_def upd_file_def set_file_def split: option.split)
    qed
    have "h1 a = Some f" using a p(2)[of a] by (cases "file_prev f") (auto simp: h1_def)
    then have "h2 a \<noteq> None" using n(2)[of a] by (cases "file_next f") (auto simp: h2_def)
    then obtain g where "h2 a = Some g" by blast
    with a free step1 step2 show ?thesis
      by (simp add: ufs_real_delete_file_def free_file_def s'_def)
  qed
  have core: "map_option file_core (files s' x) = map_option file_core (files s x)" if "x \<noteq> a" for x
  proof -
    have c1: "map_option file_core (h1 x) = map_option file_core (files s x)" for x
      using p(1) by (cases "file_prev f") (auto simp: h1_def file_core_def)
    have "map_option file_core (h2 x) = map_option file_core (h1 x)"
    proof (cases "file_next f")
      case (Some m)
      with n(1) obtain g where "files s m = Some g" by blast
      with c1[of m] obtain g' where "h1 m = Some g'" by (cases "h1 m") auto
      with Some show ?thesis by (simp add: h2_def file_core_def)
    qed (simp add: h2_def)
    with c1 that show ?thesis by (simp add: s'_def)
  qed
  have f_same: "\<exists>g. files s x = Some g \<and> file_core h = file_core g" if "files s' x = Some h" for x h
  proof -
    have "x \<noteq> a" using that by (auto simp: s'_def)
    from core[OF this] that show ?thesis by (rule file_core_Some)
  qed
  have other: "x \<noteq> a" "x \<in> set fs" if "files s' x = Some h" for x h
    using that f_same[OF that] D(2) by (auto simp: s'_def)
  have B_blocks: "blocks s' b = blocks s b" if "x \<in> set fs" "x \<noteq> a" "b \<in> set (B x)" for x b
    using that D(5)[of x a] \<open>a \<in> set fs\<close> by (auto simp: s'_def restrict_map_def)
  have wf': "files_wf s' (remove1 a fs) B"
  proof (rule files_wfI)
    show "dlist file_next file_prev (files s') (file_list s') (remove1 a fs) (file_list_last s')"
      using fl.dlist_unlink[OF D(1)[unfolded fs] a h1_def h2_def] by (simp add: rem s'_def)
    have "dom (files s') = dom (files s) - {a}"
    proof (rule set_eqI)
      fix x
      have "files s' a = None" by (simp add: s'_def)
      then show "x \<in> dom (files s') \<longleftrightarrow> x \<in> dom (files s) - {a}"
        using core[of x] by (cases "x = a"; cases "files s' x"; cases "files s x") auto
    qed
    then show "dom (files s') = set (remove1 a fs)" using D(2) dist by simp
    fix x h assume h: "files s' x = Some h"
    from f_same[OF h] obtain g where g: "files s x = Some g" "file_core h = file_core g" by blast
    show "layout (blocks s') h (B x)"
      using layout_core[OF g(2)] D(3)[OF g(1)] layout_cong[of "B x" "blocks s'" "blocks s" g g]
        B_blocks[OF other(2)[OF h] other(1)[OF h]] by auto
    show "size_ok h (B x)" using D(4)[OF g(1)] size_ok_core[OF g(2)] by simp
    show "x < calloc_count s'" using D(7)[OF g(1)] by (simp add: s'_def)
  next
    fix x y assume "x \<in> set (remove1 a fs)" "y \<in> set (remove1 a fs)" "x \<noteq> y"
    then show "set (B x) \<inter> set (B y) = {}" by (intro D(5)) (auto simp: rem fs)
  next
    have "dom (blocks s') = (\<Union>x \<in> set fs. set (B x)) - set (B a)" using D(6) by (auto simp: s'_def)
    also have "\<dots> = (\<Union>x \<in> set fs - {a}. set (B x))" using D(5) \<open>a \<in> set fs\<close> by blast
    finally show "dom (blocks s') = (\<Union>x \<in> set (remove1 a fs). set (B x))" using dist by simp
  next
    fix b c assume "blocks s' b = Some c"
    then show "b < calloc_count s'" using D(8)[of b c] by (simp add: s'_def restrict_map_def split: if_splits)
  next
    fix x y g h
    assume A: "files s' x = Some g" "files s' y = Some h" "\<not> marked_for_deletion g"
      "\<not> marked_for_deletion h" "fname g = fname h"
    from f_same[OF A(1)] f_same[OF A(2)] obtain g' h' where
      old: "files s x = Some g'" "file_core g = file_core g'" "files s y = Some h'" "file_core h = file_core h'" by blast
    show "x = y"
      using D(9)[OF old(1,3)] file_core_eqD(4,5)[OF old(2)] file_core_eqD(4,5)[OF old(4)] A(3-5) by simp
  qed
  show thesis by (rule that[OF run wf']) (use core in \<open>auto simp: s'_def\<close>)
qed

text \<open>Marking a file, and changing its reference count, stay within the struct.\<close>

lemma files_wf_set_file:
  assumes wf: "files_wf s fs B" and a: "files s a = Some f"
    and f': "block_list f' = block_list f" "last_block f' = last_block f" "total_size f' = total_size f"
      "file_next f' = file_next f" "file_prev f' = file_prev f" "fname f' = fname f"
      "marked_for_deletion f \<longrightarrow> marked_for_deletion f'"
  shows "files_wf (set_file a f' s) fs B"
proof -
  note D = files_wfD[OF wf]
  have "set (B a) \<subseteq> dom (blocks s)" using D(2,6) a by auto
  then have "files_wf (set_file a f' s) fs (B(a := B a))"
    using D(3)[OF a] D(4)[OF a] f'
    by (intro files_wf_update[OF wf a reshapes_refl]) (auto simp: set_file_def layout_def size_ok_def)
  then show ?thesis by simp
qed

end
