(* ===== verification/Ufs_Fds.thy ===== *)
theory Ufs_Fds imports Ufs_Files begin

text \<open>
  The descriptor array of Assignment_3/userfs.c: \<open>ufs_extend_fd_list_if_needed\<close>,
  \<open>ufs_create_fd\<close>, \<open>ufs_delete_fd\<close>, \<open>ufs_check_valid_fd_idx\<close>,
  \<open>ufs_move_overflowing_fds\<close>.
\<close>

text \<open>Extending copies the \<open>capacity\<close> old slots into a new zeroed array.\<close>

definition ufs_extend_fd_list_if_needed :: "ufs \<Rightarrow> (bool \<times> ufs) option" where
  "ufs_extend_fd_list_if_needed s =
    (let cap = file_descriptor_capacity s in
     if file_descriptor_count s < int cap then Some (True, s)
     else
       (let new_capacity = (if cap \<noteq> 0 then cap * 2 else 1) in
        case calloc s of
          (None, s) \<Rightarrow> Some (False, set_err UFS_ERR_NO_MEM s)
        | (Some _, s) \<Rightarrow> do {
            ensure (cap \<le> length (file_descriptors s));
            Some (True, s\<lparr>file_descriptors :=
                take cap (file_descriptors s) @ replicate (new_capacity - cap) None,
              file_descriptor_capacity := new_capacity\<rparr>)
          }))"

text \<open>The search for a free slot goes round the array from \<open>file_descriptors_rr_ptr\<close>.\<close>

partial_function (option) find_free_slot :: "filedesc option list \<Rightarrow> nat \<Rightarrow> nat \<Rightarrow> nat option" where
  "find_free_slot arr cap rr = do {
     x \<leftarrow> slot arr rr;
     case x of
       None \<Rightarrow> Some rr
     | Some _ \<Rightarrow>
         (let rr = rr + 1 in find_free_slot arr cap (if rr = cap then 0 else rr))
   }"

declare find_free_slot.simps [code]

definition flag_set :: "32 word \<Rightarrow> 32 word \<Rightarrow> bool" where
  "flag_set flags f = (flags AND f \<noteq> 0)"

definition ufs_create_fd :: "addr \<Rightarrow> 32 word \<Rightarrow> ufs \<Rightarrow> (int \<times> ufs) option" where
  "ufs_create_fd a flags s =
    (case calloc s of
       (None, s) \<Rightarrow> Some (RETVAL_FAILURE, set_err UFS_ERR_NO_MEM s)
     | (Some _, s) \<Rightarrow> do {
         (extended, s) \<leftarrow> ufs_extend_fd_list_if_needed s;
         if \<not> extended then Some (RETVAL_FAILURE, s)
         else do {
           f \<leftarrow> files s a;
           let newFd = \<lparr>fd_file = a,
                 read_allowed = (flag_set flags UFS_READ_ONLY \<or> flag_set flags UFS_READ_WRITE),
                 write_allowed = (flag_set flags UFS_WRITE_ONLY \<or> flag_set flags UFS_READ_WRITE),
                 cur_block = block_list f, total_offset = 0\<rparr>;
           let s = set_file a (f\<lparr>refs := refs f + 1\<rparr>) s;
           rr \<leftarrow> find_free_slot (file_descriptors s) (file_descriptor_capacity s)
                  (file_descriptors_rr_ptr s);
           let s = set_fd rr (Some newFd) (s\<lparr>file_descriptors_rr_ptr := rr\<rparr>);
           Some (int rr, s\<lparr>file_descriptor_count := file_descriptor_count s + 1\<rparr>)
         }
       })"

definition ufs_delete_fd :: "nat \<Rightarrow> ufs \<Rightarrow> ufs option" where
  "ufs_delete_fd idx s = do {
     fd \<leftarrow> get_fd idx s;
     let s = set_fd idx None s;
     f \<leftarrow> files s (fd_file fd);
     let f = f\<lparr>refs := refs f - 1\<rparr>;
     let s = set_file (fd_file fd) f s;
     s \<leftarrow> (if marked_for_deletion f \<and> refs f = 0 then ufs_real_delete_file (fd_file fd) s
          else Some s);
     Some (s\<lparr>file_descriptor_count := file_descriptor_count s - 1\<rparr>)
   }"

definition ufs_check_valid_fd_idx :: "int \<Rightarrow> ufs \<Rightarrow> bool option" where
  "ufs_check_valid_fd_idx idx s =
    (if idx < 0 \<or> idx \<ge> int (file_descriptor_capacity s) then Some False
     else do { fd \<leftarrow> fd_slot (nat idx) s; Some (fd \<noteq> None) })"

text \<open>The loop over the slots returns how many descriptors of the file it has seen.\<close>

function move_fds_loop :: "addr \<Rightarrow> nat \<Rightarrow> nat \<Rightarrow> ufs \<Rightarrow> (nat \<times> ufs) option" where
  "move_fds_loop a i descriptors_found s =
    (if i < file_descriptor_capacity s then do {
       x \<leftarrow> fd_slot i s;
       case x of
         None \<Rightarrow> move_fds_loop a (i + 1) descriptors_found s
       | Some fd \<Rightarrow>
           if fd_file fd \<noteq> a then move_fds_loop a (i + 1) descriptors_found s
           else do {
             f \<leftarrow> files s a;
             if total_offset fd \<le> total_size f
             then move_fds_loop a (i + 1) (descriptors_found + 1) s
             else move_fds_loop a (i + 1) (descriptors_found + 1)
               (set_fd i (Some (fd\<lparr>total_offset := total_size f, cur_block := last_block f\<rparr>)) s)
           }
     } else Some (descriptors_found, s))"
  by pat_completeness auto
termination
  by (relation "measure (\<lambda>(a, i, n, s). file_descriptor_capacity s - i)") (auto simp: set_fd_def)

declare move_fds_loop.simps [simp del]

definition ufs_move_overflowing_fds :: "addr \<Rightarrow> ufs \<Rightarrow> ufs option" where
  "ufs_move_overflowing_fds a s = do {
     (descriptors_found, s) \<leftarrow> move_fds_loop a 0 0 s;
     f \<leftarrow> files s a;
     ensure (int descriptors_found = refs f);
     Some s
   }"


subsection \<open>The invariant of the descriptors\<close>

text \<open>
  A descriptor is in step with its file when it is not behind the end and its current block is
  the one its offset lies in.  Reference counts count descriptors, and a file that is marked for
  deletion lives only while it has one.
\<close>

definition on_file :: "addr \<Rightarrow> filedesc option \<Rightarrow> bool" where
  "on_file a x = (case x of None \<Rightarrow> False | Some fd \<Rightarrow> fd_file fd = a)"

lemma on_file_simps [simp]: "\<not> on_file a None" "on_file a (Some fd) = (fd_file fd = a)"
  by (simp_all add: on_file_def)

definition fd_ok :: "ufs \<Rightarrow> (addr \<Rightarrow> addr list) \<Rightarrow> filedesc \<Rightarrow> bool" where
  "fd_ok s B fd \<longleftrightarrow> (\<exists>f. files s (fd_file fd) = Some f \<and> total_offset fd \<le> total_size f \<and>
     cur_block fd = Some (B (fd_file fd) ! (total_offset fd div BLOCK_SIZE)))"

definition fds_wf :: "ufs \<Rightarrow> (addr \<Rightarrow> addr list) \<Rightarrow> bool" where
  "fds_wf s B \<longleftrightarrow>
     file_descriptor_capacity s = length (file_descriptors s) \<and>
     file_descriptor_count s = int (count_if (\<lambda>x. x \<noteq> None) (file_descriptors s)) \<and>
     (file_descriptors_rr_ptr s < length (file_descriptors s) \<or>
       file_descriptors s = [] \<and> file_descriptors_rr_ptr s = 0) \<and>
     (\<forall>fd. Some fd \<in> set (file_descriptors s) \<longrightarrow> fd_ok s B fd) \<and>
     (\<forall>a f. files s a = Some f \<longrightarrow> refs f = int (count_if (on_file a) (file_descriptors s)) \<and>
       (marked_for_deletion f \<longrightarrow> 0 < refs f))"

lemma fds_wfD:
  assumes "fds_wf s B"
  shows "file_descriptor_capacity s = length (file_descriptors s)"
    and "file_descriptor_count s = int (count_if (\<lambda>x. x \<noteq> None) (file_descriptors s))"
    and "file_descriptors_rr_ptr s < length (file_descriptors s) \<or>
       file_descriptors s = [] \<and> file_descriptors_rr_ptr s = 0"
    and "Some fd \<in> set (file_descriptors s) \<Longrightarrow> fd_ok s B fd"
    and "files s a = Some f \<Longrightarrow> refs f = int (count_if (on_file a) (file_descriptors s))"
    and "files s a = Some f \<Longrightarrow> marked_for_deletion f \<Longrightarrow> 0 < refs f"
  using assms unfolding fds_wf_def by blast+

lemma fds_wfI:
  assumes "file_descriptor_capacity s = length (file_descriptors s)"
    and "file_descriptor_count s = int (count_if (\<lambda>x. x \<noteq> None) (file_descriptors s))"
    and "file_descriptors_rr_ptr s < length (file_descriptors s) \<or>
       file_descriptors s = [] \<and> file_descriptors_rr_ptr s = 0"
    and "\<And>fd. Some fd \<in> set (file_descriptors s) \<Longrightarrow> fd_ok s B fd"
    and "\<And>a f. files s a = Some f \<Longrightarrow> refs f = int (count_if (on_file a) (file_descriptors s))"
    and "\<And>a f. files s a = Some f \<Longrightarrow> marked_for_deletion f \<Longrightarrow> 0 < refs f"
  shows "fds_wf s B"
  using assms unfolding fds_wf_def by blast

lemma fds_wf_get: "fds_wf s B \<Longrightarrow> get_fd i s = Some fd \<Longrightarrow> fd_ok s B fd"
  using fds_wfD(4) nth_mem by fastforce

definition ufs_wf :: "ufs \<Rightarrow> addr list \<Rightarrow> (addr \<Rightarrow> addr list) \<Rightarrow> bool" where
  "ufs_wf s fs B \<longleftrightarrow> files_wf s fs B \<and> fds_wf s B"

definition ufs_inv :: "ufs \<Rightarrow> bool" where
  "ufs_inv s \<longleftrightarrow> (\<exists>fs B. ufs_wf s fs B)"

lemma ufs_inv_init: "ufs_inv (ufs_init ok)"
  by (auto simp: ufs_inv_def ufs_wf_def fds_wf_def ufs_init_def intro!: exI[of _ "[]"] files_wfI)

text \<open>The invariant ignores the error code and the allocation counter may only grow.\<close>

lemma fd_ok_cong: "files s' = files s \<Longrightarrow> fd_ok s' B fd = fd_ok s B fd"
  by (simp add: fd_ok_def)

lemma fds_wf_cong:
  assumes "files s' = files s" "file_descriptors s' = file_descriptors s"
    "file_descriptor_count s' = file_descriptor_count s"
    "file_descriptor_capacity s' = file_descriptor_capacity s"
    "file_descriptors_rr_ptr s' = file_descriptors_rr_ptr s" and wf: "fds_wf s B"
  shows "fds_wf s' B"
  using wf unfolding fds_wf_def fd_ok_def assms(1-5) .

lemma ufs_wf_err [simp]: "ufs_wf s fs B \<Longrightarrow> ufs_wf (set_err e s) fs B"
  by (auto simp: ufs_wf_def set_err_def elim!: files_wf_cong[rotated -1] fds_wf_cong[rotated -1])

lemma ufs_wf_calloc: "ufs_wf s fs B \<Longrightarrow> ufs_wf (s\<lparr>calloc_count := calloc_count s + n\<rparr>) fs B"
  by (auto simp: ufs_wf_def elim!: files_wf_cong[rotated -1] fds_wf_cong[rotated -1])

text \<open>An operation that moves descriptors but leaves each on its file.\<close>

lemma count_if_map: "count_if (\<lambda>x. Q (h x)) xs = count_if Q (map h xs)"
  by (induction xs) auto

lemma fds_wf_update:
  assumes wf: "fds_wf s B"
    and fds: "map (map_option fd_file) (file_descriptors s') = map (map_option fd_file) (file_descriptors s)"
    and files: "\<And>x g. files s' x = Some g \<Longrightarrow>
      \<exists>f. files s x = Some f \<and> refs g = refs f \<and> marked_for_deletion g = marked_for_deletion f"
    and ok: "\<And>fd. Some fd \<in> set (file_descriptors s') \<Longrightarrow> fd_ok s' B' fd"
    and same: "file_descriptor_count s' = file_descriptor_count s"
      "file_descriptor_capacity s' = file_descriptor_capacity s"
      "file_descriptors_rr_ptr s' = file_descriptors_rr_ptr s"
  shows "fds_wf s' B'"
proof (rule fds_wfI)
  note D = fds_wfD[OF wf]
  have len: "length (file_descriptors s') = length (file_descriptors s)"
    using arg_cong[OF fds, of length] by simp
  have cnt: "count_if P (file_descriptors s') = count_if P (file_descriptors s)"
    if "P = (\<lambda>x. Q (map_option fd_file x))" for P Q
    unfolding that by (simp only: count_if_map[of Q "map_option fd_file"] fds)
  show "file_descriptor_capacity s' = length (file_descriptors s')" using D(1) len same by simp
  show "file_descriptor_count s' = int (count_if (\<lambda>x. x \<noteq> None) (file_descriptors s'))"
    using D(2) same cnt[of "\<lambda>x. x \<noteq> None" "\<lambda>x. x \<noteq> None"] by (simp add: fun_eq_iff)
  show "file_descriptors_rr_ptr s' < length (file_descriptors s') \<or>
    file_descriptors s' = [] \<and> file_descriptors_rr_ptr s' = 0" using D(3) len same by auto
  fix x g assume g: "files s' x = Some g"
  from files[OF g] obtain f where f: "files s x = Some f" "refs g = refs f"
    "marked_for_deletion g = marked_for_deletion f" by blast
  show "refs g = int (count_if (on_file x) (file_descriptors s'))"
    using D(5)[OF f(1)] f(2) cnt[of "on_file x" "\<lambda>y. y = Some x"] by (simp add: on_file_def fun_eq_iff split: option.splits)
  show "0 < refs g" if "marked_for_deletion g" using D(6)[OF f(1)] f that by simp
qed (rule ok)

subsection \<open>A valid index\<close>

lemma check_valid_wf:
  assumes "fds_wf s B"
  shows "ufs_check_valid_fd_idx idx s = Some (0 \<le> idx \<and> get_fd (nat idx) s \<noteq> None)"
  using fds_wfD(1)[OF assms]
  by (auto simp: ufs_check_valid_fd_idx_def get_fd_def fd_slot_def slot_def nat_less_iff)

text \<open>Moving one descriptor.\<close>

lemma map_update_same: "i < length xs \<Longrightarrow> h y = h (xs ! i) \<Longrightarrow> map h (xs[i := y]) = map h xs"
  by (simp add: map_update list_update_same_conv)

lemma ufs_wf_set_fd:
  assumes wf: "ufs_wf s fs B" and fd: "get_fd i s = Some fd" and ok: "fd_ok s B d" "fd_file d = fd_file fd"
  shows "ufs_wf (set_fd i (Some d) s) fs B"
proof -
  let ?s = "set_fd i (Some d) s"
  from wf have fwf: "files_wf s fs B" and dwf: "fds_wf s B" by (simp_all add: ufs_wf_def)
  have "files_wf ?s fs B" using fwf by (rule files_wf_cong[rotated -1]) (simp_all add: set_fd_def)
  moreover have "fds_wf ?s B"
  proof (rule fds_wf_update[OF dwf])
    show "map (map_option fd_file) (file_descriptors ?s) = map (map_option fd_file) (file_descriptors s)"
      using fd ok(2) unfolding set_fd_def by (simp add: map_update_same)
    fix x assume "Some x \<in> set (file_descriptors ?s)"
    then have "x = d \<or> Some x \<in> set (file_descriptors s)"
      using set_update_subset_insert[of "file_descriptors s" i "Some d"] by (auto simp: set_fd_def)
    then show "fd_ok ?s B x" using ok(1) fds_wfD(4)[OF dwf] by (auto simp: fd_ok_def set_fd_def)
  qed (simp_all add: set_fd_def)
  ultimately show ?thesis by (simp add: ufs_wf_def)
qed

subsection \<open>Opening a descriptor\<close>

text \<open>The search for a free slot ends at one, when there is one.\<close>

lemma find_free_slot_ends:
  assumes "rr < length arr" "i < length arr" "arr ! i = None"
  obtains r where "find_free_slot arr (length arr) rr = Some r" "r < length arr" "arr ! r = None"
proof -
  have "\<exists>r. find_free_slot arr (length arr) rr = Some r \<and> r < length arr \<and> arr ! r = None"
    using assms(1)
  proof (induction "if rr \<le> i then i - rr else i + length arr - rr" arbitrary: rr rule: less_induct)
    case less
    show ?case
    proof (cases "arr ! rr")
      case None
      with less.prems show ?thesis by (auto simp: find_free_slot.simps)
    next
      case (Some fd)
      then have "rr \<noteq> i" using assms(3) by auto
      define rr' where "rr' = (if rr + 1 = length arr then 0 else rr + 1)"
      have "rr' < length arr" using less.prems by (auto simp: rr'_def)
      moreover have "(if rr' \<le> i then i - rr' else i + length arr - rr') <
          (if rr \<le> i then i - rr else i + length arr - rr)"
        using \<open>rr \<noteq> i\<close> less.prems assms(2) by (auto simp: rr'_def)
      ultimately have "\<exists>r. find_free_slot arr (length arr) rr' = Some r \<and> r < length arr \<and> arr ! r = None"
        by (intro less.hyps)
      with Some less.prems show ?thesis
        by (cases "rr + 1 = length arr") (simp_all add: find_free_slot.simps[of arr _ rr] rr'_def)
    qed
  qed
  with that show thesis by blast
qed

text \<open>Extending keeps every slot and, unless memory runs out, leaves a free one.\<close>

lemma ufs_extend_wf:
  assumes "fds_wf s B"
  obtains
    (fail) "\<not> calloc_ok s (calloc_count s)"
      "ufs_extend_fd_list_if_needed s = Some (False,
        s\<lparr>calloc_count := calloc_count s + 1, ufs_error_code := UFS_ERR_NO_MEM\<rparr>)"
  | (succ) n c where "ufs_extend_fd_list_if_needed s = Some (True,
      s\<lparr>calloc_count := calloc_count s + c,
        file_descriptors := file_descriptors s @ replicate n None,
        file_descriptor_capacity := length (file_descriptors s) + n\<rparr>)"
      "count_if (\<lambda>x. x \<noteq> None) (file_descriptors s) < length (file_descriptors s) + n"
proof (cases "file_descriptor_count s < int (file_descriptor_capacity s)")
  case True
  with fds_wfD(1,2)[OF assms] show thesis
    by (intro succ[of 0 0]) (auto simp: ufs_extend_fd_list_if_needed_def)
next
  case full: False
  note cap = fds_wfD(1)[OF assms]
  show thesis
  proof (cases "calloc_ok s (calloc_count s)")
    case False
    with full show thesis
      by (intro fail) (auto simp: ufs_extend_fd_list_if_needed_def calloc_def set_err_def Let_def)
  next
    case True
    define n where "n = (if length (file_descriptors s) \<noteq> 0 then length (file_descriptors s) else 1)"
    have n: "0 < n" by (simp add: n_def)
    show thesis
    proof (rule succ[of n 1])
      show "ufs_extend_fd_list_if_needed s = Some (True, s\<lparr>calloc_count := calloc_count s + 1,
        file_descriptors := file_descriptors s @ replicate n None,
        file_descriptor_capacity := length (file_descriptors s) + n\<rparr>)"
        using True full cap
        by (simp add: ufs_extend_fd_list_if_needed_def calloc_def Let_def mult_2_right n_def)
      show "count_if (\<lambda>x. x \<noteq> None) (file_descriptors s) < length (file_descriptors s) + n"
        using n by (intro order_le_less_trans[OF length_filter_le]) simp
    qed
  qed
qed

text \<open>The descriptor array as a finite map: unused slots do not matter.\<close>

lemma get_fd_set_fd [simp]:
  "get_fd i (set_fd r x s) = (if i = r \<and> r < length (file_descriptors s) then x else get_fd i s)"
  by (auto simp: get_fd_def fd_slot_def slot_def set_fd_def)

lemma set_fd_same: "get_fd i s = Some fd \<Longrightarrow> set_fd i (Some fd) s = s"
  by (rule ufs.equality) (simp_all add: set_fd_def list_update_same_conv)

lemma get_fd_cong: "file_descriptors s' = file_descriptors s \<Longrightarrow> get_fd i s' = get_fd i s"
  by (simp add: get_fd_def fd_slot_def)

lemma get_fd_append_None: "file_descriptors s' = file_descriptors s @ replicate n None \<Longrightarrow> get_fd i s' = get_fd i s"
  by (auto simp: get_fd_def fd_slot_def slot_def nth_append)

lemma count_if_append_None [simp]:
  "count_if (\<lambda>x. x \<noteq> None) (xs @ replicate n None) = count_if (\<lambda>x. x \<noteq> None) xs"
  "count_if (on_file a) (xs @ replicate n None) = count_if (on_file a) xs"
  by simp_all

text \<open>A descriptor opened at offset 0 is in step.\<close>

lemma fd_ok_start:
  assumes "layout (blocks s) f (B a)" "files s a = Some f" "fd_file fd = a"
    "cur_block fd = block_list f" "total_offset fd = 0"
  shows "fd_ok s B fd"
  using assms layout_first[OF assms(1)] layoutD(3)[OF assms(1)] by (simp add: fd_ok_def hd_conv_nth)

text \<open>Reference counts do not matter to the other descriptors.\<close>

lemma fd_ok_refs:
  assumes "fd_ok s B fd" "files s a = Some f" "files s' = (files s)(a \<mapsto> f')"
    "total_size f' = total_size f"
  shows "fd_ok s' B fd"
  using assms by (auto simp: fd_ok_def)

abbreviation new_fd :: "addr \<Rightarrow> 32 word \<Rightarrow> addr option \<Rightarrow> filedesc" where
  "new_fd a flags b \<equiv> \<lparr>fd_file = a,
     read_allowed = (flag_set flags UFS_READ_ONLY \<or> flag_set flags UFS_READ_WRITE),
     write_allowed = (flag_set flags UFS_WRITE_ONLY \<or> flag_set flags UFS_READ_WRITE),
     cur_block = b, total_offset = 0\<rparr>"

lemma fds_wf_add:
  assumes wf: "fds_wf s B" and a: "files s a = Some f" and ok: "fd_ok s B fd" and fd: "fd_file fd = a"
    and s': "files s' = (files s)(a \<mapsto> f\<lparr>refs := refs f + 1\<rparr>)"
      "file_descriptors s' = (file_descriptors s @ replicate n None)[r := Some fd]"
      "file_descriptor_count s' = file_descriptor_count s + 1"
      "file_descriptor_capacity s' = length (file_descriptors s) + n"
      "file_descriptors_rr_ptr s' = r"
    and r: "r < length (file_descriptors s) + n" "(file_descriptors s @ replicate n None) ! r = None"
  shows "fds_wf s' B"
proof (rule fds_wfI)
  note D = fds_wfD[OF wf]
  have len: "r < length (file_descriptors s @ replicate n None)" using r(1) by simp
  show "file_descriptor_capacity s' = length (file_descriptors s')" by (simp add: s')
  show "file_descriptor_count s' = int (count_if (\<lambda>x. x \<noteq> None) (file_descriptors s'))"
    unfolding s' count_if_update[OF len] r(2) using D(2) by simp
  show "file_descriptors_rr_ptr s' < length (file_descriptors s') \<or>
    file_descriptors s' = [] \<and> file_descriptors_rr_ptr s' = 0" using len by (simp add: s')
  show "fd_ok s' B d" if "Some d \<in> set (file_descriptors s')" for d
  proof -
    have "d = fd \<or> Some d \<in> set (file_descriptors s)"
      using that set_update_subset_insert[of "file_descriptors s @ replicate n None" r "Some fd"]
      by (auto simp: s')
    then have "fd_ok s B d" using ok D(4) by auto
    then show ?thesis by (rule fd_ok_refs[OF _ a s'(1)]) simp
  qed
  fix x g assume g: "files s' x = Some g"
  have cnt: "int (count_if (on_file x) (file_descriptors s')) =
      int (count_if (on_file x) (file_descriptors s)) + (if x = a then 1 else 0)"
    unfolding s'(2) count_if_update[OF len] r(2) by (simp add: fd)
  show "refs g = int (count_if (on_file x) (file_descriptors s'))"
    unfolding cnt using g D(5)[of x] D(5)[OF a] by (auto simp: s' split: if_splits)
  show "0 < refs g" if "marked_for_deletion g"
    using g that D(6)[of x] D(6)[OF a] by (auto simp: s' split: if_splits)
qed

lemma ufs_create_fd_wf:
  assumes wf: "ufs_wf s fs B" and a: "files s a = Some f"
  obtains
    (fail) n where "\<not> plenty s" "ufs_create_fd a flags s = Some (RETVAL_FAILURE,
      s\<lparr>calloc_count := calloc_count s + n, ufs_error_code := UFS_ERR_NO_MEM\<rparr>)"
  | (succ) r s' where "ufs_create_fd a flags s = Some (int r, s')" "get_fd r s = None"
      "\<And>i. get_fd i s' = (if i = r then Some (new_fd a flags (block_list f)) else get_fd i s)"
      "ufs_wf s' fs B" "blocks s' = blocks s" "files s' = (files s)(a \<mapsto> f\<lparr>refs := refs f + 1\<rparr>)"
      "ufs_error_code s' = ufs_error_code s" "calloc_ok s' = calloc_ok s"
proof (cases "calloc_ok s (calloc_count s)")
  case False
  then show thesis by (intro fail[of 1]) (auto simp: ufs_create_fd_def calloc_def set_err_def)
next
  case True
  from wf have fwf: "files_wf s fs B" and dwf: "fds_wf s B" by (simp_all add: ufs_wf_def)
  define s1 where "s1 = s\<lparr>calloc_count := calloc_count s + 1\<rparr>"
  have c1: "calloc s = (Some (calloc_count s), s1)" using True by (simp add: calloc_def s1_def)
  have dwf1: "fds_wf s1 B" using dwf by (rule fds_wf_cong[rotated -1]) (simp_all add: s1_def)
  have a1: "files s1 a = Some f" using a by (simp add: s1_def)
  show thesis
  proof (cases rule: ufs_extend_wf[OF dwf1])
    case 1
    then show thesis
      by (intro fail[of 2]) (auto simp: ufs_create_fd_def c1 s1_def)
  next
    case (2 n c)
    let ?arr = "file_descriptors s @ replicate n None"
    have fds1: "file_descriptors s1 = file_descriptors s" by (simp add: s1_def)
    define s2 where "s2 = s1\<lparr>calloc_count := calloc_count s1 + c, file_descriptors := ?arr,
      file_descriptor_capacity := length (file_descriptors s) + n\<rparr>"
    have ext: "ufs_extend_fd_list_if_needed s1 = Some (True, s2)" using 2(1) by (simp add: s2_def fds1)
    have "count_if (\<lambda>x. x \<noteq> None) ?arr < length ?arr" using 2(2) by (simp add: fds1)
    from count_if_less[OF this] obtain i where i: "i < length ?arr" "?arr ! i = None" by auto
    have rr: "file_descriptors_rr_ptr s < length ?arr"
      using fds_wfD(3)[OF dwf] i(1) by auto
    from find_free_slot_ends[OF rr i] obtain r where
      r: "find_free_slot ?arr (length ?arr) (file_descriptors_rr_ptr s) = Some r"
        "r < length ?arr" "?arr ! r = None" by blast
    define s' where "s' = s\<lparr>calloc_count := calloc_count s + 1 + c,
      files := (files s)(a \<mapsto> f\<lparr>refs := refs f + 1\<rparr>),
      file_descriptors := ?arr[r := Some (new_fd a flags (block_list f))],
      file_descriptor_capacity := length (file_descriptors s) + n,
      file_descriptors_rr_ptr := r, file_descriptor_count := file_descriptor_count s + 1\<rparr>"
    have run: "ufs_create_fd a flags s = Some (int r, s')"
      by (simp add: ufs_create_fd_def c1 ext)
        (use r a in \<open>simp add: s2_def s1_def set_file_def set_fd_def s'_def\<close>)
    have get: "get_fd i s' = (if i = r then Some (new_fd a flags (block_list f)) else get_fd i s)" for i
      using r(2) by (auto simp: s'_def get_fd_def fd_slot_def slot_def nth_append nth_list_update)
    have r_none: "get_fd r s = None"
      using r(3) by (auto simp: get_fd_def fd_slot_def slot_def nth_append)
    have fwf': "files_wf s' fs B"
      using files_wf_set_file[OF fwf a, of "f\<lparr>refs := refs f + 1\<rparr>"]
      by (auto elim!: files_wf_cong[rotated -1] simp: s'_def set_file_def)
    have "fd_ok s B (new_fd a flags (block_list f))"
      using files_wfD(3)[OF fwf a] a by (intro fd_ok_start) simp_all
    then have dwf': "fds_wf s' B"
      by (rule fds_wf_add[OF dwf a]) (use r in \<open>simp_all add: s'_def\<close>)
    show thesis
      by (rule succ[OF run r_none get]) (use fwf' dwf' in \<open>simp_all add: ufs_wf_def s'_def\<close>)
  qed
qed

subsection \<open>Closing a descriptor\<close>

lemma fds_wf_remove:
  assumes wf: "fds_wf s B" and i: "get_fd i s = Some fd" and a: "files s (fd_file fd) = Some f"
    and core: "\<And>x. x \<noteq> fd_file fd \<Longrightarrow> map_option file_core (files s' x) = map_option file_core (files s x)"
    and fa: "files s' (fd_file fd) = None \<and> refs f = 1 \<or>
      files s' (fd_file fd) = Some (f\<lparr>refs := refs f - 1\<rparr>) \<and> \<not> (marked_for_deletion f \<and> refs f = 1)"
    and s': "file_descriptors s' = (file_descriptors s)[i := None]"
      "file_descriptor_count s' = file_descriptor_count s - 1"
      "file_descriptor_capacity s' = file_descriptor_capacity s"
      "file_descriptors_rr_ptr s' = file_descriptors_rr_ptr s"
  shows "fds_wf s' B"
proof (rule fds_wfI)
  note D = fds_wfD[OF wf]
  let ?a = "fd_file fd"
  from i have len: "i < length (file_descriptors s)" and at: "file_descriptors s ! i = Some fd" by simp_all
  show "file_descriptor_capacity s' = length (file_descriptors s')" using D(1) by (simp add: s')
  show "file_descriptor_count s' = int (count_if (\<lambda>x. x \<noteq> None) (file_descriptors s'))"
    unfolding s' count_if_update[OF len] at using D(2) by simp
  show "file_descriptors_rr_ptr s' < length (file_descriptors s') \<or>
    file_descriptors s' = [] \<and> file_descriptors_rr_ptr s' = 0" using D(3) by (simp add: s')
  have cnt: "int (count_if (on_file x) (file_descriptors s')) =
      int (count_if (on_file x) (file_descriptors s)) - (if x = ?a then 1 else 0)" for x
    unfolding s' count_if_update[OF len] at by simp
  have old: "\<exists>h. files s x = Some h \<and> file_core g = file_core h" if "files s' x = Some g" "x \<noteq> ?a" for x g
    using core[OF that(2)] that(1) by (rule file_core_Some)
  show "fd_ok s' B d" if "Some d \<in> set (file_descriptors s')" for d
  proof -
    have "Some d \<in> set (file_descriptors s)"
      using that set_update_subset_insert[of "file_descriptors s" i None] by (auto simp: s')
    then obtain h where h: "files s (fd_file d) = Some h" "total_offset d \<le> total_size h"
      "cur_block d = Some (B (fd_file d) ! (total_offset d div BLOCK_SIZE))"
      using D(4) by (auto simp: fd_ok_def)
    have "\<exists>g. files s' (fd_file d) = Some g \<and> total_size g = total_size h"
    proof (cases "fd_file d = ?a")
      case True
      have "0 < count_if (on_file ?a) (file_descriptors s')"
        using that True by (intro count_if_pos[of "Some d"]) auto
      then have "refs f \<noteq> 1" using cnt[of ?a] D(5)[OF a] by auto
      with fa True h(1) a show ?thesis by auto
    next
      case False
      from file_core_Some[OF core[OF False, symmetric] h(1)] show ?thesis
        by (auto dest: file_core_eqD)
    qed
    with h show ?thesis by (auto simp: fd_ok_def)
  qed
  fix x g assume g: "files s' x = Some g"
  show "refs g = int (count_if (on_file x) (file_descriptors s'))"
  proof (cases "x = ?a")
    case True
    with g fa D(5)[OF a] show ?thesis by (auto simp: cnt)
  next
    case False
    from old[OF g False] obtain h where "files s x = Some h" "file_core g = file_core h" by blast
    with False D(5)[of x h] file_core_eqD(3)[of g h] show ?thesis by (simp add: cnt)
  qed
  show "0 < refs g" if "marked_for_deletion g"
  proof (cases "x = ?a")
    case True
    then have "f\<lparr>refs := refs f - 1\<rparr> = g" "refs f \<noteq> 1" using g fa that by auto
    then show ?thesis using D(6)[OF a] that by auto
  next
    case False
    from old[OF g False] obtain h where h: "files s x = Some h" "file_core g = file_core h" by blast
    with that D(6)[OF h(1)] file_core_eqD(3,5)[OF h(2)] show ?thesis by simp
  qed
qed

lemma ufs_delete_fd_wf:
  assumes wf: "ufs_wf s fs B" and i: "get_fd i s = Some fd" and a: "files s (fd_file fd) = Some f"
  obtains s' fs' where "ufs_delete_fd i s = Some s'" "ufs_wf s' fs' B"
    "\<And>j. get_fd j s' = (if j = i then None else get_fd j s)"
    "if marked_for_deletion f \<and> refs f = 1
     then files s' (fd_file fd) = None \<and> blocks s' = blocks s |` (- set (B (fd_file fd)))
     else files s' (fd_file fd) = Some (f\<lparr>refs := refs f - 1\<rparr>) \<and> blocks s' = blocks s"
    "\<And>x. x \<noteq> fd_file fd \<Longrightarrow> map_option file_core (files s' x) = map_option file_core (files s x)"
    "calloc_ok s' = calloc_ok s" "ufs_error_code s' = ufs_error_code s"
proof -
  let ?a = "fd_file fd" and ?f = "f\<lparr>refs := refs f - 1\<rparr>"
  from wf have fwf: "files_wf s fs B" and dwf: "fds_wf s B" by (simp_all add: ufs_wf_def)
  from i have len: "i < length (file_descriptors s)" by simp
  define s1 where "s1 = set_file ?a ?f (set_fd i None s)"
  have "files_wf (set_file ?a ?f s) fs B" by (rule files_wf_set_file[OF fwf a]) simp_all
  then have fwf1: "files_wf s1 fs B"
    by (rule files_wf_cong[rotated -1]) (simp_all add: s1_def set_file_def set_fd_def)
  have a1: "files s1 ?a = Some ?f" by (simp add: s1_def set_file_def)
  have get1: "get_fd j s1 = (if j = i then None else get_fd j s)" for j
    using len by (auto simp: s1_def set_file_def get_fd_def fd_slot_def slot_def set_fd_def)
  show thesis
  proof (cases "marked_for_deletion f \<and> refs f = 1")
    case False
    let ?s' = "s1\<lparr>file_descriptor_count := file_descriptor_count s1 - 1\<rparr>"
    have run: "ufs_delete_fd i s = Some ?s'"
      using False i a by (auto simp: ufs_delete_fd_def s1_def set_file_def set_fd_def Let_def simp del: get_fd_Some)
    have "fds_wf ?s' B"
      by (rule fds_wf_remove[OF dwf i a])
        (use False in \<open>simp_all add: s1_def set_file_def set_fd_def\<close>)
    moreover have "files_wf ?s' fs B" using fwf1 by (rule files_wf_cong[rotated -1]) simp_all
    ultimately show thesis
      by (intro that[OF run, of fs])
        (use False in \<open>simp_all add: ufs_wf_def get1 get_fd_cong[of ?s' s1]\<close>,
         simp_all add: s1_def set_file_def set_fd_def)
  next
    case True
    from files_wf_real_delete[OF fwf1 a1] obtain s2 where s2: "ufs_real_delete_file ?a s1 = Some s2"
      "files_wf s2 (remove1 ?a fs) B" "blocks s2 = blocks s1 |` (- set (B ?a))" "files s2 ?a = None"
      "\<And>x. x \<noteq> ?a \<Longrightarrow> map_option file_core (files s2 x) = map_option file_core (files s1 x)"
      "s2 = s1\<lparr>blocks := blocks s2, files := files s2, file_list := file_list s2,
         file_list_last := file_list_last s2\<rparr>" by blast
    have fields: "file_descriptors s2 = file_descriptors s1" "calloc_ok s2 = calloc_ok s1"
      "ufs_error_code s2 = ufs_error_code s1" "file_descriptor_count s2 = file_descriptor_count s1"
      "file_descriptor_capacity s2 = file_descriptor_capacity s1"
      "file_descriptors_rr_ptr s2 = file_descriptors_rr_ptr s1"
      by (subst s2(6), simp)+
    let ?s' = "s2\<lparr>file_descriptor_count := file_descriptor_count s2 - 1\<rparr>"
    have run: "ufs_delete_fd i s = Some ?s'"
      using True i a s2(1) by (simp add: ufs_delete_fd_def s1_def set_fd_def set_file_def Let_def del: get_fd_Some)
    have "fds_wf ?s' B"
      by (rule fds_wf_remove[OF dwf i a])
        (use True s2(4,5) in \<open>simp_all add: fields s1_def set_file_def set_fd_def\<close>)
    moreover have "files_wf ?s' (remove1 ?a fs) B" using s2(2) by (rule files_wf_cong[rotated -1]) simp_all
    moreover have "get_fd j ?s' = (if j = i then None else get_fd j s)" for j
      unfolding get1[symmetric] by (rule get_fd_cong) (simp add: fields)
    moreover have "blocks s1 = blocks s" "calloc_ok s1 = calloc_ok s" "ufs_error_code s1 = ufs_error_code s"
      by (simp_all add: s1_def set_file_def set_fd_def)
    moreover have "map_option file_core (files ?s' x) = map_option file_core (files s x)" if "x \<noteq> ?a" for x
      using s2(5)[OF that] that by (simp add: s1_def set_file_def set_fd_def)
    ultimately show thesis
      by (intro that[OF run, of "remove1 ?a fs"]) (use True s2(3,4) in \<open>simp_all add: ufs_wf_def fields\<close>)
  qed
qed

subsection \<open>Moving descriptors back to the end of a shrunk file\<close>

definition clamp_fd :: "addr \<Rightarrow> ufs_file \<Rightarrow> filedesc option \<Rightarrow> filedesc option" where
  "clamp_fd a f x = (case x of None \<Rightarrow> None
    | Some fd \<Rightarrow> Some (if fd_file fd = a \<and> total_size f < total_offset fd
        then fd\<lparr>total_offset := total_size f, cur_block := last_block f\<rparr> else fd))"

lemma on_file_clamp [simp]: "on_file b (clamp_fd a f x) = on_file b x"
  "(clamp_fd a f x = None) = (x = None)"
  by (auto simp: clamp_fd_def split: option.splits)

lemma move_fds_loop_map:
  assumes "file_descriptor_capacity s = length (file_descriptors s)" "files s a = Some f"
    "i \<le> length (file_descriptors s)"
  shows "move_fds_loop a i n s = Some (n + count_if (on_file a) (drop i (file_descriptors s)),
    s\<lparr>file_descriptors := take i (file_descriptors s) @ map (clamp_fd a f) (drop i (file_descriptors s))\<rparr>)"
  using assms
proof (induction a i n s rule: move_fds_loop.induct)
  case (1 a i n s)
  show ?case
  proof (cases "i < length (file_descriptors s)")
    case False
    then show ?thesis using "1.prems" by (simp add: move_fds_loop.simps)
  next
    case True
    let ?x = "file_descriptors s ! i"
    have slot: "fd_slot i s = Some ?x" using True by (simp add: fd_slot_def)
    have drop: "drop i (file_descriptors s) = ?x # drop (Suc i) (file_descriptors s)"
      using True by (rule Cons_nth_drop_Suc[symmetric])
    have take: "take (Suc i) (file_descriptors s) = take i (file_descriptors s) @ [?x]"
      using True by (rule take_Suc_conv_app_nth)
    note unfold = move_fds_loop.simps[of a i n s]
    show ?thesis
    proof (cases ?x)
      case None
      with "1.IH"(1)[of ?x] "1.prems" True slot show ?thesis
        by (simp add: unfold drop take clamp_fd_def)
    next
      case (Some fd)
      consider "fd_file fd \<noteq> a" | "fd_file fd = a" "total_offset fd \<le> total_size f"
        | "fd_file fd = a" "total_size f < total_offset fd" by linarith
      then show ?thesis
      proof cases
        case 1
        with "1.IH"(2)[of ?x fd] "1.prems" True slot Some show ?thesis
          by (simp add: unfold drop take clamp_fd_def)
      next
        case 2
        with "1.IH"(3)[of ?x fd f] "1.prems" True slot Some show ?thesis
          by (simp add: unfold drop take clamp_fd_def)
      next
        case 3
        let ?d = "fd\<lparr>total_offset := total_size f, cur_block := last_block f\<rparr>"
        from 3 "1.IH"(4)[of ?x fd f] "1.prems" True slot Some show ?thesis
          by (simp add: unfold drop clamp_fd_def set_fd_def upd_conv_take_nth_drop[of i])
      qed
    qed
  qed
qed

lemma ufs_move_overflowing_fds_map:
  assumes "file_descriptor_capacity s = length (file_descriptors s)" "files s a = Some f"
    "refs f = int (count_if (on_file a) (file_descriptors s))"
  shows "ufs_move_overflowing_fds a s = Some (s\<lparr>file_descriptors := map (clamp_fd a f) (file_descriptors s)\<rparr>)"
  using move_fds_loop_map[OF assms(1,2), of 0 0] assms(2,3) by (simp add: ufs_move_overflowing_fds_def)

end
