(* ===== verification/Ufs_Io.thy ===== *)
theory Ufs_Io imports Ufs_Fds begin

text \<open>
  Reading and writing through a descriptor: \<open>ufs_write\<close> and \<open>ufs_read\<close> of
  Assignment_3/userfs.c.  The caller's buffer is the list \<open>buf\<close> of exactly \<open>size\<close>
  bytes; the bytes a read copies out are part of its result.
\<close>

subsection \<open>Write\<close>

text \<open>How much of the remaining \<open>n\<close> bytes one round of the loop handles.\<close>

definition to_write :: "filedesc \<Rightarrow> nat \<Rightarrow> nat" where
  "to_write fd size_remaining =
    (let fd_offset_in_block = total_offset fd mod BLOCK_SIZE;
         available_in_block = BLOCK_SIZE - fd_offset_in_block
     in if available_in_block < size_remaining then available_in_block else size_remaining)"

text \<open>
  One round of the loop, writing \<open>bs\<close>: the copy, the new offset and, at the end of a block,
  the step to the next block, which is appended when there is none.
\<close>

definition ufs_write_chunk :: "nat \<Rightarrow> addr \<Rightarrow> byte list \<Rightarrow> ufs \<Rightarrow> ufs option" where
  "ufs_write_chunk idx file_addr bs s = do {
     fd \<leftarrow> get_fd idx s;
     (cur, cb) \<leftarrow> deref_block (cur_block fd) s;
     let fd_offset_in_block = total_offset fd mod BLOCK_SIZE;
     ensure (fd_offset_in_block + length bs \<le> length (memory cb));
     let s = set_block cur (cb\<lparr>memory := blit fd_offset_in_block bs (memory cb)\<rparr>) s;
     let fd = fd\<lparr>total_offset := total_offset fd + length bs\<rparr>;
     let s = set_fd idx (Some fd) s;
     if total_offset fd mod BLOCK_SIZE = 0 then do {
       (next_block, s) \<leftarrow>
         (case blk_next cb of
            Some nb \<Rightarrow> Some (Some nb, s)
          | None \<Rightarrow> do {
              (nb, s) \<leftarrow> ufs_add_block (Some cur) s;
              s \<leftarrow> upd_file file_addr (\<lambda>f. f\<lparr>last_block := nb\<rparr>) s;
              Some (nb, s)
            });
       Some (set_fd idx (Some (fd\<lparr>cur_block := next_block\<rparr>)) s)
     } else Some s
   }"

text \<open>
  A descriptor is in step with a block list when its current block is the one of the list its
  offset lies in.  \<open>written\<close> is the state after writes through the descriptor \<open>idx\<close> that have
  added \<open>k\<close> blocks to the file \<open>a\<close>.
\<close>

definition in_step :: "filedesc \<Rightarrow> addr list \<Rightarrow> bool" where
  "in_step fd bs \<longleftrightarrow> total_offset fd div BLOCK_SIZE < length bs \<and>
     cur_block fd = Some (bs ! (total_offset fd div BLOCK_SIZE))"

definition seek :: "filedesc \<Rightarrow> addr list \<Rightarrow> nat \<Rightarrow> filedesc" where
  "seek fd bs off = fd\<lparr>total_offset := off, cur_block := Some (bs ! (off div BLOCK_SIZE))\<rparr>"

lemma seek_simps [simp]:
  "total_offset (seek fd bs off) = off" "cur_block (seek fd bs off) = Some (bs ! (off div BLOCK_SIZE))"
  "fd_file (seek fd bs off) = fd_file fd" "seek (seek fd bs off) bs' off' = seek fd bs' off'"
  "read_allowed (seek fd bs off) = read_allowed fd" "write_allowed (seek fd bs off) = write_allowed fd"
  by (simp_all add: seek_def)

lemma seek_self: "in_step fd bs \<Longrightarrow> seek fd bs (total_offset fd) = fd"
  by (simp add: seek_def in_step_def)

lemma in_step_seek [simp]: "in_step (seek fd bs off) bs \<longleftrightarrow> off div BLOCK_SIZE < length bs"
  by (simp add: in_step_def)

definition written ::
  "nat \<Rightarrow> filedesc \<Rightarrow> addr \<Rightarrow> ufs_file \<Rightarrow> (addr \<rightharpoonup> block) \<Rightarrow> addr list \<Rightarrow> nat \<Rightarrow> ufs \<Rightarrow> ufs" where
  "written idx fd a f h bs k s = s\<lparr>blocks := h, files := (files s)(a \<mapsto> f\<lparr>last_block := Some (last bs)\<rparr>),
     file_descriptors := (file_descriptors s)[idx := Some fd], calloc_count := calloc_count s + 2 * k\<rparr>"

function ufs_write_loop :: "nat \<Rightarrow> addr \<Rightarrow> byte list \<Rightarrow> ufs \<Rightarrow> ufs option" where
  "ufs_write_loop idx file_addr cur_buf s =
    (if cur_buf = [] then Some s
     else do {
       fd \<leftarrow> get_fd idx s;
       let n = to_write fd (length cur_buf);
       s \<leftarrow> ufs_write_chunk idx file_addr (take n cur_buf) s;
       ufs_write_loop idx file_addr (drop n cur_buf) s
     })"
  by pat_completeness auto
termination
  by (relation "measure (\<lambda>(i, a, buf, s). length buf)") (auto simp: to_write_def Let_def)

declare ufs_write_loop.simps [simp del]

text \<open>
  What the bytes \<open>new\<close> written at \<open>off\<close> make of a file's blocks: the first blocks stay, enough
  zeroed ones are appended for the block of the new offset to exist, and the bytes are copied in.
\<close>

definition written_blocks :: "ufs \<Rightarrow> addr list \<Rightarrow> nat \<Rightarrow> byte list \<Rightarrow> (addr \<rightharpoonup> block) \<Rightarrow> addr list \<Rightarrow> bool" where
  "written_blocks s bs off new h' bs' \<longleftrightarrow>
     length bs' = max (length bs) ((off + length new) div BLOCK_SIZE + 1) \<and>
     take (length bs) bs' = bs \<and>
     bytes h' bs' = blit off new (bytes (blocks s) bs @ replicate (BLOCK_SIZE * (length bs' - length bs)) 0)"

text \<open>Copying inside one block, with and without appending the next one.\<close>

lemma chunk_here:
  fixes new :: "byte list"
  assumes lay: "layout (blocks s) f bs" and k: "k = off div BLOCK_SIZE" "k < length bs"
    and c: "blocks s (bs ! k) = Some c" and new: "off mod BLOCK_SIZE + length new \<le> BLOCK_SIZE"
  defines "h1 \<equiv> (blocks s)(bs ! k \<mapsto> c\<lparr>memory := blit (off mod BLOCK_SIZE) new (memory c)\<rparr>)"
  shows "layout h1 f bs" "bytes h1 bs = blit off new (bytes (blocks s) bs)" "dom h1 = dom (blocks s)"
    "off + length new \<le> length (bytes (blocks s) bs)"
    "(off + length new) div BLOCK_SIZE < length bs \<Longrightarrow> written_blocks s bs off new h1 bs"
    "calloc_count s \<le> calloc_count s' \<Longrightarrow> blocks s' = h1 \<Longrightarrow> reshapes s bs s' bs"
proof -
  have m: "length (memory c) = BLOCK_SIZE" using layout_nth[OF lay k(2)] c by auto
  show "layout h1 f bs" unfolding h1_def
    using lay c by (rule layout_write) (use m new in simp)
  show bytes1: "bytes h1 bs = blit off new (bytes (blocks s) bs)"
    using bytes_write[OF lay k(2) c new] by (simp add: h1_def k(1))
  show dom1: "dom h1 = dom (blocks s)" using c by (auto simp: h1_def)
  show "off + length new \<le> length (bytes (blocks s) bs)"
    unfolding length_bytes[OF layoutD(2)[OF lay]]
    using k new div_mult_mod_eq[of off BLOCK_SIZE] by linarith
  show "written_blocks s bs off new h1 bs" if "(off + length new) div BLOCK_SIZE < length bs"
    using that bytes1 by (simp add: written_blocks_def)
  have "set bs \<subseteq> dom (blocks s)" using layoutD(2)[OF lay] by (auto simp: blocks_full_def)
  then show "reshapes s bs s' bs" if "calloc_count s \<le> calloc_count s'" "blocks s' = h1"
    using that dom1 k(2) by (auto simp: reshapes_def h1_def)
qed

lemma chunk_append:
  fixes new :: "byte list"
  assumes lay: "layout (blocks s) f bs" and k: "k = off div BLOCK_SIZE" "length bs = Suc k"
    and c: "blocks s (bs ! k) = Some c" and new: "off mod BLOCK_SIZE + length new = BLOCK_SIZE"
    and fresh: "\<forall>b \<in> dom (blocks s). b < calloc_count s"
  defines "h2 \<equiv> (blocks s)(bs ! k \<mapsto> c\<lparr>memory := blit (off mod BLOCK_SIZE) new (memory c),
      blk_next := Some (calloc_count s)\<rparr>, calloc_count s \<mapsto> zero_block (Some (bs ! k)))"
  shows "layout h2 (f\<lparr>last_block := Some (calloc_count s)\<rparr>) (bs @ [calloc_count s])"
    "written_blocks s bs off new h2 (bs @ [calloc_count s])"
    "calloc_count s' = calloc_count s + 2 \<Longrightarrow> blocks s' = h2 \<Longrightarrow> reshapes s bs s' (bs @ [calloc_count s])"
proof -
  let ?b = "calloc_count s" and ?c = "c\<lparr>memory := blit (off mod BLOCK_SIZE) new (memory c)\<rparr>"
  define h1 where "h1 = (blocks s)(bs ! k \<mapsto> ?c)"
  have k': "k < length bs" and new': "off mod BLOCK_SIZE + length new \<le> BLOCK_SIZE" using k new by simp_all
  note here = chunk_here[OF lay k(1) k' c new', folded h1_def]
  have ne: "bs \<noteq> []" by (rule layoutD(3)[OF lay])
  have last: "bs ! k = last bs" using k ne by (simp add: last_conv_nth)
  have sub: "set bs \<subseteq> dom (blocks s)" using layoutD(2)[OF lay] by (auto simp: blocks_full_def)
  have "blocks s ?b = None" using fresh by (metis domIff less_irrefl)
  then have b: "h1 ?b = None" "?b \<notin> set bs" using here(3) sub by (metis domIff, auto)
  have c1: "h1 (last bs) = Some ?c" by (simp add: h1_def last)
  have h2: "h2 = h1(last bs \<mapsto> ?c\<lparr>blk_next := Some ?b\<rparr>, ?b \<mapsto> zero_block (Some (last bs)))"
    by (simp add: h2_def h1_def last)
  show "layout h2 (f\<lparr>last_block := Some ?b\<rparr>) (bs @ [?b])"
    unfolding h2 by (rule layout_snoc(1)[OF here(1) c1 b(1)])
  have "bytes h2 (bs @ [?b]) = bytes h1 bs @ replicate BLOCK_SIZE 0"
    unfolding h2 by (rule layout_snoc(2)[OF here(1) c1 b(1)])
  moreover have "(off + length new) div BLOCK_SIZE = Suc k"
    using offset_step(2)[OF new'] new k(1) by simp
  ultimately show "written_blocks s bs off new h2 (bs @ [?b])"
    using here(2,4) k(2) by (simp add: written_blocks_def blit_append1)
  have dom2: "dom h2 = insert ?b (dom (blocks s))" using c1 here(3) by (auto simp: h2)
  have old: "h2 x = blocks s x" if "x \<notin> set bs" "x \<noteq> ?b" for x
    using that ne by (auto simp: h2_def last)
  show "reshapes s bs s' (bs @ [?b])" if "calloc_count s' = calloc_count s + 2" "blocks s' = h2"
    using that sub dom2 old b(2) by (auto simp: reshapes_def)
qed

text \<open>The bytes \<open>new\<close> have been written through \<open>idx\<close>, which leads to \<open>s'\<close>.\<close>

definition wrote ::
  "nat \<Rightarrow> addr \<Rightarrow> ufs_file \<Rightarrow> filedesc \<Rightarrow> addr list \<Rightarrow> byte list \<Rightarrow> ufs \<Rightarrow> ufs \<Rightarrow> addr list \<Rightarrow> bool" where
  "wrote idx a f fd bs new s s' bs' \<longleftrightarrow>
     s' = written idx (seek fd bs' (total_offset fd + length new)) a f (blocks s') bs'
       (length bs' - length bs) s \<and>
     layout (blocks s') (f\<lparr>last_block := Some (last bs')\<rparr>) bs' \<and>
     written_blocks s bs (total_offset fd) new (blocks s') bs' \<and>
     reshapes s bs s' bs'"

lemma wroteI:
  assumes "s' = written idx (seek fd bs' (total_offset fd + length new)) a f h' bs' (length bs' - length bs) s"
    "layout h' (f\<lparr>last_block := Some (last bs')\<rparr>) bs'" "written_blocks s bs (total_offset fd) new h' bs'"
    "reshapes s bs (s\<lparr>blocks := h', calloc_count := calloc_count s + 2 * (length bs' - length bs)\<rparr>) bs'"
  shows "wrote idx a f fd bs new s s' bs'"
  using assms by (simp add: wrote_def reshapes_def written_def)

lemma wroteD:
  assumes "wrote idx a f fd bs new s s' bs'"
  obtains h' where
    "s' = written idx (seek fd bs' (total_offset fd + length new)) a f h' bs' (length bs' - length bs) s"
    "blocks s' = h'" "layout h' (f\<lparr>last_block := Some (last bs')\<rparr>) bs'"
    "written_blocks s bs (total_offset fd) new h' bs'" "reshapes s bs s' bs'"
  using assms unfolding wrote_def by blast

lemma ufs_write_chunk_step:
  assumes fd: "get_fd idx s = Some fd" and a: "files s a = Some f" and lay: "layout (blocks s) f bs"
    and step: "in_step fd bs" and fresh: "\<forall>b \<in> dom (blocks s). b < calloc_count s"
    and new: "new \<noteq> []" "total_offset fd mod BLOCK_SIZE + length new \<le> BLOCK_SIZE"
    and mem: "mem_for (2 * ((total_offset fd + length new) div BLOCK_SIZE + 1 - length bs)) s"
  obtains s' bs' where "ufs_write_chunk idx a new s = Some s'" "wrote idx a f fd bs new s s' bs'"
proof -
  let ?off = "total_offset fd" and ?n = "length new"
  let ?k = "?off div BLOCK_SIZE" and ?r = "?off mod BLOCK_SIZE"
  from fd have idx: "idx < length (file_descriptors s)" by simp
  from step have k: "?k < length bs" and cur: "cur_block fd = Some (bs ! ?k)" by (simp_all add: in_step_def)
  from layout_nth[OF lay k] obtain c where c: "blocks s (bs ! ?k) = Some c" "length (memory c) = BLOCK_SIZE"
    "blk_next c = (if Suc ?k < length bs then Some (bs ! Suc ?k) else None)" by blast
  have deref: "deref_block (cur_block fd) s = Some (bs ! ?k, c)" using c(1) cur by simp
  note run = fd deref
  define h1 where "h1 = (blocks s)(bs ! ?k \<mapsto> c\<lparr>memory := blit ?r new (memory c)\<rparr>)"
  note here = chunk_here[OF lay refl k c(1) new(2), folded h1_def]
  have last_id: "f\<lparr>last_block := Some (last bs)\<rparr> = f" using layout_last[OF lay] by simp
  consider (inside) "(?off + ?n) mod BLOCK_SIZE \<noteq> 0" "(?off + ?n) div BLOCK_SIZE = ?k"
    | (next_block) "(?off + ?n) mod BLOCK_SIZE = 0" "(?off + ?n) div BLOCK_SIZE = Suc ?k" "Suc ?k < length bs"
    | (new_block) "(?off + ?n) mod BLOCK_SIZE = 0" "(?off + ?n) div BLOCK_SIZE = Suc ?k" "length bs = Suc ?k" "?r + ?n = BLOCK_SIZE"
  proof (cases "?r + ?n = BLOCK_SIZE")
    case True
    then have "(?off + ?n) mod BLOCK_SIZE = 0" "(?off + ?n) div BLOCK_SIZE = Suc ?k"
      using offset_step[OF new(2)] by simp_all
    moreover have "Suc ?k < length bs \<or> length bs = Suc ?k" using k by auto
    ultimately show thesis using next_block new_block True by metis
  next
    case False
    with offset_step[OF new(2)] new(1) inside show thesis by simp
  qed
  then show thesis
  proof cases
    case inside
    have fd': "fd\<lparr>total_offset := ?off + ?n, cur_block := Some (bs ! ?k)\<rparr> = fd\<lparr>total_offset := ?off + ?n\<rparr>"
      using cur by (cases fd) simp
    have "ufs_write_chunk idx a new s = Some (written idx (seek fd bs (?off + ?n)) a f h1 bs 0 s)"
      using inside run a c(2) new(2)
      by (simp add: fd' ufs_write_chunk_def written_def last_id set_block_def set_fd_def h1_def seek_def Let_def
          fun_upd_idem del: get_fd_Some deref_block_Some)
    moreover have "wrote idx a f fd bs new s (written idx (seek fd bs (?off + ?n)) a f h1 bs 0 s) bs"
    proof (rule wroteI)
      show "reshapes s bs (s\<lparr>blocks := h1, calloc_count := calloc_count s + 2 * (length bs - length bs)\<rparr>) bs"
        by (rule here(6)) simp_all
    qed (use inside k last_id here(1,5) in simp_all)
    ultimately show thesis by (rule that)
  next
    case next_block
    let ?fd = "seek fd bs (?off + ?n)"
    have "ufs_write_chunk idx a new s = Some (written idx ?fd a f h1 bs 0 s)"
      using next_block run a c(2,3) new(2)
      by (simp add: ufs_write_chunk_def written_def last_id set_block_def set_fd_def h1_def seek_def Let_def
          fun_upd_idem del: get_fd_Some deref_block_Some)
    moreover have "wrote idx a f fd bs new s (written idx (seek fd bs (?off + ?n)) a f h1 bs 0 s) bs"
    proof (rule wroteI)
      show "reshapes s bs (s\<lparr>blocks := h1, calloc_count := calloc_count s + 2 * (length bs - length bs)\<rparr>) bs"
        by (rule here(6)) simp_all
    qed (use next_block k last_id here(1,5) in simp_all)
    ultimately show thesis by (rule that)
  next
    case new_block
    let ?b = "calloc_count s"
    let ?s1 = "s\<lparr>blocks := h1, file_descriptors := (file_descriptors s)[idx := Some (fd\<lparr>total_offset := ?off + ?n\<rparr>)]\<rparr>"
    define h2 where "h2 = (blocks s)(bs ! ?k \<mapsto> c\<lparr>memory := blit ?r new (memory c), blk_next := Some ?b\<rparr>,
      ?b \<mapsto> zero_block (Some (bs ! ?k)))"
    note append = chunk_append[OF lay refl new_block(3) c(1) new_block(4) fresh, folded h2_def]
    have c1: "h1 (bs ! ?k) = Some (c\<lparr>memory := blit ?r new (memory c)\<rparr>)" by (simp add: h1_def)
    have mem2: "mem_for 2 ?s1" using mem new_block by (simp add: mem_for_def)
    have add: "ufs_add_block (Some (bs ! ?k)) ?s1 = Some (Some ?b,
        ?s1\<lparr>calloc_count := calloc_count s + 2, blocks := h2\<rparr>)"
      using ufs_add_block_after[OF mem2] c1 by (simp add: h2_def h1_def)
    have "ufs_write_chunk idx a new s =
        Some (written idx (seek fd (bs @ [?b]) (?off + ?n)) a f h2 (bs @ [?b]) 1 s)"
      using new_block(1-3) run a c(2,3) new(2) add[unfolded h1_def]
      by (simp add: ufs_write_chunk_def written_def set_block_def set_fd_def seek_def Let_def nth_append
          upd_file_def set_file_def del: get_fd_Some deref_block_Some)
    moreover have "wrote idx a f fd bs new s
        (written idx (seek fd (bs @ [?b]) (?off + ?n)) a f h2 (bs @ [?b]) 1 s) (bs @ [?b])"
      by (rule wroteI)
        (use append(1,2) in \<open>auto intro!: append(3)\<close>)
    ultimately show thesis by (rule that)
  qed
qed

lemma written_blocks_trans:
  assumes 1: "written_blocks s bs off x (blocks s1) bs1" and 2: "written_blocks s1 bs1 (off + length x) y h2 bs2"
    and full: "blocks_full (blocks s) bs" "blocks_full (blocks s1) bs1"
  shows "written_blocks s bs off (x @ y) h2 bs2"
proof -
  let ?z = "\<lambda>n. replicate (BLOCK_SIZE * n) (0 :: byte)"
  have len1: "length bs1 = max (length bs) ((off + length x) div BLOCK_SIZE + 1)"
    and len2: "length bs2 = max (length bs1) ((off + length x + length y) div BLOCK_SIZE + 1)"
    and bytes1: "bytes (blocks s1) bs1 = blit off x (bytes (blocks s) bs @ ?z (length bs1 - length bs))"
    and bytes2: "bytes h2 bs2 = blit (off + length x) y (bytes (blocks s1) bs1 @ ?z (length bs2 - length bs1))"
    and pre: "take (length bs) bs1 = bs" "take (length bs1) bs2 = bs1"
    using 1 2 by (simp_all add: written_blocks_def)
  have mono: "(off + length x) div BLOCK_SIZE \<le> (off + length x + length y) div BLOCK_SIZE"
    by (intro div_le_mono) simp
  have len: "length bs2 = max (length bs) ((off + length (x @ y)) div BLOCK_SIZE + 1)"
    using mono by (simp add: len1 len2 add.assoc)
  have le: "length bs \<le> length bs1" "length bs1 \<le> length bs2" by (simp_all add: len1 len2)
  have "BLOCK_SIZE * (length bs1 - length bs) + BLOCK_SIZE * (length bs2 - length bs1) =
      BLOCK_SIZE * (length bs2 - length bs)" using le by arith
  then have zs: "?z (length bs1 - length bs) @ ?z (length bs2 - length bs1) = ?z (length bs2 - length bs)"
    by (simp flip: replicate_add)
  have lb: "length (bytes (blocks s) bs) = BLOCK_SIZE * length bs" by (rule length_bytes[OF full(1)])
  have "off + length x \<le> BLOCK_SIZE * length bs1" "off + length x + length y \<le> BLOCK_SIZE * length bs2"
    unfolding len1 len2 by (intro less_imp_le div_less_mult; simp)+
  moreover have "BLOCK_SIZE * length bs + BLOCK_SIZE * (length bs1 - length bs) = BLOCK_SIZE * length bs1"
    "BLOCK_SIZE * length bs + BLOCK_SIZE * (length bs2 - length bs) = BLOCK_SIZE * length bs2"
    using le by arith+
  ultimately have fits: "off + length x \<le> length (bytes (blocks s) bs @ ?z (length bs1 - length bs))"
    "off + length x + length y \<le> length (bytes (blocks s) bs @ ?z (length bs2 - length bs))"
    by (simp_all add: lb)
  have "bytes h2 bs2 = blit (off + length x) y (blit off x (bytes (blocks s) bs @ ?z (length bs2 - length bs)))"
    unfolding bytes2 bytes1 blit_append1[OF fits(1), symmetric] by (simp add: zs)
  also have "\<dots> = blit off (x @ y) (bytes (blocks s) bs @ ?z (length bs2 - length bs))"
    using fits(2) by (rule blit_blit)
  finally have bytes: "bytes h2 bs2 = \<dots>" .
  have "take (length bs) bs2 = take (length bs) (take (length bs1) bs2)" using le by (simp add: min_def)
  then have "take (length bs) bs2 = bs" by (simp add: pre)
  with len bytes show ?thesis by (simp add: written_blocks_def)
qed

lemma wrote_trans:
  assumes 1: "wrote idx a f fd bs x s s1 bs1"
    and 2: "wrote idx a (f\<lparr>last_block := Some (last bs1)\<rparr>) (seek fd bs1 (total_offset fd + length x)) bs1 y s1 s2 bs2"
    and full: "blocks_full (blocks s) bs" and fresh: "\<forall>b \<in> dom (blocks s). b < calloc_count s"
  shows "wrote idx a f fd bs (x @ y) s s2 bs2"
proof -
  from 1 obtain h1 where
    s1: "s1 = written idx (seek fd bs1 (total_offset fd + length x)) a f h1 bs1 (length bs1 - length bs) s"
      "blocks s1 = h1" "layout h1 (f\<lparr>last_block := Some (last bs1)\<rparr>) bs1"
      "written_blocks s bs (total_offset fd) x h1 bs1" "reshapes s bs s1 bs1"
    by (rule wroteD)
  let ?fd = "seek fd bs1 (total_offset fd + length x)" and ?f = "f\<lparr>last_block := Some (last bs1)\<rparr>"
  from 2 obtain h2 where
    s2: "s2 = written idx (seek ?fd bs2 (total_offset ?fd + length y)) a ?f h2 bs2 (length bs2 - length bs1) s1"
      "blocks s2 = h2" "layout h2 (?f\<lparr>last_block := Some (last bs2)\<rparr>) bs2"
      "written_blocks s1 bs1 (total_offset ?fd) y h2 bs2" "reshapes s1 bs1 s2 bs2"
    by (rule wroteD)
  have le: "length bs \<le> length bs1" "length bs1 \<le> length bs2"
    using s1(4) s2(4) by (simp_all add: written_blocks_def)
  have "s2 = written idx (seek fd bs2 (total_offset fd + length (x @ y))) a f h2 bs2 (length bs2 - length bs) s"
    unfolding s2(1) s1(1) using le by (simp add: written_def add.assoc)
  moreover have "written_blocks s bs (total_offset fd) (x @ y) h2 bs2"
    using s1(4) s2(4) full layoutD(2)[OF s1(3)] unfolding s1(2)[symmetric]
    by (intro written_blocks_trans[of s bs _ x s1 bs1]) simp_all
  moreover have "reshapes s bs s2 bs2" by (rule reshapes_trans[OF s1(5) s2(5) fresh])
  ultimately show ?thesis using s2(2,3) by (simp add: wrote_def)
qed

text \<open>With memory for the missing blocks the whole loop runs and writes the whole buffer.\<close>

lemma mem_for_mono: "mem_for m s \<Longrightarrow> n \<le> m \<Longrightarrow> mem_for n s"
  by (simp add: mem_for_def)

lemma mem_for_shift:
  "mem_for (m + n) s \<Longrightarrow> calloc_count s' = calloc_count s + m \<Longrightarrow> calloc_ok s' = calloc_ok s \<Longrightarrow> mem_for n s'"
  by (simp add: mem_for_def) (metis add.assoc nat_add_left_cancel_less)

lemma max_split_le:
  "q \<le> p \<Longrightarrow> 2 * (max l (q + 1) - l) + 2 * (p + 1 - max l (q + 1)) \<le> 2 * (p + 1 - l)" for l p q :: nat
  by linarith

lemma ufs_write_loop_step:
  assumes fd: "get_fd idx s = Some fd" and a: "files s a = Some f" and lay: "layout (blocks s) f bs"
    and step: "in_step fd bs" and fresh: "\<forall>b \<in> dom (blocks s). b < calloc_count s"
    and mem: "mem_for (2 * ((total_offset fd + length buf) div BLOCK_SIZE + 1 - length bs)) s"
  obtains s' bs' where "ufs_write_loop idx a buf s = Some s'" "wrote idx a f fd bs buf s s' bs'"
proof -
  have "\<exists>s' bs'. ufs_write_loop idx a buf s = Some s' \<and> wrote idx a f fd bs buf s s' bs'"
    using assms
  proof (induction "length buf" arbitrary: buf s fd f bs rule: less_induct)
    case less
    show ?case
    proof (cases "buf = []")
      case True
      have "f\<lparr>last_block := Some (last bs)\<rparr> = f" using layout_last[OF less.prems(3)] by simp
      moreover have "(file_descriptors s)[idx := Some fd] = file_descriptors s"
        using less.prems(1) by (metis get_fd_Some list_update_id)
      ultimately have "wrote idx a f fd bs [] s s bs"
        using less.prems(1-4) layoutD(2)[OF less.prems(3)]
        by (intro wroteI[where h' = "blocks s"])
          (auto simp: seek_self written_def written_blocks_def in_step_def fun_upd_idem
            blocks_full_def intro!: reshapes_refl)
      then show ?thesis using True by (auto simp: ufs_write_loop.simps)
    next
      case False
      let ?n = "to_write fd (length buf)" and ?off = "total_offset fd"
      have n: "0 < ?n" "?n \<le> length buf" "?off mod BLOCK_SIZE + ?n \<le> BLOCK_SIZE"
        using False by (auto simp: to_write_def Let_def)
      then have new: "take ?n buf \<noteq> []" "?off mod BLOCK_SIZE + length (take ?n buf) \<le> BLOCK_SIZE"
        by auto
      have le: "(?off + ?n) div BLOCK_SIZE \<le> (?off + length buf) div BLOCK_SIZE"
        using n(2) by (intro div_le_mono) simp
      have "mem_for (2 * ((?off + length (take ?n buf)) div BLOCK_SIZE + 1 - length bs)) s"
        using n(2) le by (intro mem_for_mono[OF less.prems(6)]) simp
      from ufs_write_chunk_step[OF less.prems(1-5) new this] obtain s1 bs1 where
        run: "ufs_write_chunk idx a (take ?n buf) s = Some s1" and w: "wrote idx a f fd bs (take ?n buf) s s1 bs1"
        by blast
      from w obtain h1 where
        s1: "s1 = written idx (seek fd bs1 (?off + length (take ?n buf))) a f h1 bs1 (length bs1 - length bs) s"
          "blocks s1 = h1" "layout h1 (f\<lparr>last_block := Some (last bs1)\<rparr>) bs1"
          "written_blocks s bs ?off (take ?n buf) h1 bs1" "reshapes s bs s1 bs1"
        by (rule wroteD)
      let ?fd = "seek fd bs1 (?off + length (take ?n buf))"
      have len1: "length bs1 = max (length bs) ((?off + ?n) div BLOCK_SIZE + 1)"
        using s1(4) n(2) by (simp add: written_blocks_def min_def)
      have need: "2 * (length bs1 - length bs) + 2 * ((?off + length buf) div BLOCK_SIZE + 1 - length bs1) \<le>
          2 * ((?off + length buf) div BLOCK_SIZE + 1 - length bs)" unfolding len1 by (rule max_split_le[OF le])
      have "\<exists>s' bs'. ufs_write_loop idx a (drop ?n buf) s1 = Some s' \<and>
          wrote idx a (f\<lparr>last_block := Some (last bs1)\<rparr>) ?fd bs1 (drop ?n buf) s1 s' bs'"
      proof (rule less.hyps)
        show "length (drop ?n buf) < length buf" using n False by simp
        show "get_fd idx s1 = Some ?fd" using less.prems(1) by (simp add: s1(1) written_def)
        show "files s1 a = Some (f\<lparr>last_block := Some (last bs1)\<rparr>)" by (simp add: s1(1) written_def)
        show "layout (blocks s1) (f\<lparr>last_block := Some (last bs1)\<rparr>) bs1" using s1(2,3) by simp
        show "in_step ?fd bs1" using n(2) by (simp add: len1 min_def less_max_iff_disj)
        show "\<forall>b \<in> dom (blocks s1). b < calloc_count s1"
          using layoutD(2)[OF less.prems(3)]
          by (intro reshapes_fresh[OF s1(5) _ less.prems(5)]) (auto simp: blocks_full_def)
        show "mem_for (2 * ((total_offset ?fd + length (drop ?n buf)) div BLOCK_SIZE + 1 - length bs1)) s1"
          by (rule mem_for_shift[of "2 * (length bs1 - length bs)"], rule mem_for_mono[OF less.prems(6)])
            (use n(2) need in \<open>simp_all add: s1(1) written_def add.assoc\<close>)
      qed
      then obtain s2 bs2 where loop: "ufs_write_loop idx a (drop ?n buf) s1 = Some s2"
        and w2: "wrote idx a (f\<lparr>last_block := Some (last bs1)\<rparr>) ?fd bs1 (drop ?n buf) s1 s2 bs2" by blast
      from wrote_trans[OF w w2 layoutD(2)[OF less.prems(3)] less.prems(5)]
      have "wrote idx a f fd bs buf s s2 bs2" by simp
      moreover have "ufs_write_loop idx a buf s = Some s2"
        using False less.prems(1) run loop by (simp add: ufs_write_loop.simps[of idx a buf] del: get_fd_Some)
      ultimately show ?thesis by blast
    qed
  qed
  with that show thesis by blast
qed

definition ufs_write :: "int \<Rightarrow> byte list \<Rightarrow> ufs \<Rightarrow> (int \<times> ufs) option" where
  "ufs_write fdN buf s = do {
     let idx = fdN - 1;
     let sz = length buf;
     valid \<leftarrow> ufs_check_valid_fd_idx idx s;
     if \<not> valid then Some (RETVAL_FAILURE, set_err UFS_ERR_NO_FILE s)
     else do {
       fd \<leftarrow> get_fd (nat idx) s;
       if \<not> write_allowed fd then Some (RETVAL_FAILURE, set_err UFS_ERR_NO_PERMISSION s)
       else if (total_offset fd + sz) mod SIZE_T > MAX_FILE_SIZE
       then Some (RETVAL_FAILURE, set_err UFS_ERR_NO_MEM s)
       else do {
         s \<leftarrow> ufs_write_loop (nat idx) (fd_file fd) buf s;
         fd \<leftarrow> get_fd (nat idx) s;
         f \<leftarrow> files s (fd_file fd);
         let s = (if total_offset fd > total_size f
                  then set_file (fd_file fd) (f\<lparr>total_size := total_offset fd\<rparr>) s else s);
         Some (int sz, s)
       }
     }
   }"

text \<open>The guards of \<open>ufs_write\<close>.\<close>

lemma ufs_write_errors:
  assumes "fds_wf s B"
  shows "\<not> (0 < fdN \<and> get_fd (nat (fdN - 1)) s \<noteq> None) \<Longrightarrow>
      ufs_write fdN buf s = Some (RETVAL_FAILURE, set_err UFS_ERR_NO_FILE s)"
    and "0 < fdN \<Longrightarrow> get_fd (nat (fdN - 1)) s = Some fd \<Longrightarrow> \<not> write_allowed fd \<Longrightarrow>
      ufs_write fdN buf s = Some (RETVAL_FAILURE, set_err UFS_ERR_NO_PERMISSION s)"
    and "0 < fdN \<Longrightarrow> get_fd (nat (fdN - 1)) s = Some fd \<Longrightarrow> write_allowed fd \<Longrightarrow>
      MAX_FILE_SIZE < total_offset fd + length buf \<Longrightarrow> total_offset fd + length buf < SIZE_T \<Longrightarrow>
      ufs_write fdN buf s = Some (RETVAL_FAILURE, set_err UFS_ERR_NO_MEM s)"
  by (auto simp: ufs_write_def Let_def check_valid_wf[OF assms] simp del: get_fd_Some)

text \<open>What a write leaves: only the file, its blocks and the descriptor change.\<close>

definition write_post ::
  "ufs \<Rightarrow> addr list \<Rightarrow> (addr \<Rightarrow> addr list) \<Rightarrow> nat \<Rightarrow> filedesc \<Rightarrow> ufs_file \<Rightarrow> byte list \<Rightarrow> ufs \<Rightarrow> addr list \<Rightarrow> bool" where
  "write_post s fs B idx fd f buf s' bs' \<longleftrightarrow>
     (let a = fd_file fd; off = total_offset fd + length buf;
        f' = f\<lparr>last_block := Some (last bs'), total_size := max (total_size f) off\<rparr> in
      ufs_wf s' fs (B(a := bs')) \<and> files s' = (files s)(a \<mapsto> f') \<and>
      contents (blocks s') f' bs' = blit (total_offset fd) buf (contents (blocks s) f (B a)) \<and>
      (\<forall>j. get_fd j s' = (if j = idx then Some (seek fd bs' off) else get_fd j s)) \<and>
      (\<forall>x \<in> set fs. x \<noteq> a \<longrightarrow> (\<forall>b \<in> set (B x). blocks s' b = blocks s b)) \<and>
      ufs_error_code s' = ufs_error_code s \<and> calloc_ok s' = calloc_ok s)"

text \<open>A write within the size limit, with memory for the blocks it adds.\<close>

lemma ufs_write_wf:
  assumes wf: "ufs_wf s fs B" and fd: "get_fd idx s = Some fd" and a: "files s (fd_file fd) = Some f"
    and w: "write_allowed fd" and max: "total_offset fd + length buf \<le> MAX_FILE_SIZE"
    and mem: "mem_for (2 * ((total_offset fd + length buf) div BLOCK_SIZE - total_size f div BLOCK_SIZE)) s"
  obtains s' bs' where
    "ufs_write (int idx + 1) buf s = Some (int (length buf), s')" "write_post s fs B idx fd f buf s' bs'"
proof -
  let ?a = "fd_file fd" and ?off = "total_offset fd" and ?n = "length buf"
  from wf have fwf: "files_wf s fs B" and dwf: "fds_wf s B" by (simp_all add: ufs_wf_def)
  note D = files_wfD[OF fwf]
  from fds_wf_get[OF dwf fd] a have off: "?off \<le> total_size f" and cur: "cur_block fd = Some (B ?a ! (?off div BLOCK_SIZE))"
    by (auto simp: fd_ok_def)
  have len: "length (B ?a) = total_size f div BLOCK_SIZE + 1" using D(4)[OF a] by (simp add: size_ok_def)
  have in_step: "in_step fd (B ?a)" using off cur by (simp add: in_step_def len less_Suc_eq_le div_le_mono)
  have fresh: "\<forall>b \<in> dom (blocks s). b < calloc_count s" using D(8) by blast
  have "mem_for (2 * ((?off + ?n) div BLOCK_SIZE + 1 - length (B ?a))) s" using mem by (simp add: len)
  from ufs_write_loop_step[OF fd a D(3)[OF a] in_step fresh this] obtain s1 bs' where
    loop: "ufs_write_loop idx ?a buf s = Some s1" and wr: "wrote idx ?a f fd (B ?a) buf s s1 bs'" by blast
  let ?fd = "seek fd bs' (?off + ?n)" and ?m = "max (total_size f) (?off + ?n)"
  from wr obtain h' where s1: "s1 = written idx ?fd ?a f h' bs' (length bs' - length (B ?a)) s"
    "blocks s1 = h'" "layout h' (f\<lparr>last_block := Some (last bs')\<rparr>) bs'"
    "written_blocks s (B ?a) ?off buf h' bs'" "reshapes s (B ?a) s1 bs'" by (rule wroteD)
  define f' where "f' = f\<lparr>last_block := Some (last bs'), total_size := ?m\<rparr>"
  define s' where "s' = s1\<lparr>files := (files s)(?a \<mapsto> f')\<rparr>"
  have fd1: "get_fd idx s1 = Some ?fd" using fd by (simp add: s1(1) written_def)
  have f1: "files s1 ?a = Some (f\<lparr>last_block := Some (last bs')\<rparr>)" by (simp add: s1(1) written_def)
  have files1: "files s1 = (files s)(?a \<mapsto> f\<lparr>last_block := Some (last bs')\<rparr>)" by (simp add: s1(1) written_def)
  have "(if total_size f < ?off + ?n then set_file ?a (f\<lparr>last_block := Some (last bs'), total_size := ?off + ?n\<rparr>) s1 else s1) = s'"
    unfolding s'_def f'_def set_file_def by (rule ufs.equality) (simp_all add: files1 max_def)
  then have run: "ufs_write (int idx + 1) buf s = Some (int ?n, s')"
    using fd a w max loop fd1 f1
    by (simp add: ufs_write_def check_valid_wf[OF dwf] Let_def split: if_splits del: get_fd_Some)
  have len': "length bs' = ?m div BLOCK_SIZE + 1"
    using s1(4) len by (simp add: written_blocks_def max_div)
  have pre: "bs' ! k = B ?a ! k" if "k < length (B ?a)" for k
    using s1(4) that unfolding written_blocks_def by (metis nth_take)
  have fwf': "files_wf s' fs (B(?a := bs'))"
  proof (rule files_wf_update[OF fwf a])
    show "reshapes s (B ?a) s' bs'" using s1(5) by (simp add: reshapes_def s'_def)
    show "layout (blocks s') f' bs'" using s1(2,3) by (simp add: s'_def f'_def layout_def)
    show "size_ok f' bs'" using len' D(4)[OF a] max by (simp add: size_ok_def f'_def)
  qed (simp_all add: s'_def s1(1) written_def f'_def)
  have dwf': "fds_wf s' (B(?a := bs'))"
  proof (rule fds_wf_update[OF dwf])
    show "map (map_option fd_file) (file_descriptors s') = map (map_option fd_file) (file_descriptors s)"
      using fd by (simp add: s'_def s1(1) written_def map_update list_update_id)
        (metis list_update_id map_update option.simps(9))
    show "\<exists>f. files s x = Some f \<and> refs g = refs f \<and> marked_for_deletion g = marked_for_deletion f"
      if "files s' x = Some g" for x g using that a by (auto simp: s'_def f'_def split: if_splits)
    fix d assume "Some d \<in> set (file_descriptors s')"
    then have "d = ?fd \<or> Some d \<in> set (file_descriptors s)"
      using set_update_subset_insert[of "file_descriptors s" idx "Some ?fd"] by (auto simp: s'_def s1(1) written_def)
    then show "fd_ok s' (B(?a := bs')) d"
    proof
      assume "Some d \<in> set (file_descriptors s)"
      with fds_wfD(4)[OF dwf] obtain g where g: "files s (fd_file d) = Some g" "total_offset d \<le> total_size g"
        "cur_block d = Some (B (fd_file d) ! (total_offset d div BLOCK_SIZE))" by (auto simp: fd_ok_def)
      have "total_offset d div BLOCK_SIZE < length (B ?a)" if "fd_file d = ?a"
        using g that a by (simp add: len less_Suc_eq_le div_le_mono)
      with g a pre show ?thesis by (auto simp: fd_ok_def s'_def f'_def)
    qed (simp add: fd_ok_def s'_def f'_def)
  qed (simp_all add: s'_def s1(1) written_def)
  have "contents h' f' bs' = blit ?off buf (contents (blocks s) f (B ?a))"
    using s1(4) size_ok_fits[OF D(3)[OF a] D(4)[OF a]] off by (simp add: contents_def f'_def written_blocks_def take_blit)
  moreover have "blocks s' b = blocks s b" if "x \<in> set fs" "x \<noteq> ?a" "b \<in> set (B x)" for x b
  proof -
    have "?a \<in> set fs" using D(2) a by auto
    then have "b \<notin> set (B ?a)" using D(5)[of x ?a] that by auto
    moreover have "b < calloc_count s" using D(6) fresh that by auto
    ultimately have "b \<notin> set bs'" "b \<notin> set (B ?a)" using s1(5) by (auto simp: reshapes_def)
    then show ?thesis using s1(5) by (simp add: reshapes_def s'_def)
  qed
  moreover have "get_fd j s' = (if j = idx then Some ?fd else get_fd j s)" for j
    using fd by (auto simp: s'_def s1(1) written_def get_fd_def fd_slot_def slot_def)
  moreover have "files s' = (files s)(?a \<mapsto> f')" "blocks s' = h'" "ufs_error_code s' = ufs_error_code s"
    "calloc_ok s' = calloc_ok s" by (simp_all add: s'_def s1(1) written_def)
  ultimately show thesis using run fwf' dwf'
    by (intro that[of s' bs']) (simp_all add: write_post_def Let_def ufs_wf_def f'_def)
qed

subsection \<open>Read\<close>

definition to_read :: "filedesc \<Rightarrow> nat \<Rightarrow> nat \<Rightarrow> nat" where
  "to_read fd tsize size_remaining =
    (let fd_offset_in_block = total_offset fd mod BLOCK_SIZE;
         remaining_in_block = BLOCK_SIZE - fd_offset_in_block;
         unread_from_file = tsize - total_offset fd;
         n = (if unread_from_file < remaining_in_block then unread_from_file
              else remaining_in_block)
     in if n > size_remaining then size_remaining else n)"

lemma to_read_pos [simp]: "0 < n \<Longrightarrow> total_offset fd < tsize \<Longrightarrow> 0 < to_read fd tsize n"
  by (simp add: to_read_def Let_def)

lemma to_read_bounds:
  "to_read fd tsize n \<le> n" "to_read fd tsize n \<le> tsize - total_offset fd"
  "to_read fd tsize n \<le> BLOCK_SIZE - total_offset fd mod BLOCK_SIZE"
  by (auto simp: to_read_def Let_def)

text \<open>
  The loop leaves a full last block without stepping to its successor: the end-of-file test
  comes first.
\<close>

function ufs_read_loop :: "nat \<Rightarrow> nat \<Rightarrow> ufs \<Rightarrow> (byte list \<times> ufs) option" where
  "ufs_read_loop idx size_remaining s = do {
     fd \<leftarrow> get_fd idx s;
     f \<leftarrow> files s (fd_file fd);
     if \<not> (size_remaining > 0 \<and> total_offset fd < total_size f) then Some ([], s)
     else do {
       (cur, cb) \<leftarrow> deref_block (cur_block fd) s;
       let fd_offset_in_block = total_offset fd mod BLOCK_SIZE;
       let n = to_read fd (total_size f) size_remaining;
       ensure (n \<le> BLOCK_SIZE \<and> n \<le> BLOCK_SIZE - fd_offset_in_block);
       ensure (fd_offset_in_block + n \<le> length (memory cb));
       let out = take n (drop fd_offset_in_block (memory cb));
       let fd = fd\<lparr>total_offset := total_offset fd + n\<rparr>;
       let s = set_fd idx (Some fd) s;
       if total_offset fd \<ge> total_size f then Some (out, s)
       else if total_offset fd mod BLOCK_SIZE \<noteq> 0 then Some (out, s)
       else
         (case blk_next cb of
            None \<Rightarrow> Some (out, s)
          | Some nb \<Rightarrow> do {
              (rest, s) \<leftarrow> ufs_read_loop idx (size_remaining - n)
                (set_fd idx (Some (fd\<lparr>cur_block := Some nb\<rparr>)) s);
              Some (out @ rest, s)
            })
     }
   }"
  by pat_completeness auto
termination
  by (relation "measure (\<lambda>(i, n, s). n)") (simp_all add: to_read_pos)

declare ufs_read_loop.simps [simp del]

definition ufs_read :: "int \<Rightarrow> nat \<Rightarrow> ufs \<Rightarrow> (int \<times> byte list \<times> ufs) option" where
  "ufs_read fdN sz s = do {
     let idx = fdN - 1;
     valid \<leftarrow> ufs_check_valid_fd_idx idx s;
     if \<not> valid then Some (RETVAL_FAILURE, [], set_err UFS_ERR_NO_FILE s)
     else do {
       fd \<leftarrow> get_fd (nat idx) s;
       f \<leftarrow> files s (fd_file fd);
       if \<not> read_allowed fd then Some (RETVAL_FAILURE, [], set_err UFS_ERR_NO_PERMISSION s)
       else if total_offset fd \<ge> total_size f then Some (RETVAL_EOF, [], s)
       else do {
         (out, s) \<leftarrow> ufs_read_loop (nat idx) sz s;
         ensure (length out \<le> sz);
         Some (int (length out), out, s)
       }
     }
   }"

text \<open>
  Where a read of \<open>n\<close> bytes leaves the descriptor.  At the end of the file the current block is
  the one of the last byte read, which is not the one of the new offset when the file ends with a
  full block.
\<close>

definition read_fd :: "filedesc \<Rightarrow> addr list \<Rightarrow> nat \<Rightarrow> nat \<Rightarrow> filedesc" where
  "read_fd fd bs tsize n =
    (if n = 0 \<or> tsize \<le> total_offset fd then fd
     else let off = min (total_offset fd + n) tsize in
       fd\<lparr>total_offset := off, cur_block := Some (bs ! ((if off < tsize then off else off - 1) div BLOCK_SIZE))\<rparr>)"

text \<open>One round of the loop reads \<open>m\<close> bytes.\<close>

lemma to_read_cases:
  fixes fd n tsize
  defines "m \<equiv> to_read fd tsize n" and "off \<equiv> total_offset fd"
  assumes "0 < n" "off < tsize"
  obtains (eof) "off + m = tsize" "m \<le> n" "(tsize - 1) div BLOCK_SIZE = off div BLOCK_SIZE"
  | (inside) "m = n" "off + n < tsize" "(off + n) mod BLOCK_SIZE \<noteq> 0" "(off + n) div BLOCK_SIZE = off div BLOCK_SIZE"
  | (next_block) "m \<le> n" "off + m < tsize" "(off + m) mod BLOCK_SIZE = 0" "(off + m) div BLOCK_SIZE = Suc (off div BLOCK_SIZE)"
proof -
  let ?r = "off mod BLOCK_SIZE"
  have r: "?r < BLOCK_SIZE" by simp
  have pos: "0 < m" using assms by simp
  have m: "m \<le> n" "m \<le> tsize - off" "m \<le> BLOCK_SIZE - ?r"
    using to_read_bounds[of fd tsize n] by (simp_all add: m_def off_def)
  then have fit: "?r + m \<le> BLOCK_SIZE" "?r + (m - 1) < BLOCK_SIZE" using r pos by linarith+
  note step = offset_step[OF fit(1)]
  show thesis
  proof (cases "off + m = tsize")
    case True
    have "(off + (m - 1)) div BLOCK_SIZE = off div BLOCK_SIZE"
      using offset_step(2)[of off BLOCK_SIZE "m - 1"] fit(2) by simp
    then show thesis using True m(1) pos by (intro eof) auto
  next
    case False
    then have lt: "off + m < tsize" using m(2) assms by linarith
    show thesis
    proof (cases "?r + m = BLOCK_SIZE")
      case True
      with step lt m(1) show thesis by (intro next_block) simp_all
    next
      case less: False
      have "m = n" using lt less r by (auto simp: m_def to_read_def off_def Let_def split: if_splits)
      with step lt less pos show thesis by (intro inside) auto
    qed
  qed
qed

lemma ufs_read_loop_step:
  assumes "get_fd idx s = Some fd" "files s (fd_file fd) = Some f" "layout (blocks s) f bs"
    "size_ok f bs" "in_step fd bs"
  shows "ufs_read_loop idx n s = Some (take n (drop (total_offset fd) (contents (blocks s) f bs)),
    set_fd idx (Some (read_fd fd bs (total_size f) n)) s)"
  using assms
proof (induction n arbitrary: s fd rule: less_induct)
  case (less n)
  let ?off = "total_offset fd" and ?sz = "total_size f" and ?c = "contents (blocks s) f bs"
  note run = ufs_read_loop.simps[of idx n s]
  have idx: "idx < length (file_descriptors s)" using less.prems(1) by simp
  have clen: "length ?c = ?sz" using less.prems(3,4) by (rule length_contents)
  show ?case
  proof (cases "0 < n \<and> ?off < ?sz")
    case False
    have "set_fd idx (Some fd) s = s" by (rule set_fd_same[OF less.prems(1)])
    moreover have "read_fd fd bs ?sz n = fd" "take n (drop ?off ?c) = []"
      using False clen by (auto simp: read_fd_def)
    moreover have "ufs_read_loop idx n s = Some ([], s)"
      unfolding run using less.prems(1,2) False by (simp del: get_fd_Some)
    ultimately show ?thesis by simp
  next
    case True
    let ?m = "to_read fd ?sz n" and ?k = "?off div BLOCK_SIZE" and ?r = "?off mod BLOCK_SIZE"
    have k: "?k < length bs" and cur: "cur_block fd = Some (bs ! ?k)" using less.prems(5) by (simp_all add: in_step_def)
    from layout_nth[OF less.prems(3) k] obtain c where c: "blocks s (bs ! ?k) = Some c" "length (memory c) = BLOCK_SIZE"
      "blk_next c = (if Suc ?k < length bs then Some (bs ! Suc ?k) else None)" by blast
    have deref: "deref_block (cur_block fd) s = Some (bs ! ?k, c)" using c(1) cur by simp
    have cur_same: "fd\<lparr>total_offset := x, cur_block := Some (bs ! ?k)\<rparr> = fd\<lparr>total_offset := x\<rparr>" for x
      using cur by (cases fd) simp
    have m: "?r + ?m \<le> BLOCK_SIZE" "?m \<le> BLOCK_SIZE" "?off + ?m \<le> ?sz" "0 < ?m" "?m \<le> BLOCK_SIZE - ?r"
      using to_read_bounds[of fd ?sz n] True by auto
    have out: "take ?m (drop ?r (memory c)) = take ?m (drop ?off ?c)"
      using bytes_read[OF less.prems(3) k c(1) m(1)] m(3) by (simp add: contents_def drop_take min_def)
    note exec = run less.prems(1,2) deref c(2,3) True m(1,2,5) out Let_def
    from True have n: "0 < n" and off: "?off < ?sz" by simp_all
    show ?thesis
    proof (cases rule: to_read_cases[OF n off])
      case eof: 1
      then have "take n (drop ?off ?c) = take ?m (drop ?off ?c)" using clen by simp
      moreover have "read_fd fd bs ?sz n = fd\<lparr>total_offset := ?off + ?m\<rparr>"
        using eof(1,3) True cur_same min_absorb2[of ?sz "?off + n"] eof(2) by (simp add: read_fd_def Let_def)
      ultimately show ?thesis using eof by (simp add: exec del: get_fd_Some deref_block_Some)
    next
      case inside: 2
      have "read_fd fd bs ?sz n = fd\<lparr>total_offset := ?off + n\<rparr>"
        using inside(2,4) True cur_same min_absorb1[of "?off + n" ?sz] by (simp add: read_fd_def Let_def)
      then show ?thesis using inside m(1,2,5) out by (simp add: exec del: get_fd_Some deref_block_Some)
    next
      case next_block: 3
      let ?fd = "seek fd bs (?off + ?m)" and ?s = "set_fd idx (Some (seek fd bs (?off + ?m))) s"
      have more: "Suc ?k < length bs"
        using next_block less.prems(4) div_le_mono[of "?off + ?m" ?sz BLOCK_SIZE] by (simp add: size_ok_def)
      have "ufs_read_loop idx (n - ?m) ?s = Some (take (n - ?m) (drop (total_offset ?fd) (contents (blocks ?s) f bs)),
          set_fd idx (Some (read_fd ?fd bs ?sz (n - ?m))) ?s)"
        by (rule less.IH) (use next_block more m n idx less.prems in \<open>simp_all add: set_fd_def\<close>)
      then have rest: "ufs_read_loop idx (n - ?m) ?s = Some (take (n - ?m) (drop (?off + ?m) ?c),
          set_fd idx (Some (read_fd ?fd bs ?sz (n - ?m))) s)"
        by (simp add: set_fd_def)
      have "read_fd ?fd bs ?sz (n - ?m) = read_fd fd bs ?sz n"
        using next_block n off by (auto simp: read_fd_def Let_def seek_def)
      moreover have "take ?m (drop ?off ?c) @ take (n - ?m) (drop (?off + ?m) ?c) = take n (drop ?off ?c)"
        using next_block(1) take_add[of ?m "n - ?m" "drop ?off ?c"] by (simp add: add.commute)
      moreover have "set_fd idx (Some (fd\<lparr>total_offset := ?off + ?m, cur_block := Some (bs ! Suc ?k)\<rparr>))
          (set_fd idx x s) = ?s" for x using next_block(4) by (simp add: set_fd_def seek_def)
      moreover have "blk_next c = Some (bs ! Suc ?k)" using c(3) more by simp
      moreover have "(?sz \<le> ?off + ?m) = False" using next_block(2) by simp
      ultimately show ?thesis using next_block(3) rest
        by (simp add: run less.prems(1,2) deref c(2) True m(1,2,5) out Let_def del: get_fd_Some deref_block_Some)
    qed
  qed
qed

lemma ufs_read_errors:
  assumes "fds_wf s B"
  shows "\<not> (0 < fdN \<and> get_fd (nat (fdN - 1)) s \<noteq> None) \<Longrightarrow>
      ufs_read fdN n s = Some (RETVAL_FAILURE, [], set_err UFS_ERR_NO_FILE s)"
    and "0 < fdN \<Longrightarrow> get_fd (nat (fdN - 1)) s = Some fd \<Longrightarrow> files s (fd_file fd) = Some f \<Longrightarrow>
      \<not> read_allowed fd \<Longrightarrow> ufs_read fdN n s = Some (RETVAL_FAILURE, [], set_err UFS_ERR_NO_PERMISSION s)"
  by (auto simp: ufs_read_def Let_def check_valid_wf[OF assms] simp del: get_fd_Some)

lemma fd_ok_step:
  assumes "files_wf s fs B" "fd_ok s B fd" "files s (fd_file fd) = Some f"
  shows "in_step fd (B (fd_file fd))"
  using assms(2,3) files_wfD(4)[OF assms(1,3)]
  by (auto simp: fd_ok_def in_step_def size_ok_def less_Suc_eq_le div_le_mono)

text \<open>A read through any descriptor returns the bytes at its offset.\<close>

lemma ufs_read_step:
  fixes n
  assumes wf: "ufs_wf s fs B" and fd: "get_fd idx s = Some fd" and a: "files s (fd_file fd) = Some f"
    and r: "read_allowed fd"
  defines "out \<equiv> take n (drop (total_offset fd) (contents (blocks s) f (B (fd_file fd))))"
  shows "ufs_read (int idx + 1) n s = Some (int (length out), out,
    set_fd idx (Some (read_fd fd (B (fd_file fd)) (total_size f) n)) s)"
proof -
  from wf have fwf: "files_wf s fs B" and dwf: "fds_wf s B" by (simp_all add: ufs_wf_def)
  note D = files_wfD(3)[OF fwf a] files_wfD(4)[OF fwf a] and ok = fds_wf_get[OF dwf fd]
  have loop: "ufs_read_loop idx n s = Some (out,
      set_fd idx (Some (read_fd fd (B (fd_file fd)) (total_size f) n)) s)"
    unfolding out_def using fd a D fd_ok_step[OF fwf ok a] by (rule ufs_read_loop_step)
  have "length out \<le> n" by (simp add: out_def)
  show ?thesis
  proof (cases "total_size f \<le> total_offset fd")
    case True
    then have "out = []" "read_fd fd (B (fd_file fd)) (total_size f) n = fd"
      using length_contents[OF D] by (simp_all add: out_def read_fd_def)
    with True fd a r show ?thesis
      by (simp add: ufs_read_def check_valid_wf[OF dwf] set_fd_same del: get_fd_Some)
  next
    case False
    with fd a r loop \<open>length out \<le> n\<close> show ?thesis
      by (simp add: ufs_read_def check_valid_wf[OF dwf] del: get_fd_Some)
  qed
qed

text \<open>
  The reads that leave the descriptor out of step: those that reach the end of a file whose last
  block is full.
\<close>

definition ends_on_full_block :: "filedesc \<Rightarrow> ufs_file \<Rightarrow> nat \<Rightarrow> bool" where
  "ends_on_full_block fd f n \<longleftrightarrow> 0 < n \<and> total_offset fd < total_size f \<and>
     total_size f \<le> total_offset fd + n \<and> total_size f mod BLOCK_SIZE = 0"

lemma read_fd_seek:
  assumes "in_step fd bs" "\<not> ends_on_full_block fd f n" "total_offset fd \<le> total_size f"
  shows "read_fd fd bs (total_size f) n = seek fd bs (min (total_offset fd + n) (total_size f))"
proof (cases "n = 0 \<or> total_size f \<le> total_offset fd")
  case True
  with assms show ?thesis by (auto simp: read_fd_def seek_self)
next
  case False
  let ?off = "min (total_offset fd + n) (total_size f)"
  have "(?off - 1) div BLOCK_SIZE = ?off div BLOCK_SIZE" if "\<not> ?off < total_size f"
  proof -
    from that False have "?off = total_size f" "total_size f mod BLOCK_SIZE \<noteq> 0"
      using assms(2) by (auto simp: ends_on_full_block_def)
    then show ?thesis using div_pred[of ?off BLOCK_SIZE] by simp
  qed
  with False show ?thesis by (simp add: read_fd_def seek_def Let_def)
qed

lemma fd_ok_seek:
  assumes "files_wf s fs B" "files s (fd_file fd) = Some f" "off \<le> total_size f"
  shows "fd_ok s B (seek fd (B (fd_file fd)) off)"
  using assms by (simp add: fd_ok_def)

text \<open>Any other read keeps the invariant, and is a seek.\<close>

lemma ufs_read_wf:
  assumes wf: "ufs_wf s fs B" and fd: "get_fd idx s = Some fd" and a: "files s (fd_file fd) = Some f"
    and n: "\<not> ends_on_full_block fd f n"
  defines "off \<equiv> min (total_offset fd + n) (total_size f)"
  shows "read_fd fd (B (fd_file fd)) (total_size f) n = seek fd (B (fd_file fd)) off"
    and "ufs_wf (set_fd idx (Some (seek fd (B (fd_file fd)) off)) s) fs B"
proof -
  from wf have fwf: "files_wf s fs B" and dwf: "fds_wf s B" by (simp_all add: ufs_wf_def)
  note ok = fds_wf_get[OF dwf fd]
  from ok a have "total_offset fd \<le> total_size f" by (auto simp: fd_ok_def)
  with fd_ok_step[OF fwf ok a] n show "read_fd fd (B (fd_file fd)) (total_size f) n = seek fd (B (fd_file fd)) off"
    unfolding off_def by (intro read_fd_seek)
  show "ufs_wf (set_fd idx (Some (seek fd (B (fd_file fd)) off)) s) fs B"
    using wf fd fd_ok_seek[OF fwf a] by (rule ufs_wf_set_fd) (simp_all add: off_def)
qed

end
