(* ===== verification/Ufs_Resize.thy ===== *)
theory Ufs_Resize imports Ufs_Io begin

text \<open>
  Resizing: \<open>ufs_extend_file\<close>, \<open>ufs_reduce_file\<close> and \<open>ufs_resize\<close> of
  Assignment_3/userfs.c.
\<close>

definition to_extend :: "nat \<Rightarrow> nat \<Rightarrow> nat" where
  "to_extend tsize need_to_add =
    (let offsetInBlock = tsize mod BLOCK_SIZE;
         available_in_block = BLOCK_SIZE - offsetInBlock
     in if available_in_block < need_to_add then available_in_block else need_to_add)"

text \<open>One round: zero the free part of the last block, append a block when it is full.\<close>

definition ufs_extend_chunk :: "addr \<Rightarrow> nat \<Rightarrow> ufs \<Rightarrow> (bool \<times> ufs) option" where
  "ufs_extend_chunk a n s = do {
     f \<leftarrow> files s a;
     (cur, cb) \<leftarrow> deref_block (last_block f) s;
     let offsetInBlock = total_size f mod BLOCK_SIZE;
     ensure (offsetInBlock + n \<le> length (memory cb));
     let s = set_block cur (cb\<lparr>memory := blit offsetInBlock (replicate n 0) (memory cb)\<rparr>) s;
     let f = f\<lparr>total_size := total_size f + n\<rparr>;
     let s = set_file a f s;
     if total_size f mod BLOCK_SIZE = 0 then do {
       (new_block, s) \<leftarrow> ufs_add_block (Some cur) s;
       case new_block of
         None \<Rightarrow> Some (False, s)
       | Some nb \<Rightarrow> Some (True, set_file a (f\<lparr>last_block := Some nb\<rparr>) s)
     } else Some (True, s)
   }"

text \<open>\<open>n\<close> zero bytes have been appended to the file, which leads to \<open>s'\<close>.\<close>

definition grown :: "addr \<Rightarrow> ufs_file \<Rightarrow> addr list \<Rightarrow> nat \<Rightarrow> (addr \<rightharpoonup> block) \<Rightarrow> addr list \<Rightarrow> ufs \<Rightarrow> ufs" where
  "grown a f bs n h bs' s = s\<lparr>blocks := h,
     files := (files s)(a \<mapsto> f\<lparr>last_block := Some (last bs'), total_size := total_size f + n\<rparr>),
     calloc_count := calloc_count s + 2 * (length bs' - length bs)\<rparr>"

definition grew :: "addr \<Rightarrow> ufs_file \<Rightarrow> addr list \<Rightarrow> nat \<Rightarrow> ufs \<Rightarrow> ufs \<Rightarrow> addr list \<Rightarrow> bool" where
  "grew a f bs n s s' bs' \<longleftrightarrow> s' = grown a f bs n (blocks s') bs' s \<and>
     layout (blocks s') (f\<lparr>last_block := Some (last bs')\<rparr>) bs' \<and>
     written_blocks s bs (total_size f) (replicate n 0) (blocks s') bs' \<and> reshapes s bs s' bs'"

lemma grewI:
  assumes "s' = grown a f bs n h bs' s" "layout h (f\<lparr>last_block := Some (last bs')\<rparr>) bs'"
    "written_blocks s bs (total_size f) (replicate n 0) h bs'" "reshapes s bs s' bs'"
  shows "grew a f bs n s s' bs'"
  using assms by (simp add: grew_def grown_def)

lemma grewD:
  assumes "grew a f bs n s s' bs'"
  obtains h where "s' = grown a f bs n h bs' s" "blocks s' = h"
    "layout h (f\<lparr>last_block := Some (last bs')\<rparr>) bs'"
    "written_blocks s bs (total_size f) (replicate n 0) h bs'" "reshapes s bs s' bs'"
  using assms unfolding grew_def by blast

lemma ufs_extend_chunk_step:
  assumes a: "files s a = Some f" and lay: "layout (blocks s) f bs"
    and len: "length bs = total_size f div BLOCK_SIZE + 1"
    and fresh: "\<forall>b \<in> dom (blocks s). b < calloc_count s"
    and n: "0 < n" "total_size f mod BLOCK_SIZE + n \<le> BLOCK_SIZE"
    and mem: "mem_for (2 * ((total_size f + n) div BLOCK_SIZE - total_size f div BLOCK_SIZE)) s"
  obtains s' bs' where "ufs_extend_chunk a n s = Some (True, s')" "grew a f bs n s s' bs'"
proof -
  let ?off = "total_size f" and ?z = "replicate n (0 :: byte)"
  let ?k = "?off div BLOCK_SIZE" and ?r = "?off mod BLOCK_SIZE"
  from len have k: "?k < length bs" and kk: "length bs = Suc ?k" by simp_all
  from layout_nth[OF lay k] obtain c where c: "blocks s (bs ! ?k) = Some c" "length (memory c) = BLOCK_SIZE" by blast
  have last: "last_block f = Some (bs ! ?k)"
    using layout_last[OF lay] layoutD(3)[OF lay] kk by (simp add: last_conv_nth)
  then have deref: "deref_block (last_block f) s = Some (bs ! ?k, c)" using c(1) by simp
  define h1 where "h1 = (blocks s)(bs ! ?k \<mapsto> c\<lparr>memory := blit ?r ?z (memory c)\<rparr>)"
  have new: "?r + length ?z \<le> BLOCK_SIZE" using n by simp
  note here = chunk_here[OF lay refl k c(1) new, folded h1_def]
  show thesis
  proof (cases "?r + n = BLOCK_SIZE")
    case False
    then have off: "(?off + n) mod BLOCK_SIZE \<noteq> 0" "(?off + n) div BLOCK_SIZE = ?k"
      using offset_step[OF n(2)] n(1) by simp_all
    have last_id: "f\<lparr>last_block := Some (last bs), total_size := x\<rparr> = f\<lparr>total_size := x\<rparr>" for x
      using layout_last[OF lay] by (cases f) simp
    have "ufs_extend_chunk a n s = Some (True, grown a f bs n h1 bs s)"
      using a deref c(2) n(2) off(1)
      by (simp add: ufs_extend_chunk_def grown_def last_id set_block_def set_file_def h1_def Let_def
          del: deref_block_Some)
    moreover have "grew a f bs n s (grown a f bs n h1 bs s) bs"
    proof (rule grewI[OF refl])
      show "layout h1 (f\<lparr>last_block := Some (last bs)\<rparr>) bs"
        using here(1) layout_last[OF lay] by (simp add: layout_def)
      show "written_blocks s bs ?off ?z h1 bs" using here(5) off(2) k by simp
      show "reshapes s bs (grown a f bs n h1 bs s) bs" by (rule here(6)) (simp_all add: grown_def)
    qed
    ultimately show thesis by (rule that)
  next
    case True
    then have off: "(?off + n) mod BLOCK_SIZE = 0" "(?off + n) div BLOCK_SIZE = Suc ?k"
      using offset_step[OF n(2)] by simp_all
    let ?b = "calloc_count s"
    let ?s1 = "s\<lparr>blocks := h1, files := (files s)(a \<mapsto> f\<lparr>total_size := ?off + n\<rparr>)\<rparr>"
    define h2 where "h2 = (blocks s)(bs ! ?k \<mapsto> c\<lparr>memory := blit ?r ?z (memory c), blk_next := Some ?b\<rparr>,
      ?b \<mapsto> zero_block (Some (bs ! ?k)))"
    have full: "?r + length ?z = BLOCK_SIZE" using True by simp
    note append = chunk_append[OF lay refl kk c(1) full fresh, folded h2_def]
    have swap: "f\<lparr>total_size := x, last_block := y\<rparr> = f\<lparr>last_block := y, total_size := x\<rparr>" for x y
      by (cases f) simp
    have "mem_for 2 ?s1" using mem off(2) by (simp add: mem_for_def)
    then have add: "ufs_add_block (Some (bs ! ?k)) ?s1 =
        Some (Some ?b, ?s1\<lparr>calloc_count := calloc_count s + 2, blocks := h2\<rparr>)"
      by (subst ufs_add_block_after) (simp_all add: h1_def h2_def)
    have "ufs_extend_chunk a n s = Some (True, grown a f bs n h2 (bs @ [?b]) s)"
      using a deref c(2) n(2) off(1) add[unfolded h1_def]
      by (simp add: ufs_extend_chunk_def grown_def set_block_def set_file_def Let_def del: deref_block_Some)
        (rule ufs.equality; simp add: fun_upd_def swap)
    moreover have "grew a f bs n s (grown a f bs n h2 (bs @ [?b]) s) (bs @ [?b])"
    proof (rule grewI[OF refl])
      show "reshapes s bs (grown a f bs n h2 (bs @ [?b]) s) (bs @ [?b])"
        by (rule append(3)) (simp_all add: grown_def)
    qed (use append(1,2) in simp_all)
    ultimately show thesis by (rule that)
  qed
qed

function ufs_extend_loop :: "addr \<Rightarrow> nat \<Rightarrow> ufs \<Rightarrow> (bool \<times> ufs) option" where
  "ufs_extend_loop a need_to_add s =
    (if need_to_add = 0 then Some (True, s)
     else do {
       f \<leftarrow> files s a;
       let n = to_extend (total_size f) need_to_add;
       (ok, s) \<leftarrow> ufs_extend_chunk a n s;
       if \<not> ok then Some (False, s) else ufs_extend_loop a (need_to_add - n) s
     })"
  by pat_completeness auto
termination
  by (relation "measure (\<lambda>(a, n, s). n)") (auto simp: to_extend_def Let_def)

declare ufs_extend_loop.simps [simp del]

lemma grew_trans:
  assumes 1: "grew a f bs m s s1 bs1"
    and 2: "grew a (f\<lparr>last_block := Some (last bs1), total_size := total_size f + m\<rparr>) bs1 n s1 s2 bs2"
    and full: "blocks_full (blocks s) bs" and fresh: "\<forall>b \<in> dom (blocks s). b < calloc_count s"
  shows "grew a f bs (m + n) s s2 bs2"
proof -
  let ?f = "f\<lparr>last_block := Some (last bs1), total_size := total_size f + m\<rparr>"
  from 1 obtain h1 where s1: "s1 = grown a f bs m h1 bs1 s" "blocks s1 = h1"
    "layout h1 (f\<lparr>last_block := Some (last bs1)\<rparr>) bs1"
    "written_blocks s bs (total_size f) (replicate m 0) h1 bs1" "reshapes s bs s1 bs1" by (rule grewD)
  from 2 obtain h2 where s2: "s2 = grown a ?f bs1 n h2 bs2 s1" "blocks s2 = h2"
    "layout h2 (?f\<lparr>last_block := Some (last bs2)\<rparr>) bs2"
    "written_blocks s1 bs1 (total_size ?f) (replicate n 0) h2 bs2" "reshapes s1 bs1 s2 bs2" by (rule grewD)
  have le: "length bs \<le> length bs1" "length bs1 \<le> length bs2"
    using s1(4) s2(4) by (simp_all add: written_blocks_def)
  show ?thesis
  proof (rule grewI)
    have swap: "?f\<lparr>last_block := x, total_size := y\<rparr> = f\<lparr>last_block := x, total_size := y\<rparr>" for x y
      by (cases f) simp
    show "s2 = grown a f bs (m + n) h2 bs2 s"
      unfolding s2(1) s1(1) using le by (simp add: grown_def swap add.assoc)
    have "written_blocks s bs (total_size f) (replicate m 0 @ replicate n 0) h2 bs2"
      using s1(4) s2(4) full layoutD(2)[OF s1(3)] unfolding s1(2)[symmetric]
      by (intro written_blocks_trans[of s bs _ "replicate m 0" s1 bs1]) simp_all
    then show "written_blocks s bs (total_size f) (replicate (m + n) 0) h2 bs2" by (simp add: replicate_add)
    show "layout h2 (f\<lparr>last_block := Some (last bs2)\<rparr>) bs2" using s2(3) by (simp add: layout_def)
    show "reshapes s bs s2 bs2" by (rule reshapes_trans[OF s1(5) s2(5) fresh])
  qed
qed

lemma ufs_extend_loop_step:
  assumes a: "files s a = Some f" and lay: "layout (blocks s) f bs"
    and len: "length bs = total_size f div BLOCK_SIZE + 1"
    and fresh: "\<forall>b \<in> dom (blocks s). b < calloc_count s"
    and mem: "mem_for (2 * ((total_size f + n) div BLOCK_SIZE - total_size f div BLOCK_SIZE)) s"
  obtains s' bs' where "ufs_extend_loop a n s = Some (True, s')" "grew a f bs n s s' bs'"
proof -
  have "\<exists>s' bs'. ufs_extend_loop a n s = Some (True, s') \<and> grew a f bs n s s' bs'"
    using assms
  proof (induction n arbitrary: s f bs rule: less_induct)
    case (less n)
    show ?case
    proof (cases "n = 0")
      case True
      have "f\<lparr>last_block := Some (last bs)\<rparr> = f" using layout_last[OF less.prems(2)] by simp
      then have "grew a f bs 0 s s bs"
        using less.prems(1-3) layoutD(2)[OF less.prems(2)]
        by (intro grewI[where h = "blocks s"])
          (auto simp: grown_def written_blocks_def fun_upd_idem blocks_full_def intro!: reshapes_refl)
      then show ?thesis using True by (auto simp: ufs_extend_loop.simps)
    next
      case False
      let ?sz = "total_size f"
      define m where "m = to_extend ?sz n"
      have m: "0 < m" "m \<le> n" "?sz mod BLOCK_SIZE + m \<le> BLOCK_SIZE"
        using False mod_less_divisor[of BLOCK_SIZE ?sz] by (auto simp: m_def to_extend_def Let_def)
      have le: "?sz div BLOCK_SIZE \<le> (?sz + m) div BLOCK_SIZE" "(?sz + m) div BLOCK_SIZE \<le> (?sz + n) div BLOCK_SIZE"
        using m(2) by (simp_all add: div_le_mono)
      have "mem_for (2 * ((?sz + m) div BLOCK_SIZE - ?sz div BLOCK_SIZE)) s"
        using le by (intro mem_for_mono[OF less.prems(5)]) (simp add: diff_le_mono)
      from ufs_extend_chunk_step[OF less.prems(1-4) m(1,3) this] obtain s1 bs1 where
        run: "ufs_extend_chunk a m s = Some (True, s1)" and g1: "grew a f bs m s s1 bs1" by blast
      from g1 obtain h1 where s1: "s1 = grown a f bs m h1 bs1 s" "blocks s1 = h1"
        "layout h1 (f\<lparr>last_block := Some (last bs1)\<rparr>) bs1"
        "written_blocks s bs ?sz (replicate m 0) h1 bs1" "reshapes s bs s1 bs1" by (rule grewD)
      let ?f = "f\<lparr>last_block := Some (last bs1), total_size := ?sz + m\<rparr>"
      have len1: "length bs1 = (?sz + m) div BLOCK_SIZE + 1"
        using s1(4) le(1) less.prems(3) by (simp add: written_blocks_def max_def)
      have "\<exists>s' bs'. ufs_extend_loop a (n - m) s1 = Some (True, s') \<and> grew a ?f bs1 (n - m) s1 s' bs'"
      proof (rule less.IH)
        show "n - m < n" using m by simp
        show "files s1 a = Some ?f" by (simp add: s1(1) grown_def)
        show "layout (blocks s1) ?f bs1" using s1(2,3) by (simp add: layout_def)
        show "length bs1 = total_size ?f div BLOCK_SIZE + 1" by (simp add: len1)
        show "\<forall>b \<in> dom (blocks s1). b < calloc_count s1"
          using layoutD(2)[OF less.prems(2)]
          by (intro reshapes_fresh[OF s1(5) _ less.prems(4)]) (auto simp: blocks_full_def)
        have "2 * (length bs1 - length bs) + 2 * ((?sz + n) div BLOCK_SIZE - (?sz + m) div BLOCK_SIZE) \<le>
            2 * ((?sz + n) div BLOCK_SIZE - ?sz div BLOCK_SIZE)"
          using le by (simp add: len1 less.prems(3) flip: add_mult_distrib2)
        then show "mem_for (2 * ((total_size ?f + (n - m)) div BLOCK_SIZE - total_size ?f div BLOCK_SIZE)) s1"
          by (intro mem_for_shift[OF mem_for_mono[OF less.prems(5)]]) (use m(2) in \<open>simp_all add: s1(1) grown_def\<close>)
      qed
      then obtain s2 bs2 where loop: "ufs_extend_loop a (n - m) s1 = Some (True, s2)"
        and g2: "grew a ?f bs1 (n - m) s1 s2 bs2" by blast
      have "grew a f bs n s s2 bs2"
        using grew_trans[OF g1 g2 layoutD(2)[OF less.prems(2)] less.prems(4)] m(2) by simp
      moreover have "ufs_extend_loop a n s = Some (True, s2)"
        using False less.prems(1) run loop by (simp add: ufs_extend_loop.simps[of a n] flip: m_def)
      ultimately show ?thesis by blast
    qed
  qed
  with that show thesis by blast
qed

definition ufs_extend_file :: "addr \<Rightarrow> nat \<Rightarrow> ufs \<Rightarrow> (bool \<times> ufs) option" where
  "ufs_extend_file a new_size s = do {
     f \<leftarrow> files s a;
     ufs_extend_loop a (new_size - total_size f) s
   }"

text \<open>Unlinking and freeing the last block, which the reduction does in two places.\<close>

definition drop_last_block :: "addr \<Rightarrow> ufs \<Rightarrow> ufs option" where
  "drop_last_block a s = do {
     f \<leftarrow> files s a;
     (cur, cb) \<leftarrow> deref_block (last_block f) s;
     let s = set_file a (f\<lparr>last_block := blk_prev cb\<rparr>) s;
     s \<leftarrow> (case blk_prev cb of
            None \<Rightarrow> Some s
          | Some p \<Rightarrow> upd_block p (\<lambda>b. b\<lparr>blk_next := None\<rparr>) s);
     ufs_free_blocks (Some cur) s
   }"

definition to_reduce :: "nat \<Rightarrow> nat \<Rightarrow> nat" where
  "to_reduce tsize need_to_reduce =
    (let n = tsize mod BLOCK_SIZE
     in if (n = 0 \<and> need_to_reduce < BLOCK_SIZE) \<or> need_to_reduce < n then need_to_reduce else n)"

text \<open>One round takes off a whole block, or part of one; it returns what is still to take off.\<close>

definition ufs_reduce_chunk :: "addr \<Rightarrow> nat \<Rightarrow> ufs \<Rightarrow> ufs option" where
  "ufs_reduce_chunk a need_to_reduce s = do {
     f \<leftarrow> files s a;
     let n = to_reduce (total_size f) need_to_reduce;
     if n = 0 then do {
       s \<leftarrow> drop_last_block a s;
       upd_file a (\<lambda>f. f\<lparr>total_size := total_size f - BLOCK_SIZE\<rparr>) s
     } else do {
       let full_blocks_before = total_size f div BLOCK_SIZE;
       let f = f\<lparr>total_size := total_size f - n\<rparr>;
       let s = set_file a f s;
       let full_blocks_after = total_size f div BLOCK_SIZE;
       if full_blocks_after < full_blocks_before then drop_last_block a s else Some s
     }
   }"

text \<open>\<open>m\<close> bytes have been taken off the file, which leads to \<open>s'\<close>.\<close>

definition shrunk :: "addr \<Rightarrow> ufs_file \<Rightarrow> nat \<Rightarrow> (addr \<rightharpoonup> block) \<Rightarrow> addr list \<Rightarrow> ufs \<Rightarrow> ufs" where
  "shrunk a f m h bs' s = s\<lparr>blocks := h,
     files := (files s)(a \<mapsto> f\<lparr>last_block := Some (last bs'), total_size := total_size f - m\<rparr>)\<rparr>"

definition shrank :: "addr \<Rightarrow> ufs_file \<Rightarrow> addr list \<Rightarrow> nat \<Rightarrow> ufs \<Rightarrow> ufs \<Rightarrow> addr list \<Rightarrow> bool" where
  "shrank a f bs m s s' bs' \<longleftrightarrow> s' = shrunk a f m (blocks s') bs' s \<and>
     layout (blocks s') (f\<lparr>last_block := Some (last bs')\<rparr>) bs' \<and>
     bs' = take ((total_size f - m) div BLOCK_SIZE + 1) bs \<and>
     bytes (blocks s') bs' = bytes (blocks s) bs' \<and> reshapes s bs s' bs'"

lemma shrankI:
  assumes "s' = shrunk a f m h bs' s" "layout h (f\<lparr>last_block := Some (last bs')\<rparr>) bs'"
    "bs' = take ((total_size f - m) div BLOCK_SIZE + 1) bs" "bytes h bs' = bytes (blocks s) bs'"
    "reshapes s bs s' bs'"
  shows "shrank a f bs m s s' bs'"
  using assms by (simp add: shrank_def shrunk_def)

lemma shrankD:
  assumes "shrank a f bs m s s' bs'"
  obtains h where "s' = shrunk a f m h bs' s" "blocks s' = h"
    "layout h (f\<lparr>last_block := Some (last bs')\<rparr>) bs'"
    "bs' = take ((total_size f - m) div BLOCK_SIZE + 1) bs" "bytes h bs' = bytes (blocks s) bs'"
    "reshapes s bs s' bs'"
  using assms unfolding shrank_def by blast

lemma bytes_prefix: "bytes h' bs = bytes h bs \<Longrightarrow> blocks_full h' bs \<Longrightarrow> blocks_full h bs \<Longrightarrow>
    bytes h' (take k bs) = bytes h (take k bs)"
proof -
  assume eq: "bytes h' bs = bytes h bs" and full: "blocks_full h' bs" "blocks_full h bs"
  have "length (bytes h' (take k bs)) = length (bytes h (take k bs))"
    using full by (subst (1 2) length_bytes) (auto simp: blocks_full_def dest: in_set_takeD)
  moreover have "bytes h' (take k bs) @ bytes h' (drop k bs) = bytes h (take k bs) @ bytes h (drop k bs)"
    using eq by (simp flip: bytes_simps(3))
  ultimately show ?thesis by simp
qed

lemma shrank_trans:
  assumes 1: "shrank a f bs m s s1 bs1"
    and 2: "shrank a (f\<lparr>last_block := Some (last bs1), total_size := total_size f - m\<rparr>) bs1 n s1 s2 bs2"
    and full: "blocks_full (blocks s) bs" and fresh: "\<forall>b \<in> dom (blocks s). b < calloc_count s"
  shows "shrank a f bs (m + n) s s2 bs2"
proof -
  let ?f = "f\<lparr>last_block := Some (last bs1), total_size := total_size f - m\<rparr>"
  from 1 obtain h1 where s1: "s1 = shrunk a f m h1 bs1 s" "blocks s1 = h1"
    "layout h1 (f\<lparr>last_block := Some (last bs1)\<rparr>) bs1"
    "bs1 = take ((total_size f - m) div BLOCK_SIZE + 1) bs" "bytes h1 bs1 = bytes (blocks s) bs1"
    "reshapes s bs s1 bs1" by (rule shrankD)
  from 2 obtain h2 where s2: "s2 = shrunk a ?f n h2 bs2 s1" "blocks s2 = h2"
    "layout h2 (?f\<lparr>last_block := Some (last bs2)\<rparr>) bs2"
    "bs2 = take ((total_size ?f - n) div BLOCK_SIZE + 1) bs1" "bytes h2 bs2 = bytes (blocks s1) bs2"
    "reshapes s1 bs1 s2 bs2" by (rule shrankD)
  show ?thesis
  proof (rule shrankI)
    have swap: "?f\<lparr>last_block := x, total_size := y\<rparr> = f\<lparr>last_block := x, total_size := y\<rparr>" for x y
      by (cases f) simp
    show "s2 = shrunk a f (m + n) h2 bs2 s"
      unfolding s2(1) s1(1) by (simp add: shrunk_def swap)
    have "(total_size f - (m + n)) div BLOCK_SIZE \<le> (total_size f - m) div BLOCK_SIZE"
      by (intro div_le_mono) simp
    then show "bs2 = take ((total_size f - (m + n)) div BLOCK_SIZE + 1) bs"
      by (simp add: s2(4) s1(4) min_def)
    have "bytes h1 bs2 = bytes (blocks s) bs2"
      unfolding s2(4) using s1(5) layoutD(2)[OF s1(3)] full
      by (intro bytes_prefix) (auto simp: s1(4) blocks_full_def dest: in_set_takeD)
    then show "bytes h2 bs2 = bytes (blocks s) bs2" using s2(5) s1(2) by simp
    show "layout h2 (f\<lparr>last_block := Some (last bs2)\<rparr>) bs2" using s2(3) by (simp add: layout_def)
    show "reshapes s bs s2 bs2" by (rule reshapes_trans[OF s1(6) s2(6) fresh])
  qed
qed

lemma drop_last_block_step:
  assumes a: "files s a = Some f" and lay: "layout (blocks s) f (xs @ [k, b])"
  obtains h where "drop_last_block a s = Some (s\<lparr>blocks := h, files := (files s)(a \<mapsto> f\<lparr>last_block := Some k\<rparr>)\<rparr>)"
    "layout h (f\<lparr>last_block := Some k\<rparr>) (xs @ [k])" "bytes h (xs @ [k]) = bytes (blocks s) (xs @ [k])"
    "\<And>s'. calloc_count s' = calloc_count s \<Longrightarrow> blocks s' = h \<Longrightarrow> reshapes s (xs @ [k, b]) s' (xs @ [k])"
proof -
  let ?bs = "xs @ [k, b]"
  have at: "?bs ! length xs = k" "?bs ! Suc (length xs) = b" by (simp_all add: nth_append)
  from layout_nth[OF lay, of "length xs"] at obtain ck where
    ck: "blocks s k = Some ck" "blk_next ck = Some b" by auto
  from layout_nth[OF lay, of "Suc (length xs)"] at obtain cb where
    cb: "blocks s b = Some cb" "blk_next cb = None" "blk_prev cb = Some k" by auto
  have last: "last_block f = Some b" using layout_last[OF lay] by simp
  have dist: "distinct ?bs" by (rule layout_distinct[OF lay])
  define h where "h = (blocks s)(k \<mapsto> ck\<lparr>blk_next := None\<rparr>, b := None)"
  have kb: "k \<noteq> b" using dist by auto
  have "drop_last_block a s = Some (s\<lparr>blocks := h, files := (files s)(a \<mapsto> f\<lparr>last_block := Some k\<rparr>)\<rparr>)"
    using a last ck cb kb
    by (simp add: drop_last_block_def deref_block_def set_file_def upd_block_def set_block_def free_block_def
        ufs_free_blocks.simps[of "Some b"] ufs_free_blocks.simps[of None] h_def)
  moreover note layout_butlast[OF lay ck(1), folded h_def]
  moreover have "reshapes s ?bs s' (xs @ [k])" if "calloc_count s' = calloc_count s" "blocks s' = h" for s'
  proof -
    have "set ?bs \<subseteq> dom (blocks s)" using layoutD(2)[OF lay] by (auto simp: blocks_full_def)
    then show ?thesis using that dist by (auto simp: reshapes_def h_def)
  qed
  ultimately show thesis by (rule that)
qed

lemma shrank_drop:
  assumes a: "files s a = Some f" and lay: "layout (blocks s) f bs"
    and len: "length bs = (total_size f - m) div BLOCK_SIZE + 2"
    and s1: "s1 = set_file a (f\<lparr>total_size := x\<rparr>) s"
  obtains s2 where "drop_last_block a s1 = Some s2"
    "shrank a f bs m s (set_file a (the (files s2 a)\<lparr>total_size := total_size f - m\<rparr>) s2)
      (take ((total_size f - m) div BLOCK_SIZE + 1) bs)"
    "\<exists>g. files s2 a = Some g \<and> total_size g = x"
proof -
  let ?k = "(total_size f - m) div BLOCK_SIZE"
  have "bs = take ?k bs @ [bs ! ?k, bs ! Suc ?k]"
    using len by (intro nth_equalityI) (auto simp: nth_append less_Suc_eq)
  then obtain xs k b where bs: "bs = xs @ [k, b]" "length xs = ?k" using len by auto
  let ?f = "f\<lparr>total_size := x\<rparr>"
  have "layout (blocks s1) ?f (xs @ [k, b])" using lay by (simp add: s1 set_file_def layout_def bs(1))
  moreover have "files s1 a = Some ?f" by (simp add: s1 set_file_def)
  ultimately obtain h where drop: "drop_last_block a s1 =
      Some (s1\<lparr>blocks := h, files := (files s1)(a \<mapsto> ?f\<lparr>last_block := Some k\<rparr>)\<rparr>)"
    and h: "layout h (?f\<lparr>last_block := Some k\<rparr>) (xs @ [k])" "bytes h (xs @ [k]) = bytes (blocks s1) (xs @ [k])"
    "\<And>s'. calloc_count s' = calloc_count s1 \<Longrightarrow> blocks s' = h \<Longrightarrow> reshapes s1 (xs @ [k, b]) s' (xs @ [k])"
    using drop_last_block_step by metis
  let ?s2 = "s1\<lparr>blocks := h, files := (files s1)(a \<mapsto> ?f\<lparr>last_block := Some k\<rparr>)\<rparr>"
  let ?s3 = "set_file a (the (files ?s2 a)\<lparr>total_size := total_size f - m\<rparr>) ?s2"
  have take: "take (?k + 1) bs = xs @ [k]" using bs by simp
  have "shrank a f bs m s ?s3 (take (?k + 1) bs)"
  proof (rule shrankI[where h = h])
    have swap: "?f\<lparr>last_block := x, total_size := y\<rparr> = f\<lparr>last_block := x, total_size := y\<rparr>" for x y
      by (cases f) simp
    show "?s3 = shrunk a f m h (take (?k + 1) bs) s"
      unfolding take by (rule ufs.equality) (simp_all add: shrunk_def s1 set_file_def swap)
    show "layout h (f\<lparr>last_block := Some (last (take (?k + 1) bs))\<rparr>) (take (?k + 1) bs)"
      unfolding take using h(1) by (simp add: layout_def)
    show "bytes h (take (?k + 1) bs) = bytes (blocks s) (take (?k + 1) bs)"
      unfolding take using h(2) by (simp add: s1 set_file_def)
    have "reshapes s1 bs ?s3 (xs @ [k])" unfolding bs(1) by (rule h(3)) (simp_all add: set_file_def)
    then show "reshapes s bs ?s3 (take (?k + 1) bs)"
      unfolding take by (simp add: s1 set_file_def reshapes_def)
  qed simp
  then show thesis using drop by (intro that[of ?s2]) simp_all
qed

definition reduce_by :: "nat \<Rightarrow> nat \<Rightarrow> nat" where
  "reduce_by tsize need = (if to_reduce tsize need = 0 then BLOCK_SIZE else to_reduce tsize need)"

lemma reduce_by_bounds:
  "0 < need \<Longrightarrow> 0 < reduce_by tsize need" "0 < need \<Longrightarrow> reduce_by tsize need \<le> need"
  by (auto simp: reduce_by_def to_reduce_def Let_def)

lemma ufs_reduce_chunk_step:
  assumes a: "files s a = Some f" and lay: "layout (blocks s) f bs"
    and len: "length bs = total_size f div BLOCK_SIZE + 1" and need: "0 < need" "need \<le> total_size f"
  obtains s' bs' where "ufs_reduce_chunk a need s = Some s'"
    "shrank a f bs (reduce_by (total_size f) need) s s' bs'"
proof -
  let ?sz = "total_size f" and ?n = "to_reduce (total_size f) need"
  consider (whole) "?n = 0" "reduce_by ?sz need = BLOCK_SIZE" "?sz mod BLOCK_SIZE = 0" "BLOCK_SIZE \<le> need"
    | (prev) "?n = need" "reduce_by ?sz need = need" "?sz mod BLOCK_SIZE = 0" "need < BLOCK_SIZE"
    | (part) "?n \<noteq> 0" "reduce_by ?sz need = ?n" "?n \<le> ?sz mod BLOCK_SIZE"
    using need by (cases "?sz mod BLOCK_SIZE = 0"; cases "need < BLOCK_SIZE")
      (auto simp: to_reduce_def reduce_by_def Let_def split: if_splits)
  then show thesis
  proof cases
    case whole
    have "length bs = (?sz - BLOCK_SIZE) div BLOCK_SIZE + 2"
      using len offset_back(2)[OF whole(3), of BLOCK_SIZE] whole(4) need by simp
    moreover have "s = set_file a (f\<lparr>total_size := ?sz\<rparr>) s" using a by (simp add: set_file_def fun_upd_idem)
    ultimately obtain s2 where s2: "drop_last_block a s = Some s2"
      "shrank a f bs BLOCK_SIZE s (set_file a (the (files s2 a)\<lparr>total_size := ?sz - BLOCK_SIZE\<rparr>) s2)
        (take ((?sz - BLOCK_SIZE) div BLOCK_SIZE + 1) bs)" "\<exists>g. files s2 a = Some g \<and> total_size g = ?sz"
      by (rule shrank_drop[OF a lay])
    then have "ufs_reduce_chunk a need s =
        Some (set_file a (the (files s2 a)\<lparr>total_size := ?sz - BLOCK_SIZE\<rparr>) s2)"
      using whole(1) a by (auto simp: ufs_reduce_chunk_def upd_file_def)
    from that[OF this] s2(2) show thesis unfolding whole(2) .
  next
    case prev
    define s1 where "s1 = set_file a (f\<lparr>total_size := ?sz - need\<rparr>) s"
    have div: "(?sz - need) div BLOCK_SIZE + 1 = ?sz div BLOCK_SIZE"
      using offset_back(2)[OF prev(3), of need] prev(4) need by simp
    then have "length bs = (?sz - need) div BLOCK_SIZE + 2" using len by simp
    from shrank_drop[OF a lay this s1_def] obtain s2 where s2: "drop_last_block a s1 = Some s2"
      "shrank a f bs need s (set_file a (the (files s2 a)\<lparr>total_size := ?sz - need\<rparr>) s2)
        (take ((?sz - need) div BLOCK_SIZE + 1) bs)" "\<exists>g. files s2 a = Some g \<and> total_size g = ?sz - need"
      by blast
    have "set_file a (the (files s2 a)\<lparr>total_size := ?sz - need\<rparr>) s2 = s2"
      using s2(3) by (auto simp: set_file_def fun_upd_idem)
    moreover have "ufs_reduce_chunk a need s = Some s2"
      using prev(1) need div a s2(1) by (simp add: ufs_reduce_chunk_def s1_def Let_def)
    ultimately show thesis using s2(2) that[of s2] unfolding prev(2) by simp
  next
    case part
    have div: "(?sz - ?n) div BLOCK_SIZE = ?sz div BLOCK_SIZE" by (rule offset_back(1)[OF part(3)]) simp
    have run: "ufs_reduce_chunk a need s = Some (set_file a (f\<lparr>total_size := ?sz - ?n\<rparr>) s)"
      using part(1) div a by (simp add: ufs_reduce_chunk_def Let_def)
    have last: "last_block f = Some (last bs)" by (rule layout_last[OF lay])
    have id: "f\<lparr>last_block := Some (last bs), total_size := x\<rparr> = f\<lparr>total_size := x\<rparr>" for x
      using last by (cases f) simp
    have "shrank a f bs ?n s (set_file a (f\<lparr>total_size := ?sz - ?n\<rparr>) s) bs"
      using lay len div last layoutD(2)[OF lay]
      by (intro shrankI[where h = "blocks s"])
        (auto simp: shrunk_def set_file_def id layout_def blocks_full_def intro!: reshapes_refl)
    with run show thesis using that unfolding part(2) by blast
  qed
qed

function ufs_reduce_loop :: "addr \<Rightarrow> nat \<Rightarrow> ufs \<Rightarrow> ufs option" where
  "ufs_reduce_loop a need_to_reduce s =
    (if need_to_reduce = 0 then Some s
     else do {
       f \<leftarrow> files s a;
       let n = to_reduce (total_size f) need_to_reduce;
       s \<leftarrow> ufs_reduce_chunk a need_to_reduce s;
       ufs_reduce_loop a (need_to_reduce - (if n = 0 then BLOCK_SIZE else n)) s
     })"
  by pat_completeness auto
termination
  by (relation "measure (\<lambda>(a, n, s). n)") (auto simp: to_reduce_def Let_def)

declare ufs_reduce_loop.simps [simp del]

lemma ufs_reduce_loop_step:
  assumes a: "files s a = Some f" and lay: "layout (blocks s) f bs"
    and len: "length bs = total_size f div BLOCK_SIZE + 1" and need: "need \<le> total_size f"
    and fresh: "\<forall>b \<in> dom (blocks s). b < calloc_count s"
  obtains s' bs' where "ufs_reduce_loop a need s = Some s'" "shrank a f bs need s s' bs'"
proof -
  have "\<exists>s' bs'. ufs_reduce_loop a need s = Some s' \<and> shrank a f bs need s s' bs'"
    using assms
  proof (induction need arbitrary: s f bs rule: less_induct)
    case (less need)
    show ?case
    proof (cases "need = 0")
      case True
      have "f\<lparr>last_block := Some (last bs)\<rparr> = f" using layout_last[OF less.prems(2)] by simp
      then have "shrank a f bs 0 s s bs"
        using less.prems(1-3) layoutD(2)[OF less.prems(2)]
        by (intro shrankI[where h = "blocks s"])
          (auto simp: shrunk_def fun_upd_idem blocks_full_def intro!: reshapes_refl)
      then show ?thesis using True by (auto simp: ufs_reduce_loop.simps)
    next
      case False
      define m where "m = reduce_by (total_size f) need"
      have m: "0 < m" "m \<le> need" using False by (simp_all add: m_def reduce_by_bounds)
      from False ufs_reduce_chunk_step[OF less.prems(1-3) _ less.prems(4)] obtain s1 bs1 where
        run: "ufs_reduce_chunk a need s = Some s1" and g1: "shrank a f bs m s s1 bs1"
        unfolding m_def by blast
      from g1 obtain h1 where s1: "s1 = shrunk a f m h1 bs1 s" "blocks s1 = h1"
        "layout h1 (f\<lparr>last_block := Some (last bs1)\<rparr>) bs1"
        "bs1 = take ((total_size f - m) div BLOCK_SIZE + 1) bs" "bytes h1 bs1 = bytes (blocks s) bs1"
        "reshapes s bs s1 bs1" by (rule shrankD)
      let ?f = "f\<lparr>last_block := Some (last bs1), total_size := total_size f - m\<rparr>"
      have "\<exists>s' bs'. ufs_reduce_loop a (need - m) s1 = Some s' \<and> shrank a ?f bs1 (need - m) s1 s' bs'"
      proof (rule less.IH)
        show "need - m < need" using m by simp
        show "files s1 a = Some ?f" by (simp add: s1(1) shrunk_def)
        show "layout (blocks s1) ?f bs1" using s1(2,3) by (simp add: layout_def)
        show "length bs1 = total_size ?f div BLOCK_SIZE + 1"
          using less.prems(3) div_le_mono[of "total_size f - m" "total_size f" BLOCK_SIZE]
          by (simp add: s1(4) min_def)
        show "need - m \<le> total_size ?f" using less.prems(4) by simp
        show "\<forall>b \<in> dom (blocks s1). b < calloc_count s1"
          using layoutD(2)[OF less.prems(2)]
          by (intro reshapes_fresh[OF s1(6) _ less.prems(5)]) (auto simp: blocks_full_def)
      qed
      then obtain s2 bs2 where loop: "ufs_reduce_loop a (need - m) s1 = Some s2"
        and g2: "shrank a ?f bs1 (need - m) s1 s2 bs2" by blast
      have "shrank a f bs need s s2 bs2"
        using shrank_trans[OF g1 g2 layoutD(2)[OF less.prems(2)] less.prems(5)] m(2) by simp
      moreover have "ufs_reduce_loop a need s = Some s2"
        using False less.prems(1) run loop by (simp add: ufs_reduce_loop.simps[of a need] m_def reduce_by_def Let_def)
      ultimately show ?thesis by blast
    qed
  qed
  with that show thesis by blast
qed

definition ufs_reduce_file :: "addr \<Rightarrow> nat \<Rightarrow> ufs \<Rightarrow> (bool \<times> ufs) option" where
  "ufs_reduce_file a new_size s = do {
     f \<leftarrow> files s a;
     s \<leftarrow> ufs_reduce_loop a (total_size f - new_size) s;
     Some (True, s)
   }"

definition ufs_resize :: "int \<Rightarrow> nat \<Rightarrow> ufs \<Rightarrow> (int \<times> ufs) option" where
  "ufs_resize fdN new_size s = do {
     let idx = fdN - 1;
     valid \<leftarrow> ufs_check_valid_fd_idx idx s;
     if \<not> valid then Some (RETVAL_FAILURE, set_err UFS_ERR_NO_FILE s)
     else if new_size > MAX_FILE_SIZE then Some (RETVAL_FAILURE, set_err UFS_ERR_NO_MEM s)
     else do {
       fd \<leftarrow> get_fd (nat idx) s;
       let a = fd_file fd;
       f \<leftarrow> files s a;
       if new_size = total_size f then Some (RETVAL_SUCCESS, s)
       else do {
         (ret, s) \<leftarrow>
           (if new_size > total_size f then ufs_extend_file a new_size s
            else do {
              (ret, s) \<leftarrow> ufs_reduce_file a new_size s;
              s \<leftarrow> ufs_move_overflowing_fds a s;
              Some (ret, s)
            });
         if \<not> ret then Some (RETVAL_FAILURE, s) else Some (RETVAL_SUCCESS, s)
       }
     }
   }"

text \<open>The guards of \<open>ufs_resize\<close>.\<close>

lemma ufs_resize_errors:
  assumes "fds_wf s B"
  shows "\<not> (0 < fdN \<and> get_fd (nat (fdN - 1)) s \<noteq> None) \<Longrightarrow>
      ufs_resize fdN n s = Some (RETVAL_FAILURE, set_err UFS_ERR_NO_FILE s)"
    and "0 < fdN \<Longrightarrow> get_fd (nat (fdN - 1)) s \<noteq> None \<Longrightarrow> MAX_FILE_SIZE < n \<Longrightarrow>
      ufs_resize fdN n s = Some (RETVAL_FAILURE, set_err UFS_ERR_NO_MEM s)"
  by (auto simp: ufs_resize_def Let_def check_valid_wf[OF assms] simp del: get_fd_Some)

text \<open>Appending zeros, or cutting off the end.\<close>

definition resized :: "nat \<Rightarrow> byte list \<Rightarrow> byte list" where
  "resized n xs = take n xs @ replicate (n - length xs) 0"

text \<open>What a resize leaves: only the file, its blocks and the descriptors behind its end change.\<close>

definition resize_post ::
  "ufs \<Rightarrow> addr list \<Rightarrow> (addr \<Rightarrow> addr list) \<Rightarrow> addr \<Rightarrow> ufs_file \<Rightarrow> nat \<Rightarrow> ufs \<Rightarrow> addr list \<Rightarrow> bool" where
  "resize_post s fs B a f n s' bs' \<longleftrightarrow>
     ufs_wf s' fs (B(a := bs')) \<and>
     files s' = (files s)(a \<mapsto> f\<lparr>last_block := Some (last bs'), total_size := n\<rparr>) \<and>
     contents (blocks s') (f\<lparr>last_block := Some (last bs'), total_size := n\<rparr>) bs' =
       resized n (contents (blocks s) f (B a)) \<and>
     file_descriptors s' = map (clamp_fd a (f\<lparr>last_block := Some (last bs'), total_size := n\<rparr>)) (file_descriptors s) \<and>
     (\<forall>x \<in> set fs. x \<noteq> a \<longrightarrow> (\<forall>b \<in> set (B x). blocks s' b = blocks s b)) \<and>
     ufs_error_code s' = ufs_error_code s \<and> calloc_ok s' = calloc_ok s"

lemma resize_postI:
  assumes wf: "ufs_wf s fs B" and a: "files s a = Some f" and n: "n \<le> MAX_FILE_SIZE"
  defines "f' bs' \<equiv> f\<lparr>last_block := Some (last bs'), total_size := n\<rparr>"
  assumes s': "files s' = (files s)(a \<mapsto> f' bs')"
      "file_descriptors s' = map (clamp_fd a (f' bs')) (file_descriptors s)"
      "file_descriptor_count s' = file_descriptor_count s"
      "file_descriptor_capacity s' = file_descriptor_capacity s"
      "file_descriptors_rr_ptr s' = file_descriptors_rr_ptr s"
      "file_list s' = file_list s" "file_list_last s' = file_list_last s"
      "ufs_error_code s' = ufs_error_code s" "calloc_ok s' = calloc_ok s"
    and lay: "layout (blocks s') (f\<lparr>last_block := Some (last bs')\<rparr>) bs'"
    and len: "length bs' = n div BLOCK_SIZE + 1"
    and common: "\<And>k. k < length bs' \<Longrightarrow> k < length (B a) \<Longrightarrow> bs' ! k = B a ! k"
    and r: "reshapes s (B a) s' bs'"
    and bytes: "contents (blocks s') (f' bs') bs' = resized n (contents (blocks s) f (B a))"
  shows "resize_post s fs B a f n s' bs'"
proof -
  from wf have fwf: "files_wf s fs B" and dwf: "fds_wf s B" by (simp_all add: ufs_wf_def)
  note D = files_wfD[OF fwf]
  have "files_wf s' fs (B(a := bs'))"
    using lay len n
    by (intro files_wf_update[OF fwf a r s'(1)]) (simp_all add: f'_def layout_def size_ok_def s')
  moreover have "fds_wf s' (B(a := bs'))"
  proof (rule fds_wf_update[OF dwf])
    show "map (map_option fd_file) (file_descriptors s') = map (map_option fd_file) (file_descriptors s)"
      by (auto simp: s'(2) clamp_fd_def split: option.splits)
    show "\<exists>f. files s x = Some f \<and> refs g = refs f \<and> marked_for_deletion g = marked_for_deletion f"
      if "files s' x = Some g" for x g using that a by (auto simp: s'(1) f'_def split: if_splits)
    fix d assume "Some d \<in> set (file_descriptors s')"
    then obtain e where e: "Some e \<in> set (file_descriptors s)" "clamp_fd a (f' bs') (Some e) = Some d"
      by (auto simp: s'(2) clamp_fd_def split: option.splits)
    from fds_wfD(4)[OF dwf e(1)] obtain g where g: "files s (fd_file e) = Some g" "total_offset e \<le> total_size g"
      "cur_block e = Some (B (fd_file e) ! (total_offset e div BLOCK_SIZE))" by (auto simp: fd_ok_def)
    consider "fd_file e \<noteq> a" | "fd_file e = a" "n < total_offset e" | "fd_file e = a" "total_offset e \<le> n"
      by linarith
    then show "fd_ok s' (B(a := bs')) d"
    proof cases
      case 1
      then have "d = e" using e(2) by (simp add: clamp_fd_def)
      with 1 g show ?thesis by (simp add: fd_ok_def s'(1))
    next
      case 2
      then have "d = e\<lparr>total_offset := n, cur_block := Some (last bs')\<rparr>" using e(2) by (simp add: clamp_fd_def f'_def)
      moreover have "last bs' = bs' ! (n div BLOCK_SIZE)" using len layoutD(3)[OF lay] by (simp add: last_conv_nth)
      ultimately show ?thesis using 2 by (simp add: fd_ok_def s'(1) f'_def)
    next
      case 3
      then have "d = e" using e(2) by (simp add: clamp_fd_def f'_def)
      moreover have "total_offset e div BLOCK_SIZE < length bs'" using 3 by (simp add: len less_Suc_eq_le div_le_mono)
      moreover have "total_offset e div BLOCK_SIZE < length (B a)"
        using g(1,2) 3 a D(4)[OF a] by (simp add: size_ok_def less_Suc_eq_le div_le_mono)
      ultimately show ?thesis using 3 g common by (simp add: fd_ok_def s'(1) f'_def)
    qed
  qed (simp_all add: s')
  moreover have "blocks s' b = blocks s b" if "x \<in> set fs" "x \<noteq> a" "b \<in> set (B x)" for x b
  proof -
    have "a \<in> set fs" using D(2) a by auto
    then have "b \<notin> set (B a)" using D(5)[of x a] that by auto
    moreover have "b < calloc_count s" using D(6,8) that by (metis UN_I domIff option.exhaust)
    ultimately have "b \<notin> set bs'" "b \<notin> set (B a)" using r by (auto simp: reshapes_def)
    then show ?thesis using r by (simp add: reshapes_def)
  qed
  ultimately show ?thesis using bytes s'(1,2,8,9) by (auto simp: resize_post_def ufs_wf_def f'_def)
qed

lemma clamp_none:
  assumes "fds_wf s B" "files s a = Some f" "total_size f \<le> total_size f'"
  shows "map (clamp_fd a f') (file_descriptors s) = file_descriptors s"
proof (rule map_idI)
  fix x assume "x \<in> set (file_descriptors s)"
  with fds_wfD(4)[OF assms(1)] assms(2,3) show "clamp_fd a f' x = x"
    by (cases x) (fastforce simp: clamp_fd_def fd_ok_def)+
qed

lemma ufs_extend_file_wf:
  assumes wf: "ufs_wf s fs B" and a: "files s a = Some f" and n: "n \<le> MAX_FILE_SIZE" "total_size f < n"
    and mem: "mem_for (2 * (n div BLOCK_SIZE - total_size f div BLOCK_SIZE)) s"
  obtains s' bs' where "ufs_extend_file a n s = Some (True, s')" "resize_post s fs B a f n s' bs'"
proof -
  from wf have fwf: "files_wf s fs B" and dwf: "fds_wf s B" by (simp_all add: ufs_wf_def)
  note D = files_wfD[OF fwf]
  let ?sz = "total_size f" and ?m = "n - total_size f"
  have len: "length (B a) = ?sz div BLOCK_SIZE + 1" using D(4)[OF a] by (simp add: size_ok_def)
  have fresh: "\<forall>b \<in> dom (blocks s). b < calloc_count s" using D(8) by blast
  have "mem_for (2 * ((?sz + ?m) div BLOCK_SIZE - ?sz div BLOCK_SIZE)) s" using mem n by simp
  from ufs_extend_loop_step[OF a D(3)[OF a] len fresh this] obtain s' bs' where
    loop: "ufs_extend_loop a ?m s = Some (True, s')" and g: "grew a f (B a) ?m s s' bs'" by blast
  from g obtain h where s': "s' = grown a f (B a) ?m h bs' s" "blocks s' = h"
    "layout h (f\<lparr>last_block := Some (last bs')\<rparr>) bs'"
    "written_blocks s (B a) ?sz (replicate ?m 0) h bs'" "reshapes s (B a) s' bs'" by (rule grewD)
  have pre: "take (length (B a)) bs' = B a" using s'(4) by (simp add: written_blocks_def)
  let ?f = "f\<lparr>last_block := Some (last bs'), total_size := n\<rparr>"
  have "resize_post s fs B a f n s' bs'"
  proof (rule resize_postI[OF wf a n(1)])
    show "file_descriptors s' = map (clamp_fd a ?f) (file_descriptors s)"
      using clamp_none[OF dwf a, of ?f] n(2) by (simp add: s'(1) grown_def)
    show "length bs' = n div BLOCK_SIZE + 1"
      using s'(4) len n(2) by (simp add: written_blocks_def max_def div_le_mono not_le)
    show "bs' ! k = B a ! k" if "k < length (B a)" for k using pre that by (metis nth_take)
    have "contents h ?f bs' = blit ?sz (replicate ?m 0) (contents (blocks s) f (B a))"
      using s'(4) n(2) take_blit[of ?sz ?sz "bytes (blocks s) (B a)" "replicate ?m 0"] size_ok_fits[OF D(3)[OF a] D(4)[OF a]]
      by (simp add: contents_def written_blocks_def max_def)
    also have "\<dots> = resized n (contents (blocks s) f (B a))"
      using n(2) length_contents[OF D(3)[OF a] D(4)[OF a]] by (simp add: blit_def resized_def)
    finally show "contents (blocks s') ?f bs' = resized n (contents (blocks s) f (B a))" using s'(2) by simp
  qed (use s' n(2) in \<open>simp_all add: grown_def\<close>)
  moreover have "ufs_extend_file a n s = Some (True, s')" using a loop by (simp add: ufs_extend_file_def)
  ultimately show thesis by (intro that)
qed

lemma ufs_reduce_file_wf:
  assumes wf: "ufs_wf s fs B" and a: "files s a = Some f" and n: "n < total_size f"
  obtains s1 s' bs' where "ufs_reduce_file a n s = Some (True, s1)" "ufs_move_overflowing_fds a s1 = Some s'"
    "resize_post s fs B a f n s' bs'"
proof -
  from wf have fwf: "files_wf s fs B" and dwf: "fds_wf s B" by (simp_all add: ufs_wf_def)
  note D = files_wfD[OF fwf]
  let ?sz = "total_size f" and ?m = "total_size f - n"
  have len: "length (B a) = ?sz div BLOCK_SIZE + 1" and max: "?sz \<le> MAX_FILE_SIZE"
    using D(4)[OF a] by (simp_all add: size_ok_def)
  have fresh: "\<forall>b \<in> dom (blocks s). b < calloc_count s" using D(8) by blast
  from ufs_reduce_loop_step[OF a D(3)[OF a] len _ fresh, of ?m] obtain s1 bs' where
    loop: "ufs_reduce_loop a ?m s = Some s1" and g: "shrank a f (B a) ?m s s1 bs'" by auto
  from g obtain h where s1: "s1 = shrunk a f ?m h bs' s" "blocks s1 = h"
    "layout h (f\<lparr>last_block := Some (last bs')\<rparr>) bs'"
    "bs' = take ((?sz - ?m) div BLOCK_SIZE + 1) (B a)" "bytes h bs' = bytes (blocks s) bs'"
    "reshapes s (B a) s1 bs'" by (rule shrankD)
  have bs': "bs' = take (n div BLOCK_SIZE + 1) (B a)" using s1(4) n by simp
  let ?f = "f\<lparr>last_block := Some (last bs'), total_size := n\<rparr>"
  let ?s = "s1\<lparr>file_descriptors := map (clamp_fd a ?f) (file_descriptors s1)\<rparr>"
  have move: "ufs_move_overflowing_fds a s1 = Some ?s"
    using n fds_wfD(1)[OF dwf] fds_wfD(5)[OF dwf a]
    by (intro ufs_move_overflowing_fds_map) (simp_all add: s1(1) shrunk_def)
  have "resize_post s fs B a f n ?s bs'"
  proof (rule resize_postI[OF wf a])
    show "n \<le> MAX_FILE_SIZE" using n max by simp
    show len': "length bs' = n div BLOCK_SIZE + 1"
      using len n div_le_mono[of n ?sz BLOCK_SIZE] by (simp add: bs' min_def)
    show "bs' ! k = B a ! k" if "k < length bs'" for k using that by (simp add: bs')
    show "reshapes s (B a) ?s bs'" using s1(6) by (simp add: reshapes_def)
    have "n < length (bytes h bs')"
      using length_bytes[OF layoutD(2)[OF s1(3)]] div_less_mult[of n BLOCK_SIZE "length bs'"] len' by simp
    moreover have "bytes (blocks s) (B a) = bytes (blocks s) bs' @ bytes (blocks s) (drop (n div BLOCK_SIZE + 1) (B a))"
      unfolding bs' by (simp flip: bytes_simps(3))
    ultimately have "contents h ?f bs' = take n (contents (blocks s) f (B a))"
      using n by (simp add: contents_def s1(5) min_def)
    then show "contents (blocks ?s) ?f bs' = resized n (contents (blocks s) f (B a))"
      using s1(2) n length_contents[OF D(3)[OF a] D(4)[OF a]] by (simp add: resized_def)
  qed (use s1(3) n in \<open>simp_all add: s1(1) shrunk_def\<close>)
  moreover have "ufs_reduce_file a n s = Some (True, s1)" using a loop by (simp add: ufs_reduce_file_def)
  ultimately show thesis using move by (intro that)
qed

lemma ufs_resize_wf:
  assumes wf: "ufs_wf s fs B" and fd: "get_fd idx s = Some fd" and a: "files s (fd_file fd) = Some f"
    and n: "n \<le> MAX_FILE_SIZE"
    and mem: "mem_for (2 * (n div BLOCK_SIZE - total_size f div BLOCK_SIZE)) s"
  obtains s' bs' where "ufs_resize (int idx + 1) n s = Some (RETVAL_SUCCESS, s')"
    "resize_post s fs B (fd_file fd) f n s' bs'"
proof -
  from wf have fwf: "files_wf s fs B" and dwf: "fds_wf s B" by (simp_all add: ufs_wf_def)
  note D = files_wfD[OF fwf] and valid = check_valid_wf[OF dwf]
  consider "n = total_size f" | "total_size f < n" | "n < total_size f" by linarith
  then show thesis
  proof cases
    case 1
    have id: "f\<lparr>last_block := Some (last (B (fd_file fd))), total_size := n\<rparr> = f"
      using layout_last[OF D(3)[OF a]] 1 by (cases f) simp
    have "resized n (contents (blocks s) f (B (fd_file fd))) = contents (blocks s) f (B (fd_file fd))"
      using length_contents[OF D(3)[OF a] D(4)[OF a]] 1 by (simp add: resized_def)
    then have "resize_post s fs B (fd_file fd) f n s (B (fd_file fd))"
      using wf clamp_none[OF dwf a, of f] a by (simp add: resize_post_def id fun_upd_idem)
    moreover have "ufs_resize (int idx + 1) n s = Some (RETVAL_SUCCESS, s)"
      using fd a n 1 by (simp add: ufs_resize_def valid Let_def del: get_fd_Some)
    ultimately show thesis by (rule that[rotated])
  next
    case 2
    from ufs_extend_file_wf[OF wf a n 2 mem] obtain s' bs' where
      "ufs_extend_file (fd_file fd) n s = Some (True, s')" "resize_post s fs B (fd_file fd) f n s' bs'" by blast
    then show thesis
      using fd a n 2 by (intro that[of s' bs']) (simp_all add: ufs_resize_def valid Let_def del: get_fd_Some)
  next
    case 3
    from ufs_reduce_file_wf[OF wf a 3] obtain s1 s' bs' where
      "ufs_reduce_file (fd_file fd) n s = Some (True, s1)" "ufs_move_overflowing_fds (fd_file fd) s1 = Some s'"
      "resize_post s fs B (fd_file fd) f n s' bs'" by blast
    then show thesis
      using fd a n 3 by (intro that[of s' bs']) (simp_all add: ufs_resize_def valid Let_def del: get_fd_Some)
  qed
qed

end
