(* ===== verification/Ufs_Api.thy ===== *)
theory Ufs_Api imports Ufs_Resize begin

text \<open>
  The remaining public operations of Assignment_3/userfs.c: \<open>ufs_open\<close>, \<open>ufs_close\<close>,
  \<open>ufs_delete\<close>, \<open>ufs_shutdown\<close>.
\<close>

definition ufs_open :: "string \<Rightarrow> 32 word \<Rightarrow> ufs \<Rightarrow> (int \<times> ufs) option" where
  "ufs_open filename flags s = do {
     let s = set_err UFS_ERR_NO_ERR s;
     let flags = (if \<not> flag_set flags UFS_READ_WRITE \<and> \<not> flag_set flags UFS_READ_ONLY
                    \<and> \<not> flag_set flags UFS_WRITE_ONLY
                  then flags OR UFS_READ_WRITE else flags);
     cur_file \<leftarrow> ufs_find_file filename s;
     (cur_file, s) \<leftarrow>
       (if cur_file = None \<and> flag_set flags UFS_CREATE then ufs_create_file filename s
        else Some (cur_file, s));
     case cur_file of
       None \<Rightarrow> Some (RETVAL_FAILURE,
         set_err (if ufs_error_code s = UFS_ERR_NO_ERR then UFS_ERR_NO_FILE
                  else ufs_error_code s) s)
     | Some a \<Rightarrow> do {
         (newFd, s) \<leftarrow> ufs_create_fd a flags s;
         if newFd = RETVAL_FAILURE then Some (RETVAL_FAILURE, s)
         else Some (newFd + 1, s)
       }
   }"

definition ufs_close :: "int \<Rightarrow> ufs \<Rightarrow> (int \<times> ufs) option" where
  "ufs_close fd s = do {
     let idx = fd - 1;
     valid \<leftarrow> ufs_check_valid_fd_idx idx s;
     if \<not> valid then Some (RETVAL_FAILURE, set_err UFS_ERR_NO_FILE s)
     else do {
       s \<leftarrow> ufs_delete_fd (nat idx) s;
       Some (RETVAL_SUCCESS, s)
     }
   }"

definition ufs_delete :: "string \<Rightarrow> ufs \<Rightarrow> (int \<times> ufs) option" where
  "ufs_delete filename s = do {
     found \<leftarrow> ufs_find_file filename s;
     case found of
       None \<Rightarrow> Some (RETVAL_FAILURE, set_err UFS_ERR_NO_FILE s)
     | Some a \<Rightarrow> do {
         s \<leftarrow> ufs_mark_file_for_delete a s;
         f \<leftarrow> files s a;
         s \<leftarrow> (if refs f = 0 then ufs_real_delete_file a s else Some s);
         Some (RETVAL_SUCCESS, s)
       }
   }"

text \<open>
  The shutdown closes what is still open and frees the array, whose slots are then no longer
  readable; the static variables keep their values.
\<close>

function ufs_shutdown_loop :: "nat \<Rightarrow> nat \<Rightarrow> ufs \<Rightarrow> ufs option" where
  "ufs_shutdown_loop cap i s =
    (if i < cap then do {
       fd \<leftarrow> fd_slot i s;
       s \<leftarrow> (if fd \<noteq> None then ufs_delete_fd i s else Some s);
       ufs_shutdown_loop cap (i + 1) s
     } else Some s)"
  by pat_completeness auto
termination
  by (relation "measure (\<lambda>(cap, i, s). cap - i)") auto

declare ufs_shutdown_loop.simps [simp del]

definition ufs_shutdown :: "ufs \<Rightarrow> ufs option" where
  "ufs_shutdown s = do {
     s \<leftarrow> ufs_shutdown_loop (file_descriptor_capacity s) 0 s;
     Some (s\<lparr>file_descriptors := []\<rparr>)
   }"

subsection \<open>Open\<close>

lemma fds_wf_create:
  assumes dwf: "fds_wf s B" and c: "files s c = None"
    and core: "\<And>a. a \<noteq> c \<Longrightarrow> map_option file_core (files s' a) = map_option file_core (files s a)"
    and new: "files s' c = Some f" "refs f = 0" "\<not> marked_for_deletion f"
    and same: "file_descriptors s' = file_descriptors s" "file_descriptor_count s' = file_descriptor_count s"
      "file_descriptor_capacity s' = file_descriptor_capacity s"
      "file_descriptors_rr_ptr s' = file_descriptors_rr_ptr s"
  shows "fds_wf s' (B(c := bs))"
proof (rule fds_wfI)
  note D = fds_wfD[OF dwf]
  have other: "fd_file d \<noteq> c" if "Some d \<in> set (file_descriptors s)" for d
    using D(4)[OF that] c by (auto simp: fd_ok_def)
  show "fd_ok s' (B(c := bs)) d" if "Some d \<in> set (file_descriptors s')" for d
  proof -
    have d: "Some d \<in> set (file_descriptors s)" using that same by simp
    from D(4)[OF d] obtain g where g: "files s (fd_file d) = Some g" "total_offset d \<le> total_size g"
      "cur_block d = Some (B (fd_file d) ! (total_offset d div BLOCK_SIZE))" by (auto simp: fd_ok_def)
    from file_core_Some[OF core[OF other[OF d], symmetric] g(1)] obtain h where
      "files s' (fd_file d) = Some h" "file_core g = file_core h" by blast
    then show ?thesis using file_core_eqD(6)[of g h] g(2,3) other[OF d] by (simp add: fd_ok_def)
  qed
  fix x g assume g: "files s' x = Some g"
  have "refs g = int (count_if (on_file x) (file_descriptors s')) \<and> (marked_for_deletion g \<longrightarrow> 0 < refs g)"
  proof (cases "x = c")
    case True
    have "filter (on_file c) (file_descriptors s) = []"
      using other by (auto simp: filter_empty_conv on_file_def split: option.splits)
    with True g new show ?thesis by (simp add: same)
  next
    case False
    from file_core_Some[OF core[OF False] g] obtain h where "files s x = Some h" "file_core g = file_core h" by blast
    then show ?thesis using file_core_eqD(3,5)[of g h] D(5,6)[of x h] by (simp add: same)
  qed
  then show "refs g = int (count_if (on_file x) (file_descriptors s'))" "marked_for_deletion g \<Longrightarrow> 0 < refs g"
    by blast+
qed (use fds_wfD(1-3)[OF dwf] in \<open>simp_all add: same\<close>)

text \<open>The access mode defaults to read and write.\<close>

definition open_flags :: "32 word \<Rightarrow> 32 word" where
  "open_flags flags = (if \<not> flag_set flags UFS_READ_WRITE \<and> \<not> flag_set flags UFS_READ_ONLY
     \<and> \<not> flag_set flags UFS_WRITE_ONLY then flags OR UFS_READ_WRITE else flags)"

lemma flag_set_open_flags:
  "flag_set (open_flags flags) UFS_CREATE = flag_set flags UFS_CREATE"
  "flag_set (open_flags flags) UFS_READ_ONLY = flag_set flags UFS_READ_ONLY"
  "flag_set (open_flags flags) UFS_WRITE_ONLY = flag_set flags UFS_WRITE_ONLY"
  "flag_set (open_flags flags) UFS_READ_WRITE \<longleftrightarrow> flag_set flags UFS_READ_WRITE \<or>
     \<not> flag_set flags UFS_READ_ONLY \<and> \<not> flag_set flags UFS_WRITE_ONLY"
  by (auto simp: open_flags_def flag_set_def bit.conj_disj_distrib2)

lemma ufs_open_cases:
  assumes find: "ufs_find_file nm (set_err UFS_ERR_NO_ERR s) = Some r"
  shows "r = None \<Longrightarrow> \<not> flag_set flags UFS_CREATE \<Longrightarrow>
      ufs_open nm flags s = Some (RETVAL_FAILURE, set_err UFS_ERR_NO_FILE s)"
    and "r = None \<Longrightarrow> flag_set flags UFS_CREATE \<Longrightarrow>
      ufs_create_file nm (set_err UFS_ERR_NO_ERR s) = Some (None, s1) \<Longrightarrow> ufs_error_code s1 \<noteq> UFS_ERR_NO_ERR \<Longrightarrow>
      ufs_open nm flags s = Some (RETVAL_FAILURE, s1)"
    and "r = None \<Longrightarrow> flag_set flags UFS_CREATE \<Longrightarrow>
      ufs_create_file nm (set_err UFS_ERR_NO_ERR s) = Some (Some a, s1) \<Longrightarrow>
      ufs_open nm flags s = do {
        (newFd, s) \<leftarrow> ufs_create_fd a (open_flags flags) s1;
        if newFd = RETVAL_FAILURE then Some (RETVAL_FAILURE, s) else Some (newFd + 1, s) }"
    and "r = Some a \<Longrightarrow> ufs_open nm flags s = do {
        (newFd, s) \<leftarrow> ufs_create_fd a (open_flags flags) (set_err UFS_ERR_NO_ERR s);
        if newFd = RETVAL_FAILURE then Some (RETVAL_FAILURE, s) else Some (newFd + 1, s) }"
  using find
  by (simp_all add: ufs_open_def Let_def flag_set_open_flags(1) flip: open_flags_def)

subsection \<open>Close and delete\<close>

lemma ufs_close_invalid:
  assumes "fds_wf s B" "\<not> (0 < fdN \<and> get_fd (nat (fdN - 1)) s \<noteq> None)"
  shows "ufs_close fdN s = Some (RETVAL_FAILURE, set_err UFS_ERR_NO_FILE s)"
  using assms(2) by (auto simp: ufs_close_def Let_def check_valid_wf[OF assms(1)] simp del: get_fd_Some)

text \<open>
  What taking away a reference to the file \<open>a\<close> leaves: when it was the last one the file and its
  blocks are gone, otherwise the file stays with its blocks.
\<close>

definition drop_post :: "ufs \<Rightarrow> (addr \<Rightarrow> addr list) \<Rightarrow> addr \<Rightarrow> bool \<Rightarrow> ufs_file \<Rightarrow> ufs \<Rightarrow> bool" where
  "drop_post s B a gone f' s' \<longleftrightarrow>
     (if gone then files s' a = None \<and> blocks s' = blocks s |` (- set (B a))
      else files s' a = Some f' \<and> blocks s' = blocks s) \<and>
     (\<forall>x. x \<noteq> a \<longrightarrow> map_option file_core (files s' x) = map_option file_core (files s x)) \<and>
     calloc_ok s' = calloc_ok s \<and> ufs_error_code s' = ufs_error_code s"

lemma ufs_close_wf:
  assumes wf: "ufs_wf s fs B" and fd: "get_fd i s = Some fd" and a: "files s (fd_file fd) = Some f"
  obtains s' fs' where "ufs_close (int i + 1) s = Some (RETVAL_SUCCESS, s')" "ufs_wf s' fs' B"
    "\<forall>j. get_fd j s' = (if j = i then None else get_fd j s)"
    "drop_post s B (fd_file fd) (marked_for_deletion f \<and> refs f = 1) (f\<lparr>refs := refs f - 1\<rparr>) s'"
proof -
  from wf have dwf: "fds_wf s B" by (simp add: ufs_wf_def)
  from ufs_delete_fd_wf[OF wf fd a] obtain s' fs' where s': "ufs_delete_fd i s = Some s'" "ufs_wf s' fs' B"
    "\<And>j. get_fd j s' = (if j = i then None else get_fd j s)"
    "if marked_for_deletion f \<and> refs f = 1
     then files s' (fd_file fd) = None \<and> blocks s' = blocks s |` (- set (B (fd_file fd)))
     else files s' (fd_file fd) = Some (f\<lparr>refs := refs f - 1\<rparr>) \<and> blocks s' = blocks s"
    "\<And>x. x \<noteq> fd_file fd \<Longrightarrow> map_option file_core (files s' x) = map_option file_core (files s x)"
    "calloc_ok s' = calloc_ok s" "ufs_error_code s' = ufs_error_code s"
    by blast
  have "ufs_close (int i + 1) s = Some (RETVAL_SUCCESS, s')"
    using fd s'(1) by (simp add: ufs_close_def check_valid_wf[OF dwf] Let_def del: get_fd_Some)
  then show thesis using s'(2) by (rule that) (use s'(3) in simp, use s'(4-7) in \<open>simp add: drop_post_def\<close>)
qed

lemma ufs_delete_missing:
  assumes "files_wf s fs B" "\<And>a. \<not> openable s nm a"
  shows "ufs_delete nm s = Some (RETVAL_FAILURE, set_err UFS_ERR_NO_FILE s)"
  using assms(2) ufs_find_file_wf[OF assms(1), of nm]
  by (metis (no_types, lifting) Option.bind.bind_lunit not_None_eq option.simps(4) ufs_delete_def)

lemma ufs_delete_wf:
  assumes wf: "ufs_wf s fs B" and op: "openable s nm a" and a: "files s a = Some f"
  obtains s' fs' where "ufs_delete nm s = Some (RETVAL_SUCCESS, s')" "ufs_wf s' fs' B"
    "file_descriptors s' = file_descriptors s"
    "drop_post s B a (refs f = 0) (f\<lparr>marked_for_deletion := True\<rparr>) s'"
proof -
  let ?f = "f\<lparr>marked_for_deletion := True\<rparr>"
  let ?s = "set_file a ?f s"
  from wf have fwf: "files_wf s fs B" and dwf: "fds_wf s B" by (simp_all add: ufs_wf_def)
  from ufs_find_file_wf[OF fwf, of nm] op have find: "ufs_find_file nm s = Some (Some a)" by metis
  have fwf1: "files_wf ?s fs B" by (rule files_wf_set_file[OF fwf a]) simp_all
  have a1: "files ?s a = Some ?f" by (simp add: set_file_def)
  have mark: "ufs_mark_file_for_delete a s = Some ?s" using a by (simp add: ufs_mark_file_for_delete_def upd_file_def)
  note D = fds_wfD[OF dwf]
  show thesis
  proof (cases "refs f = 0")
    case False
    have "fds_wf ?s B"
    proof (rule fds_wfI)
      show "fd_ok ?s B d" if "Some d \<in> set (file_descriptors ?s)" for d
        using D(4)[of d] that a by (auto simp: set_file_def fd_ok_def)
      fix x g assume g: "files ?s x = Some g"
      show "refs g = int (count_if (on_file x) (file_descriptors ?s))"
        using g D(5)[of x g] D(5)[OF a] by (auto simp: set_file_def split: if_splits)
      show "0 < refs g" if "marked_for_deletion g"
        using g that False D(5)[OF a] D(6)[of x g] by (auto simp: set_file_def split: if_splits)
    qed (use D(1-3) in \<open>simp_all add: set_file_def\<close>)
    with fwf1 have "ufs_wf ?s fs B" by (simp add: ufs_wf_def)
    moreover have "ufs_delete nm s = Some (RETVAL_SUCCESS, ?s)"
      using find mark a1 False by (simp add: ufs_delete_def)
    ultimately show thesis
      using False by (intro that[of ?s fs]) (simp_all add: drop_post_def, simp_all add: set_file_def)
  next
    case True
    from files_wf_real_delete[OF fwf1 a1] obtain s2 where s2: "ufs_real_delete_file a ?s = Some s2"
      "files_wf s2 (remove1 a fs) B" "blocks s2 = blocks ?s |` (- set (B a))" "files s2 a = None"
      "\<And>x. x \<noteq> a \<Longrightarrow> map_option file_core (files s2 x) = map_option file_core (files ?s x)"
      "s2 = ?s\<lparr>blocks := blocks s2, files := files s2, file_list := file_list s2,
         file_list_last := file_list_last s2\<rparr>" by blast
    have fields: "file_descriptors s2 = file_descriptors s" "calloc_ok s2 = calloc_ok s"
      "ufs_error_code s2 = ufs_error_code s" "file_descriptor_count s2 = file_descriptor_count s"
      "file_descriptor_capacity s2 = file_descriptor_capacity s"
      "file_descriptors_rr_ptr s2 = file_descriptors_rr_ptr s"
      by (subst s2(6), simp add: set_file_def)+
    have core: "map_option file_core (files s2 x) = map_option file_core (files s x)" if "x \<noteq> a" for x
      using s2(5)[OF that] that by (simp add: set_file_def)
    have none: "fd_file d \<noteq> a" if "Some d \<in> set (file_descriptors s)" for d
      using D(5)[OF a] True count_if_pos[OF that, of "on_file a"] by auto
    have "fds_wf s2 B"
    proof (rule fds_wf_update[OF dwf])
      fix x g assume g: "files s2 x = Some g"
      then have "x \<noteq> a" using s2(4) by auto
      from file_core_Some[OF core[OF this] g] obtain h where "files s x = Some h" "file_core g = file_core h" by blast
      then show "\<exists>f. files s x = Some f \<and> refs g = refs f \<and> marked_for_deletion g = marked_for_deletion f"
        using file_core_eqD(3,5)[of g h] by simp
    next
      fix d assume "Some d \<in> set (file_descriptors s2)"
      then have d: "Some d \<in> set (file_descriptors s)" by (simp add: fields)
      from D(4)[OF d] obtain g where g: "files s (fd_file d) = Some g" "total_offset d \<le> total_size g"
        "cur_block d = Some (B (fd_file d) ! (total_offset d div BLOCK_SIZE))" by (auto simp: fd_ok_def)
      from file_core_Some[OF core[OF none[OF d], symmetric] g(1)] obtain h where
        "files s2 (fd_file d) = Some h" "file_core g = file_core h" by blast
      then show "fd_ok s2 B d" using file_core_eqD(6)[of g h] g(2,3) by (simp add: fd_ok_def)
    qed (simp_all add: fields)
    moreover have "ufs_delete nm s = Some (RETVAL_SUCCESS, s2)"
      using find mark a1 True s2(1) by (simp add: ufs_delete_def)
    ultimately show thesis using True s2(2-4) core fields
      by (intro that[of s2 "remove1 a fs"]) (simp_all add: ufs_wf_def drop_post_def, simp add: set_file_def)
  qed
qed

text \<open>A call of the interface, for statements about sequences of calls.\<close>

datatype ufs_call =
    Open string "32 word"
  | Write int "byte list"
  | Read int nat
  | Close int
  | Delete string
  | Resize int nat

fun ufs_exec :: "ufs_call \<Rightarrow> ufs \<Rightarrow> ((int \<times> byte list) \<times> ufs) option" where
  "ufs_exec (Open nm flags) s = do { (r, s) \<leftarrow> ufs_open nm flags s; Some ((r, []), s) }"
| "ufs_exec (Write fd buf) s = do { (r, s) \<leftarrow> ufs_write fd buf s; Some ((r, []), s) }"
| "ufs_exec (Read fd n) s = do { (r, out, s) \<leftarrow> ufs_read fd n s; Some ((r, out), s) }"
| "ufs_exec (Close fd) s = do { (r, s) \<leftarrow> ufs_close fd s; Some ((r, []), s) }"
| "ufs_exec (Delete nm) s = do { (r, s) \<leftarrow> ufs_delete nm s; Some ((r, []), s) }"
| "ufs_exec (Resize fd n) s = do { (r, s) \<leftarrow> ufs_resize fd n s; Some ((r, []), s) }"

end
