(* ===== verification/Refinement.thy ===== *)
theory Refinement imports Prelude begin

text \<open>
  The interface between an implementation and its specification.  A component offers calls
  \<open>exec c s\<close>; \<open>exec\<close> may be undefined (\<open>None\<close>).  Its specification is a relation on
  abstract states.  The contract says that a call that is allowed in a well-formed state is defined,
  keeps the state well-formed, and does what the specification says.  What follows for
  sequences of calls is proved here once.
\<close>

text \<open>Running a list of calls, with the results.\<close>

fun run_all :: "('c \<Rightarrow> 's \<Rightarrow> ('r \<times> 's) option) \<Rightarrow> 'c list \<Rightarrow> 's \<Rightarrow> ('r list \<times> 's) option" where
  "run_all exec [] s = Some ([], s)"
| "run_all exec (c # cs) s = do {
     (r, s) \<leftarrow> exec c s;
     (rs, s) \<leftarrow> run_all exec cs s;
     Some (r # rs, s)
   }"

text \<open>Each call is allowed in the state it is made in.\<close>

fun all_ok :: "('c \<Rightarrow> 's \<Rightarrow> ('r \<times> 's) option) \<Rightarrow> ('c \<Rightarrow> 's \<Rightarrow> bool) \<Rightarrow> 'c list \<Rightarrow> 's \<Rightarrow> bool" where
  "all_ok exec ok [] s = True"
| "all_ok exec ok (c # cs) s \<longleftrightarrow> ok c s \<and>
     (case exec c s of None \<Rightarrow> True | Some (r, s) \<Rightarrow> all_ok exec ok cs s)"

fun spec_run :: "('c \<Rightarrow> 'a \<Rightarrow> 'r \<Rightarrow> 'a \<Rightarrow> bool) \<Rightarrow> 'c list \<Rightarrow> 'a \<Rightarrow> 'r list \<Rightarrow> 'a \<Rightarrow> bool" where
  "spec_run spec [] A rs A' \<longleftrightarrow> rs = [] \<and> A' = A"
| "spec_run spec (c # cs) A rs A' \<longleftrightarrow>
     (\<exists>r rs' A1. rs = r # rs' \<and> spec c A r A1 \<and> spec_run spec cs A1 rs' A')"

locale refines =
  fixes exec :: "'c \<Rightarrow> 's \<Rightarrow> ('r \<times> 's) option"
    and inv :: "'s \<Rightarrow> bool"
    and ok :: "'c \<Rightarrow> 's \<Rightarrow> bool"
    and abs :: "'s \<Rightarrow> 'a"
    and spec :: "'c \<Rightarrow> 'a \<Rightarrow> 'r \<Rightarrow> 'a \<Rightarrow> bool"
  assumes step: "inv s \<Longrightarrow> ok c s \<Longrightarrow> \<exists>r s'. exec c s = Some (r, s') \<and> inv s' \<and> spec c (abs s) r (abs s')"
begin

lemma run_refines:
  "inv s \<Longrightarrow> all_ok exec ok cs s \<Longrightarrow>
   \<exists>rs s'. run_all exec cs s = Some (rs, s') \<and> inv s' \<and> spec_run spec cs (abs s) rs (abs s')"
proof (induction cs arbitrary: s)
  case (Cons c cs)
  from Cons.prems(2) have "ok c s" by simp
  from step[OF Cons.prems(1) this] obtain r s1 where
    1: "exec c s = Some (r, s1)" "inv s1" "spec c (abs s) r (abs s1)" by blast
  with Cons.prems(2) have "all_ok exec ok cs s1" by simp
  from Cons.IH[OF 1(2) this] obtain rs s2 where
    "run_all exec cs s1 = Some (rs, s2)" "inv s2" "spec_run spec cs (abs s1) rs (abs s2)" by blast
  with 1 show ?case by auto
qed simp

text \<open>A property of abstract states that every specified step keeps holds along a run.\<close>

lemma run_invariant:
  assumes "inv s" "all_ok exec ok cs s" "P (abs s)"
    and "\<And>c A r A'. P A \<Longrightarrow> spec c A r A' \<Longrightarrow> P A'"
  shows "\<exists>rs s'. run_all exec cs s = Some (rs, s') \<and> P (abs s')"
proof -
  have "spec_run spec cs A rs A' \<Longrightarrow> P A \<Longrightarrow> P A'" for A rs A'
    using assms(4) by (induction cs arbitrary: A rs) auto
  with run_refines[OF assms(1,2)] assms(3) show ?thesis by blast
qed

end

end
