(* ===== verification/Ufs_Spec.thy ===== *)
theory Ufs_Spec imports Ufs_Api Refinement begin

text \<open>
  What the file system of Assignment_3 promises (userfs.h), with no blocks, lists or descriptor
  array: names are bound to files, files are byte strings, descriptors are positions in them.
  \<open>fs_of\<close> reads this off a concrete state; the lemmas show that every public operation
  of userfs.c does to \<open>fs_of s\<close> what the specification says.
\<close>

record handle =
  h_file :: addr
  h_read :: bool
  h_write :: bool
  h_pos :: nat

record fs =
  dir :: "string \<rightharpoonup> addr"
  data :: "addr \<rightharpoonup> byte list"
  handles :: "nat \<rightharpoonup> handle"
  fs_errno :: ufs_error_code

definition handle_of :: "filedesc \<Rightarrow> handle" where
  "handle_of fd = \<lparr>h_file = fd_file fd, h_read = read_allowed fd, h_write = write_allowed fd,
     h_pos = total_offset fd\<rparr>"

lemma handle_of_simps [simp]:
  "h_file (handle_of fd) = fd_file fd" "h_read (handle_of fd) = read_allowed fd"
  "h_write (handle_of fd) = write_allowed fd" "h_pos (handle_of fd) = total_offset fd"
  by (simp_all add: handle_of_def)

lemma handle_of_seek: "handle_of (seek fd bs off) = (handle_of fd)\<lparr>h_pos := off\<rparr>"
  by (simp add: handle_of_def)

definition chain :: "(addr \<rightharpoonup> block) \<Rightarrow> ufs_file \<Rightarrow> addr list" where
  "chain h f = follow (total_size f div BLOCK_SIZE + 1) blk_next h (block_list f)"

definition fs_of :: "ufs \<Rightarrow> fs" where
  "fs_of s = \<lparr>dir = (\<lambda>nm. case ufs_find_file nm s of Some r \<Rightarrow> r | None \<Rightarrow> None),
     data = (\<lambda>a. map_option (\<lambda>f. contents (blocks s) f (chain (blocks s) f)) (files s a)),
     handles = (\<lambda>i. map_option handle_of (get_fd i s)), fs_errno = ufs_errno s\<rparr>"

subsection \<open>The operations\<close>

text \<open>A descriptor number \<open>fdN\<close> of the interface stands for the handle \<open>fdN - 1\<close>.\<close>

definition lookup :: "int \<Rightarrow> fs \<Rightarrow> handle option" where
  "lookup fdN A = (if 0 < fdN then handles A (nat (fdN - 1)) else None)"

definition set_handle :: "int \<Rightarrow> handle option \<Rightarrow> fs \<Rightarrow> fs" where
  "set_handle fdN h A = A\<lparr>handles := (handles A)(nat (fdN - 1) := h)\<rparr>"

definition fs_fail :: "ufs_error_code \<Rightarrow> fs \<Rightarrow> (int \<times> byte list) \<times> fs" where
  "fs_fail e A = ((RETVAL_FAILURE, []), A\<lparr>fs_errno := e\<rparr>)"

definition data_at :: "addr \<Rightarrow> fs \<Rightarrow> byte list" where
  "data_at a A = (case data A a of None \<Rightarrow> [] | Some c \<Rightarrow> c)"

definition fs_write :: "int \<Rightarrow> byte list \<Rightarrow> fs \<Rightarrow> (int \<times> byte list) \<times> fs" where
  "fs_write fdN buf A = (case lookup fdN A of
     None \<Rightarrow> fs_fail UFS_ERR_NO_FILE A
   | Some h \<Rightarrow>
       if \<not> h_write h then fs_fail UFS_ERR_NO_PERMISSION A
       else if MAX_FILE_SIZE < h_pos h + length buf then fs_fail UFS_ERR_NO_MEM A
       else ((int (length buf), []),
         set_handle fdN (Some (h\<lparr>h_pos := h_pos h + length buf\<rparr>))
           (A\<lparr>data := (data A)(h_file h \<mapsto> blit (h_pos h) buf (data_at (h_file h) A))\<rparr>)))"

definition fs_read :: "int \<Rightarrow> nat \<Rightarrow> fs \<Rightarrow> (int \<times> byte list) \<times> fs" where
  "fs_read fdN n A = (case lookup fdN A of
     None \<Rightarrow> fs_fail UFS_ERR_NO_FILE A
   | Some h \<Rightarrow>
       if \<not> h_read h then fs_fail UFS_ERR_NO_PERMISSION A
       else let out = take n (drop (h_pos h) (data_at (h_file h) A)) in
         ((int (length out), out), set_handle fdN (Some (h\<lparr>h_pos := h_pos h + length out\<rparr>)) A))"

definition fs_resize :: "int \<Rightarrow> nat \<Rightarrow> fs \<Rightarrow> (int \<times> byte list) \<times> fs" where
  "fs_resize fdN n A = (case lookup fdN A of
     None \<Rightarrow> fs_fail UFS_ERR_NO_FILE A
   | Some h \<Rightarrow>
       if MAX_FILE_SIZE < n then fs_fail UFS_ERR_NO_MEM A
       else ((RETVAL_SUCCESS, []), A\<lparr>data := (data A)(h_file h \<mapsto> resized n (data_at (h_file h) A)),
         handles := (\<lambda>i. map_option (\<lambda>g. if h_file g = h_file h then g\<lparr>h_pos := min (h_pos g) n\<rparr> else g)
           (handles A i))\<rparr>))"

text \<open>A file that no name and no handle refers to is gone.\<close>

definition referred :: "addr \<Rightarrow> fs \<Rightarrow> bool" where
  "referred a A \<longleftrightarrow> (\<exists>nm. dir A nm = Some a) \<or> (\<exists>i h. handles A i = Some h \<and> h_file h = a)"

definition reap :: "addr \<Rightarrow> fs \<Rightarrow> fs" where
  "reap a A = (if referred a A then A else A\<lparr>data := (data A)(a := None)\<rparr>)"

definition fs_close :: "int \<Rightarrow> fs \<Rightarrow> (int \<times> byte list) \<times> fs" where
  "fs_close fdN A = (case lookup fdN A of
     None \<Rightarrow> fs_fail UFS_ERR_NO_FILE A
   | Some h \<Rightarrow> ((RETVAL_SUCCESS, []), reap (h_file h) (set_handle fdN None A)))"

definition fs_delete :: "string \<Rightarrow> fs \<Rightarrow> (int \<times> byte list) \<times> fs" where
  "fs_delete nm A = (case dir A nm of
     None \<Rightarrow> fs_fail UFS_ERR_NO_FILE A
   | Some a \<Rightarrow> ((RETVAL_SUCCESS, []), reap a (A\<lparr>dir := (dir A)(nm := None)\<rparr>)))"

text \<open>
  Opening may pick any free handle and any unused file, and may fail for want of memory, before
  or after it has created the file.
\<close>

definition opened :: "addr \<Rightarrow> 32 word \<Rightarrow> handle" where
  "opened a flags =
    (let rw = flag_set flags UFS_READ_WRITE \<or>
           \<not> flag_set flags UFS_READ_ONLY \<and> \<not> flag_set flags UFS_WRITE_ONLY
     in \<lparr>h_file = a, h_read = (flag_set flags UFS_READ_ONLY \<or> rw),
         h_write = (flag_set flags UFS_WRITE_ONLY \<or> rw), h_pos = 0\<rparr>)"

definition fs_create :: "string \<Rightarrow> addr \<Rightarrow> fs \<Rightarrow> fs" where
  "fs_create nm a A = A\<lparr>dir := (dir A)(nm \<mapsto> a), data := (data A)(a \<mapsto> [])\<rparr>"

inductive fs_find :: "string \<Rightarrow> 32 word \<Rightarrow> fs \<Rightarrow> addr \<Rightarrow> fs \<Rightarrow> bool" for nm flags A where
  found: "dir A nm = Some a \<Longrightarrow> fs_find nm flags A a A"
| created: "dir A nm = None \<Longrightarrow> flag_set flags UFS_CREATE \<Longrightarrow> data A a = None \<Longrightarrow>
    fs_find nm flags A a (fs_create nm a A)"

inductive fs_open :: "string \<Rightarrow> 32 word \<Rightarrow> fs \<Rightarrow> int \<Rightarrow> fs \<Rightarrow> bool" for nm flags A where
  no_file: "dir A nm = None \<Longrightarrow> \<not> flag_set flags UFS_CREATE \<Longrightarrow>
    fs_open nm flags A RETVAL_FAILURE (A\<lparr>fs_errno := UFS_ERR_NO_FILE\<rparr>)"
| no_mem_file: "dir A nm = None \<Longrightarrow> flag_set flags UFS_CREATE \<Longrightarrow>
    fs_open nm flags A RETVAL_FAILURE (A\<lparr>fs_errno := UFS_ERR_NO_MEM\<rparr>)"
| no_mem_fd: "fs_find nm flags A a A' \<Longrightarrow>
    fs_open nm flags A RETVAL_FAILURE (A'\<lparr>fs_errno := UFS_ERR_NO_MEM\<rparr>)"
| opened: "fs_find nm flags A a A' \<Longrightarrow> handles A i = None \<Longrightarrow>
    fs_open nm flags A (int i + 1)
      (A'\<lparr>handles := (handles A')(i \<mapsto> opened a flags), fs_errno := UFS_ERR_NO_ERR\<rparr>)"

fun fs_exec :: "ufs_call \<Rightarrow> fs \<Rightarrow> int \<times> byte list \<Rightarrow> fs \<Rightarrow> bool" where
  "fs_exec (Open nm flags) A r A' \<longleftrightarrow> snd r = [] \<and> fs_open nm flags A (fst r) A'"
| "fs_exec (Write fd buf) A r A' \<longleftrightarrow> (r, A') = fs_write fd buf A"
| "fs_exec (Read fd n) A r A' \<longleftrightarrow> (r, A') = fs_read fd n A"
| "fs_exec (Close fd) A r A' \<longleftrightarrow> (r, A') = fs_close fd A"
| "fs_exec (Delete nm) A r A' \<longleftrightarrow> (r, A') = fs_delete nm A"
| "fs_exec (Resize fd n) A r A' \<longleftrightarrow> (r, A') = fs_resize fd n A"

subsection \<open>Reading the specification's state off a well-formed one\<close>

lemma chain_layout:
  assumes "layout h f bs" "length bs = total_size f div BLOCK_SIZE + 1"
  shows "chain h f = bs"
  using assms by (auto simp: chain_def layout_def intro!: follow_dseg)

lemma dir_fs_of: "files_wf s fs B \<Longrightarrow> dir (fs_of s) nm = Some a \<longleftrightarrow> openable s nm a"
  by (erule ufs_find_file_wf[of s fs B nm]) (simp add: fs_of_def)

lemma data_fs_of:
  assumes wf: "files_wf s fs B"
  shows "data (fs_of s) a = map_option (\<lambda>f. contents (blocks s) f (B a)) (files s a)"
proof (cases "files s a")
  case (Some f)
  from files_wfD(4)[OF wf Some] have "chain (blocks s) f = B a"
    by (intro chain_layout[OF files_wfD(3)[OF wf Some]]) (simp add: size_ok_def)
  then show ?thesis by (simp add: fs_of_def Some)
qed (simp add: fs_of_def)

lemma handles_fs_of: "handles (fs_of s) i = map_option handle_of (get_fd i s)"
  by (simp add: fs_of_def)

lemma errno_fs_of: "fs_errno (fs_of s) = ufs_error_code s"
  by (simp add: fs_of_def ufs_errno_def)

lemma option_eqI: "(\<And>a. x = Some a \<longleftrightarrow> y = Some a) \<Longrightarrow> x = y"
  by (cases x; cases y) auto

lemma fs_of_eqI:
  assumes wf: "files_wf s fs B" and dir: "\<And>nm a. openable s nm a \<longleftrightarrow> dir A nm = Some a"
    and data: "\<And>a. map_option (\<lambda>f. contents (blocks s) f (B a)) (files s a) = data A a"
    and handles: "\<And>i. map_option handle_of (get_fd i s) = handles A i"
    and errno: "ufs_error_code s = fs_errno A"
  shows "fs_of s = A"
proof (rule fs.equality)
  show "dir (fs_of s) = dir A" by (intro ext option_eqI) (simp add: dir_fs_of[OF wf] dir)
  show "data (fs_of s) = data A" by (intro ext) (simp add: data_fs_of[OF wf] data)
  show "handles (fs_of s) = handles A" by (intro ext) (simp add: handles_fs_of handles)
qed (simp_all add: errno_fs_of errno)

text \<open>An operation on one file's bytes.\<close>

lemma fs_of_update:
  assumes wf: "files_wf s fs B" "files_wf s' fs (B(a := bs'))" and a: "files s a = Some f"
    and f': "files s' = (files s)(a \<mapsto> f')" "fname f' = fname f" "marked_for_deletion f' = marked_for_deletion f"
    and frame: "\<And>x b. x \<in> set fs \<Longrightarrow> x \<noteq> a \<Longrightarrow> b \<in> set (B x) \<Longrightarrow> blocks s' b = blocks s b"
    and err: "ufs_error_code s' = ufs_error_code s"
  shows "fs_of s' = (fs_of s)\<lparr>data := (data (fs_of s))(a \<mapsto> contents (blocks s') f' bs'),
    handles := \<lambda>i. map_option handle_of (get_fd i s')\<rparr>"
proof (rule fs_of_eqI[OF wf(2)])
  fix x nm
  show "openable s' nm x \<longleftrightarrow> dir ((fs_of s)\<lparr>data := (data (fs_of s))(a \<mapsto> contents (blocks s') f' bs'),
      handles := \<lambda>i. map_option handle_of (get_fd i s')\<rparr>) nm = Some x"
    using a f' by (auto simp: dir_fs_of[OF wf(1)] openable_def)
  have "contents (blocks s') g (B x) = contents (blocks s) g (B x)" if "files s x = Some g" "x \<noteq> a" for g
  proof -
    have "x \<in> set fs" using files_wfD(2)[OF wf(1)] that(1) by auto
    with frame that show ?thesis by (intro contents_cong) auto
  qed
  then show "map_option (\<lambda>f. contents (blocks s') f ((B(a := bs')) x)) (files s' x) =
      data ((fs_of s)\<lparr>data := (data (fs_of s))(a \<mapsto> contents (blocks s') f' bs'),
        handles := \<lambda>i. map_option handle_of (get_fd i s')\<rparr>) x"
    by (cases "files s x") (auto simp: f'(1) data_fs_of[OF wf(1)])
qed (simp_all add: err errno_fs_of)

text \<open>An operation that only fails.\<close>

lemma fs_of_same:
  assumes wf: "files_wf s fs B" and same: "blocks s' = blocks s" "files s' = files s" "file_list s' = file_list s"
    "file_list_last s' = file_list_last s" "file_descriptors s' = file_descriptors s"
    and cc: "calloc_count s \<le> calloc_count s'"
  shows "fs_of s' = (fs_of s)\<lparr>fs_errno := ufs_error_code s'\<rparr>"
proof (rule fs_of_eqI)
  show "files_wf s' fs B" using wf same(1-4) cc by (intro files_wf_cong[of s' s fs B])
qed (simp_all add: same openable_def dir_fs_of[OF wf] data_fs_of[OF wf] handles_fs_of get_fd_cong[OF same(5)])

lemma fs_of_err: "ufs_wf s fs B \<Longrightarrow> fs_of (set_err e s) = (fs_of s)\<lparr>fs_errno := e\<rparr>"
  using fs_of_same[of s fs B "set_err e s"] by (simp add: ufs_wf_def set_err_def)

lemma lookup_fs_of: "lookup fdN (fs_of s) = (if 0 < fdN then map_option handle_of (get_fd (nat (fdN - 1)) s) else None)"
  by (simp add: lookup_def handles_fs_of)

lemma lookup_Some: "lookup fdN (fs_of s) = Some h \<Longrightarrow>
    \<exists>fd. 0 < fdN \<and> get_fd (nat (fdN - 1)) s = Some fd \<and> h = handle_of fd \<and> fdN = int (nat (fdN - 1)) + 1"
  by (auto simp: lookup_fs_of split: if_splits simp del: get_fd_Some)

lemma lookup_None: "lookup fdN (fs_of s) = None \<Longrightarrow> \<not> (0 < fdN \<and> get_fd (nat (fdN - 1)) s \<noteq> None)"
  by (cases "get_fd (nat (fdN - 1)) s") (simp_all add: lookup_fs_of del: get_fd_Some split: if_splits)

lemma fds_wf_file: "fds_wf s B \<Longrightarrow> get_fd i s = Some fd \<Longrightarrow> \<exists>f. files s (fd_file fd) = Some f"
  using fds_wf_get[of s B i fd] by (auto simp: fd_ok_def)

lemma data_at_fs_of: "files_wf s fs B \<Longrightarrow> files s a = Some f \<Longrightarrow> data_at a (fs_of s) = contents (blocks s) f (B a)"
  by (simp add: data_at_def data_fs_of)

subsection \<open>Write, read and resize\<close>

definition write_blocks :: "int \<Rightarrow> nat \<Rightarrow> ufs \<Rightarrow> nat" where
  "write_blocks fdN n s = (case get_fd (nat (fdN - 1)) s of None \<Rightarrow> 0 | Some fd \<Rightarrow>
     (total_offset fd + n) div BLOCK_SIZE - total_size (the (files s (fd_file fd))) div BLOCK_SIZE)"

lemma ufs_write_refines:
  assumes wf: "ufs_wf s fs B" and len: "length buf < SIZE_T - MAX_FILE_SIZE"
    and mem: "mem_for (2 * write_blocks fdN (length buf) s) s"
  obtains r s' B' where "ufs_write fdN buf s = Some (r, s')" "ufs_wf s' fs B'"
    "((r, []), fs_of s') = fs_write fdN buf (fs_of s)" "calloc_ok s' = calloc_ok s"
proof -
  from wf have fwf: "files_wf s fs B" and dwf: "fds_wf s B" by (simp_all add: ufs_wf_def)
  note errors = ufs_write_errors[OF dwf]
  show thesis
  proof (cases "lookup fdN (fs_of s)")
    case None
    show thesis
      by (rule that[OF errors(1)[OF lookup_None[OF None]] ufs_wf_err[OF wf]])
        (simp_all add: fs_write_def None fs_fail_def fs_of_err[OF wf])
  next
    case (Some h)
    let ?i = "nat (fdN - 1)"
    from lookup_Some[OF Some] obtain fd where fd: "0 < fdN" "get_fd ?i s = Some fd" and h: "h = handle_of fd"
      and N: "fdN = int ?i + 1" by blast
    from fds_wf_file[OF dwf fd(2)] obtain f where f: "files s (fd_file fd) = Some f" by blast
    consider "\<not> write_allowed fd" | "write_allowed fd" "MAX_FILE_SIZE < total_offset fd + length buf"
      | "write_allowed fd" "total_offset fd + length buf \<le> MAX_FILE_SIZE" by linarith
    then show thesis
    proof cases
      case 1
      show thesis
        by (rule that[OF errors(2)[OF fd 1] ufs_wf_err[OF wf]])
          (simp_all add: fs_write_def Some h 1 fs_fail_def fs_of_err[OF wf])
    next
      case 2
      have "total_offset fd \<le> MAX_FILE_SIZE"
        using fds_wf_get[OF dwf fd(2)] files_wfD(4)[OF fwf f] f by (auto simp: fd_ok_def size_ok_def)
      then have "total_offset fd + length buf < SIZE_T" using len by simp
      from that[OF errors(3)[OF fd 2 this] ufs_wf_err[OF wf]] show thesis
        by (simp add: fs_write_def Some h 2 fs_fail_def fs_of_err[OF wf])
    next
      case 3
      have "mem_for (2 * ((total_offset fd + length buf) div BLOCK_SIZE - total_size f div BLOCK_SIZE)) s"
        using mem fd(2) f by (simp add: write_blocks_def del: get_fd_Some)
      from ufs_write_wf[OF wf fd(2) f 3 this] obtain s' bs' where
        run: "ufs_write fdN buf s = Some (int (length buf), s')"
        and post: "write_post s fs B ?i fd f buf s' bs'" unfolding N[symmetric] by blast
      define f' where "f' = f\<lparr>last_block := Some (last bs'), total_size := max (total_size f) (total_offset fd + length buf)\<rparr>"
      note P = post[unfolded write_post_def Let_def, folded f'_def]
      have wf': "ufs_wf s' fs (B(fd_file fd := bs'))" and f': "files s' = (files s)(fd_file fd \<mapsto> f')"
        and c: "contents (blocks s') f' bs' = blit (total_offset fd) buf (contents (blocks s) f (B (fd_file fd)))"
        and get: "\<And>j. get_fd j s' = (if j = ?i then Some (seek fd bs' (total_offset fd + length buf)) else get_fd j s)"
        and frame: "\<And>x b. x \<in> set fs \<Longrightarrow> x \<noteq> fd_file fd \<Longrightarrow> b \<in> set (B x) \<Longrightarrow> blocks s' b = blocks s b"
        and err: "ufs_error_code s' = ufs_error_code s" and mem': "calloc_ok s' = calloc_ok s"
        using P by blast+
      have fwf': "files_wf s' fs (B(fd_file fd := bs'))" using wf' by (simp add: ufs_wf_def)
      have "(\<lambda>i. map_option handle_of (get_fd i s')) =
          (handles (fs_of s))(?i \<mapsto> (handle_of fd)\<lparr>h_pos := total_offset fd + length buf\<rparr>)"
        by (simp add: fun_eq_iff get handles_fs_of handle_of_seek)
      then have "fs_of s' = (fs_of s)\<lparr>data := (data (fs_of s))(fd_file fd \<mapsto> contents (blocks s') f' bs'),
          handles := (handles (fs_of s))(?i \<mapsto> (handle_of fd)\<lparr>h_pos := total_offset fd + length buf\<rparr>)\<rparr>"
        using fs_of_update[OF fwf fwf' f f' _ _ frame err] by (simp add: f'_def)
      then have "((int (length buf), []), fs_of s') = fs_write fdN buf (fs_of s)"
        using 3 by (simp add: fs_write_def Some h data_at_fs_of[OF fwf f] c set_handle_def)
      with run wf' show thesis using mem' by (rule that)
    qed
  qed
qed

text \<open>A read, unless it ends at the end of a file whose last block is full.\<close>

definition read_in_step :: "int \<Rightarrow> nat \<Rightarrow> ufs \<Rightarrow> bool" where
  "read_in_step fdN n s = (case get_fd (nat (fdN - 1)) s of None \<Rightarrow> True | Some fd \<Rightarrow>
     \<not> ends_on_full_block fd (the (files s (fd_file fd))) n)"

lemma ufs_read_refines:
  assumes wf: "ufs_wf s fs B" and n: "read_in_step fdN n s"
  obtains r out s' where "ufs_read fdN n s = Some (r, out, s')" "ufs_wf s' fs B"
    "((r, out), fs_of s') = fs_read fdN n (fs_of s)" "calloc_ok s' = calloc_ok s"
proof -
  from wf have fwf: "files_wf s fs B" and dwf: "fds_wf s B" by (simp_all add: ufs_wf_def)
  note errors = ufs_read_errors[OF dwf]
  show thesis
  proof (cases "lookup fdN (fs_of s)")
    case None
    show thesis
      by (rule that[OF errors(1)[OF lookup_None[OF None]] ufs_wf_err[OF wf]])
        (simp_all add: fs_read_def None fs_fail_def fs_of_err[OF wf])
  next
    case (Some h)
    let ?i = "nat (fdN - 1)"
    from lookup_Some[OF Some] obtain fd where fd: "0 < fdN" "get_fd ?i s = Some fd" and h: "h = handle_of fd"
      and N: "fdN = int ?i + 1" by blast
    from fds_wf_file[OF dwf fd(2)] obtain f where f: "files s (fd_file fd) = Some f" by blast
    show thesis
    proof (cases "read_allowed fd")
      case False
      show thesis
        by (rule that[OF errors(2)[OF fd f False] ufs_wf_err[OF wf]])
          (simp_all add: fs_read_def Some h False fs_fail_def fs_of_err[OF wf])
    next
      case True
      let ?c = "contents (blocks s) f (B (fd_file fd))" and ?off = "min (total_offset fd + n) (total_size f)"
      let ?out = "take n (drop (total_offset fd) ?c)" and ?fd = "seek fd (B (fd_file fd)) ?off"
      let ?s = "set_fd ?i (Some ?fd) s"
      have len: "length ?c = total_size f" by (rule length_contents[OF files_wfD(3)[OF fwf f] files_wfD(4)[OF fwf f]])
      have off: "total_offset fd \<le> total_size f" using fds_wf_get[OF dwf fd(2)] f by (auto simp: fd_ok_def)
      have step: "\<not> ends_on_full_block fd f n" using n fd(2) f by (simp add: read_in_step_def del: get_fd_Some)
      note rd = ufs_read_wf[OF wf fd(2) f step]
      have run: "ufs_read fdN n s = Some (int (length ?out), ?out, ?s)"
        using ufs_read_step[OF wf fd(2) f True, of n] unfolding rd(1) N[symmetric] .
      have pos: "total_offset fd + length ?out = ?off" using off by (auto simp: len min_def)
      have "fs_of ?s = (fs_of s)\<lparr>handles := (handles (fs_of s))(?i \<mapsto> (handle_of fd)\<lparr>h_pos := ?off\<rparr>)\<rparr>"
      proof (rule fs_of_eqI)
        show "files_wf ?s fs B" using rd(2) by (simp add: ufs_wf_def)
      qed (use fd(2) in \<open>simp_all add: openable_def dir_fs_of[OF fwf] data_fs_of[OF fwf] handles_fs_of
          errno_fs_of handle_of_seek, simp_all add: set_fd_def\<close>)
      then have "((int (length ?out), ?out), fs_of ?s) = fs_read fdN n (fs_of s)"
        using True pos by (simp add: fs_read_def Some h data_at_fs_of[OF fwf f] set_handle_def Let_def)
      with run rd(2) show thesis by (rule that) (simp add: set_fd_def)
    qed
  qed
qed

definition resize_blocks :: "int \<Rightarrow> nat \<Rightarrow> ufs \<Rightarrow> nat" where
  "resize_blocks fdN n s = (case get_fd (nat (fdN - 1)) s of None \<Rightarrow> 0 | Some fd \<Rightarrow>
     n div BLOCK_SIZE - total_size (the (files s (fd_file fd))) div BLOCK_SIZE)"

lemma ufs_resize_refines:
  assumes wf: "ufs_wf s fs B" and mem: "mem_for (2 * resize_blocks fdN n s) s"
  obtains r s' B' where "ufs_resize fdN n s = Some (r, s')" "ufs_wf s' fs B'"
    "((r, []), fs_of s') = fs_resize fdN n (fs_of s)" "calloc_ok s' = calloc_ok s"
proof -
  from wf have fwf: "files_wf s fs B" and dwf: "fds_wf s B" by (simp_all add: ufs_wf_def)
  note errors = ufs_resize_errors[OF dwf]
  show thesis
  proof (cases "lookup fdN (fs_of s)")
    case None
    show thesis
      by (rule that[OF errors(1)[OF lookup_None[OF None]] ufs_wf_err[OF wf]])
        (simp_all add: fs_resize_def None fs_fail_def fs_of_err[OF wf])
  next
    case (Some h)
    let ?i = "nat (fdN - 1)"
    from lookup_Some[OF Some] obtain fd where fd: "0 < fdN" "get_fd ?i s = Some fd" and h: "h = handle_of fd"
      and N: "fdN = int ?i + 1" by blast
    from fds_wf_file[OF dwf fd(2)] obtain f where f: "files s (fd_file fd) = Some f" by blast
    show thesis
    proof (cases "n \<le> MAX_FILE_SIZE")
      case False
      then have big: "MAX_FILE_SIZE < n" by simp
      show thesis
        by (rule that[OF errors(2)[OF fd(1) _ big] ufs_wf_err[OF wf]])
          (use fd(2) big in \<open>simp_all add: fs_resize_def Some h fs_fail_def fs_of_err[OF wf]\<close>)
    next
      case True
      have "mem_for (2 * (n div BLOCK_SIZE - total_size f div BLOCK_SIZE)) s"
        using mem fd(2) f by (simp add: resize_blocks_def del: get_fd_Some)
      from ufs_resize_wf[OF wf fd(2) f True this] obtain s' bs' where
        run: "ufs_resize fdN n s = Some (RETVAL_SUCCESS, s')"
        and post: "resize_post s fs B (fd_file fd) f n s' bs'" unfolding N[symmetric] by blast
      define f' where "f' = f\<lparr>last_block := Some (last bs'), total_size := n\<rparr>"
      note P = post[unfolded resize_post_def, folded f'_def]
      have wf': "ufs_wf s' fs (B(fd_file fd := bs'))" and f': "files s' = (files s)(fd_file fd \<mapsto> f')"
        and c: "contents (blocks s') f' bs' = resized n (contents (blocks s) f (B (fd_file fd)))"
        and fds: "file_descriptors s' = map (clamp_fd (fd_file fd) f') (file_descriptors s)"
        and frame: "\<And>x b. x \<in> set fs \<Longrightarrow> x \<noteq> fd_file fd \<Longrightarrow> b \<in> set (B x) \<Longrightarrow> blocks s' b = blocks s b"
        and err: "ufs_error_code s' = ufs_error_code s" and mem': "calloc_ok s' = calloc_ok s"
        using P by blast+
      have fwf': "files_wf s' fs (B(fd_file fd := bs'))" using wf' by (simp add: ufs_wf_def)
      have "map_option handle_of (get_fd i s') = map_option (\<lambda>g. if h_file g = fd_file fd
          then g\<lparr>h_pos := min (h_pos g) n\<rparr> else g) (map_option handle_of (get_fd i s))" for i
        by (auto simp: get_fd_def fd_slot_def slot_def fds clamp_fd_def f'_def handle_of_def min_def split: option.splits)
      then have "fs_of s' = (fs_of s)\<lparr>data := (data (fs_of s))(fd_file fd \<mapsto> contents (blocks s') f' bs'),
          handles := \<lambda>i. map_option (\<lambda>g. if h_file g = fd_file fd
            then g\<lparr>h_pos := min (h_pos g) n\<rparr> else g) (handles (fs_of s) i)\<rparr>"
        using fs_of_update[OF fwf fwf' f f' _ _ frame err] by (simp add: f'_def handles_fs_of)
      then have "((RETVAL_SUCCESS, []), fs_of s') = fs_resize fdN n (fs_of s)"
        using True by (simp add: fs_resize_def Some h data_at_fs_of[OF fwf f] c)
      with run wf' show thesis using mem' by (rule that)
    qed
  qed
qed

subsection \<open>Open\<close>

lemma opened_new_fd: "handle_of (new_fd a (open_flags flags) b) = opened a flags"
  by (auto simp: opened_def handle_of_def flag_set_open_flags Let_def)

lemma fs_of_create:
  assumes wf: "ufs_wf s fs B" and mem: "mem_for 4 s" and free: "dir (fs_of s) nm = None"
  obtains s' fs' B' a where "ufs_create_file nm s = Some (Some a, s')" "ufs_wf s' fs' B'"
    "fs_of s' = fs_create nm a (fs_of s)" "data (fs_of s) a = None" "calloc_ok s' = calloc_ok s"
proof -
  let ?c = "calloc_count s"
  from wf have fwf: "files_wf s fs B" and dwf: "fds_wf s B" by (simp_all add: ufs_wf_def)
  have "\<not> openable s nm a" for a using free dir_fs_of[OF fwf, of nm a] by simp
  from files_wf_create[OF fwf mem this] obtain s' where run: "ufs_create_file nm s = Some (Some ?c, s')"
    and fwf': "files_wf s' (fs @ [?c]) (B(?c := [?c + 2]))" and op: "openable s' nm ?c"
    and err: "ufs_error_code s' = ufs_error_code s"
    and blk: "blocks s' = (blocks s)(?c + 2 \<mapsto> zero_block None)"
    and core: "\<And>a. a \<noteq> ?c \<Longrightarrow> map_option file_core (files s' a) = map_option file_core (files s a)"
    and new: "files s' ?c = Some (new_file nm (?c + 2) (file_list_last s))"
    and fds: "file_descriptors s' = file_descriptors s" "file_descriptor_count s' = file_descriptor_count s"
      "file_descriptor_capacity s' = file_descriptor_capacity s"
      "file_descriptors_rr_ptr s' = file_descriptors_rr_ptr s"
    and ok: "calloc_ok s' = calloc_ok s" by blast
  have c: "files s ?c = None" using files_wfD(7)[OF fwf, of ?c] by (cases "files s ?c") auto
  have "fds_wf s' (B(?c := [?c + 2]))" using dwf c core new by (rule fds_wf_create) (simp_all add: fds)
  with fwf' have wf': "ufs_wf s' (fs @ [?c]) (B(?c := [?c + 2]))" by (simp add: ufs_wf_def)
  have fs: "fs_of s' = fs_create nm ?c (fs_of s)"
  proof (rule fs_of_eqI[OF fwf'])
    fix x nm'
    show "openable s' nm' x \<longleftrightarrow> dir (fs_create nm ?c (fs_of s)) nm' = Some x"
    proof (cases "nm' = nm")
      case True
      have "x = ?c" if "openable s' nm x"
        using dir_fs_of[OF fwf', of nm x] dir_fs_of[OF fwf', of nm ?c] that op by simp
      with True op show ?thesis by (auto simp: fs_create_def)
    next
      case False
      have "openable s' nm' x \<longleftrightarrow> openable s nm' x"
      proof (cases "x = ?c")
        case eq: True
        with new c False show ?thesis by (simp add: openable_def)
      next
        case ne: False
        from core[OF ne] show ?thesis
          by (cases "files s x"; cases "files s' x") (auto simp: openable_def dest: file_core_eqD(4,5))
      qed
      with False show ?thesis by (simp add: fs_create_def dir_fs_of[OF fwf])
    qed
    show "map_option (\<lambda>f. contents (blocks s') f ((B(?c := [?c + 2])) x)) (files s' x) =
        data (fs_create nm ?c (fs_of s)) x"
    proof (cases "x = ?c")
      case True
      then show ?thesis by (simp add: new fs_create_def contents_def)
    next
      case False
      have "contents (blocks s') g (B x) = contents (blocks s) h (B x)"
        if "files s' x = Some g" "files s x = Some h" "file_core g = file_core h" for g h
      proof (rule contents_cong)
        show "total_size g = total_size h" using file_core_eqD(6)[OF that(3)] .
        fix b assume "b \<in> set (B x)"
        moreover have "x \<in> set fs" using files_wfD(2)[OF fwf] that(2) by auto
        ultimately have "b \<in> dom (blocks s)" using files_wfD(6)[OF fwf] by auto
        with files_wfD(8)[OF fwf] have "b < ?c" by auto
        then show "blocks s' b = blocks s b" by (simp add: blk)
      qed
      with False core[OF False] show ?thesis
        by (cases "files s x"; cases "files s' x") (auto simp: fs_create_def data_fs_of[OF fwf])
    qed
  qed (simp_all add: fs_create_def handles_fs_of errno_fs_of err get_fd_cong[OF fds(1)])
  have "data (fs_of s) ?c = None" by (simp add: data_fs_of[OF fwf] c)
  with run wf' fs show thesis using ok by (rule that)
qed

text \<open>The second half of opening: a descriptor for a file that exists.\<close>

lemma ufs_create_fd_refines:
  assumes wf: "ufs_wf s fs B" and find: "fs_find nm flags A a A'"
    and A': "fs_of s = A'\<lparr>fs_errno := UFS_ERR_NO_ERR\<rparr>"
  obtains r s' where
    "do { (newFd, s) \<leftarrow> ufs_create_fd a (open_flags flags) s;
       if newFd = RETVAL_FAILURE then Some (RETVAL_FAILURE, s) else Some (newFd + 1, s) } = Some (r, s')"
    "ufs_wf s' fs B" "fs_open nm flags A r (fs_of s')" "calloc_ok s' = calloc_ok s"
    "plenty s \<longrightarrow> r \<noteq> RETVAL_FAILURE"
proof -
  from wf have fwf: "files_wf s fs B" and dwf: "fds_wf s B" by (simp_all add: ufs_wf_def)
  have A'_eqs: "dir A' = dir (fs_of s)" "data A' = data (fs_of s)" "handles A' = handles (fs_of s)"
    by (simp_all add: A')
  have err: "ufs_error_code s = UFS_ERR_NO_ERR" using errno_fs_of[of s] by (simp add: A')
  have A: "handles A = handles (fs_of s)" using find A'_eqs(3) by cases (simp_all add: fs_create_def)
  have "\<exists>f. files s a = Some f"
    using find
  proof cases
    case found
    then show ?thesis using dir_fs_of[OF fwf, of nm a] A'_eqs(1) by (auto simp: openable_def)
  next
    case created
    then have "data (fs_of s) a \<noteq> None" by (simp add: fs_create_def flip: A'_eqs(2))
    then show ?thesis by (auto simp: data_fs_of[OF fwf])
  qed
  then obtain f where f: "files s a = Some f" by blast
  show thesis
  proof (cases rule: ufs_create_fd_wf[OF wf f, of "open_flags flags"])
    case (1 n)
    let ?s = "s\<lparr>calloc_count := calloc_count s + n, ufs_error_code := UFS_ERR_NO_MEM\<rparr>"
    have "fs_of ?s = (fs_of s)\<lparr>fs_errno := UFS_ERR_NO_MEM\<rparr>" using fs_of_same[OF fwf, of ?s] by simp
    then have "fs_of ?s = A'\<lparr>fs_errno := UFS_ERR_NO_MEM\<rparr>" by (simp add: A')
    moreover have "ufs_wf ?s fs B"
      using ufs_wf_err[OF ufs_wf_calloc[OF wf, of n], of UFS_ERR_NO_MEM] by (simp add: set_err_def)
    ultimately show thesis
      using 1(1,2) no_mem_fd[OF find] by (intro that[of RETVAL_FAILURE ?s]) simp_all
  next
    case (2 i s')
    have fwf': "files_wf s' fs B" using 2(4) by (simp add: ufs_wf_def)
    have "fs_of s' = (fs_of s)\<lparr>handles := (handles (fs_of s))(i \<mapsto> opened a flags), fs_errno := UFS_ERR_NO_ERR\<rparr>"
    proof (rule fs_of_eqI[OF fwf'])
      show "map_option (\<lambda>f. contents (blocks s') f (B x)) (files s' x) =
          data ((fs_of s)\<lparr>handles := (handles (fs_of s))(i \<mapsto> opened a flags), fs_errno := UFS_ERR_NO_ERR\<rparr>) x" for x
        using f by (simp add: 2(5,6) data_fs_of[OF fwf] contents_def)
    qed (use f err in \<open>auto simp: 2(3,6,7) dir_fs_of[OF fwf] openable_def handles_fs_of opened_new_fd\<close>)
    then have "fs_of s' = A'\<lparr>handles := (handles A')(i \<mapsto> opened a flags), fs_errno := UFS_ERR_NO_ERR\<rparr>"
      by (simp add: A'_eqs(3)) (simp add: A')
    moreover have "handles A i = None" using 2(2) by (simp add: A handles_fs_of)
    ultimately have "fs_open nm flags A (int i + 1) (fs_of s')" using fs_open.opened[OF find] by simp
    then show thesis using 2(1,4,8) by (intro that[of "int i + 1" s']) simp_all
  qed
qed

lemma ufs_open_refines:
  assumes wf: "ufs_wf s fs B"
  obtains r s' fs' B' where "ufs_open nm flags s = Some (r, s')" "ufs_wf s' fs' B'"
    "fs_open nm flags (fs_of s) r (fs_of s')" "calloc_ok s' = calloc_ok s"
    "plenty s \<longrightarrow> dir (fs_of s) nm \<noteq> None \<or> flag_set flags UFS_CREATE \<longrightarrow> r \<noteq> RETVAL_FAILURE"
proof -
  let ?s = "set_err UFS_ERR_NO_ERR s"
  have wf0: "ufs_wf ?s fs B" by (rule ufs_wf_err[OF wf])
  then have fwf0: "files_wf ?s fs B" by (simp add: ufs_wf_def)
  have fs0: "fs_of ?s = (fs_of s)\<lparr>fs_errno := UFS_ERR_NO_ERR\<rparr>" by (rule fs_of_err[OF wf])
  obtain r where find: "ufs_find_file nm ?s = Some r" using ufs_find_file_wf[OF fwf0] by blast
  then have "dir (fs_of ?s) nm = r" by (simp add: fs_of_def)
  then have dir: "dir (fs_of s) nm = r" by (simp add: fs0)
  note cases = ufs_open_cases[OF find]
  show thesis
  proof (cases r)
    case (Some a)
    then have "fs_find nm flags (fs_of s) a (fs_of s)" using dir by (intro fs_find.found) simp
    from ufs_create_fd_refines[OF wf0 this fs0] obtain q s' where q:
      "ufs_open nm flags s = Some (q, s')" "ufs_wf s' fs B" "fs_open nm flags (fs_of s) q (fs_of s')"
      "calloc_ok s' = calloc_ok ?s" "plenty ?s \<longrightarrow> q \<noteq> RETVAL_FAILURE" unfolding cases(4)[OF Some, symmetric] by blast
    show thesis by (rule that[OF q(1-3)]) (use q(4,5) plenty_cong[of ?s s] in simp_all)
  next
    case None
    show thesis
    proof (cases "flag_set flags UFS_CREATE")
      case False
      show thesis
        by (rule that[OF cases(1)[OF None False] ufs_wf_err[OF wf]])
          (use None dir False in \<open>simp_all add: fs_of_err[OF wf] no_file\<close>)
    next
      case create: True
      show thesis
      proof (cases "mem_for 4 ?s")
        case False
        from ufs_create_file_fail[OF False, of nm] obtain n where
          fail: "ufs_create_file nm ?s = Some (None,
            ?s\<lparr>calloc_count := calloc_count ?s + n, ufs_error_code := UFS_ERR_NO_MEM\<rparr>)" by blast
        let ?s' = "?s\<lparr>calloc_count := calloc_count ?s + n, ufs_error_code := UFS_ERR_NO_MEM\<rparr>"
        have "ufs_wf ?s' fs B"
          using ufs_wf_err[OF ufs_wf_calloc[OF wf0, of n], of UFS_ERR_NO_MEM] by (simp add: set_err_def)
        moreover have fs: "fs_of ?s' = (fs_of s)\<lparr>fs_errno := UFS_ERR_NO_MEM\<rparr>"
          using fs_of_same[OF fwf0, of ?s'] by (simp add: fs0)
        moreover have "ufs_open nm flags s = Some (RETVAL_FAILURE, ?s')"
          by (rule cases(2)[OF None create fail]) simp
        moreover have "fs_open nm flags (fs_of s) RETVAL_FAILURE (fs_of ?s')"
          unfolding fs using None dir create by (intro no_mem_file) simp_all
        moreover have "\<not> plenty s" using False plenty_cong[of ?s s] by (auto simp: mem_for_def)
        ultimately show thesis using that by simp
      next
        case True
        have "dir (fs_of ?s) nm = None" by (simp add: fs0 dir None)
        from fs_of_create[OF wf0 True this] obtain s1 fs1 B1 a where
          c: "ufs_create_file nm ?s = Some (Some a, s1)" "ufs_wf s1 fs1 B1"
            "fs_of s1 = fs_create nm a (fs_of ?s)" "data (fs_of ?s) a = None" "calloc_ok s1 = calloc_ok ?s" .
        have "fs_find nm flags (fs_of s) a (fs_create nm a (fs_of s))"
          using None dir create c(4) by (intro fs_find.created) (simp_all add: fs0)
        moreover have "fs_of s1 = (fs_create nm a (fs_of s))\<lparr>fs_errno := UFS_ERR_NO_ERR\<rparr>"
          by (simp add: c(3) fs0 fs_create_def)
        ultimately obtain q s' where q:
          "ufs_open nm flags s = Some (q, s')" "ufs_wf s' fs1 B1" "fs_open nm flags (fs_of s) q (fs_of s')"
          "calloc_ok s' = calloc_ok s1" "plenty s1 \<longrightarrow> q \<noteq> RETVAL_FAILURE"
          unfolding cases(3)[OF None create c(1)] by (rule ufs_create_fd_refines[OF c(2)])
        show thesis by (rule that[OF q(1-3)]) (use q(4,5) c(5) plenty_cong[of s1 s] in simp_all)
      qed
    qed
  qed
qed

text \<open>With memory, a file that exists or may be created is opened.\<close>

lemma ufs_open_plenty:
  assumes wf: "ufs_wf s fs B" and mem: "plenty s" and "dir (fs_of s) nm \<noteq> None \<or> flag_set flags UFS_CREATE"
  obtains i a A' s' fs' B' where "ufs_open nm flags s = Some (int i + 1, s')" "ufs_wf s' fs' B'"
    "fs_find nm flags (fs_of s) a A'" "handles (fs_of s) i = None" "calloc_ok s' = calloc_ok s"
    "fs_of s' = A'\<lparr>handles := (handles A')(i \<mapsto> opened a flags), fs_errno := UFS_ERR_NO_ERR\<rparr>"
proof -
  obtain r s' fs' B' where run: "ufs_open nm flags s = Some (r, s')" "ufs_wf s' fs' B'"
    and spec: "fs_open nm flags (fs_of s) r (fs_of s')" and ok: "calloc_ok s' = calloc_ok s"
    and r: "plenty s \<longrightarrow> dir (fs_of s) nm \<noteq> None \<or> flag_set flags UFS_CREATE \<longrightarrow> r \<noteq> RETVAL_FAILURE"
    by (rule ufs_open_refines[OF wf])
  from spec show thesis
  proof cases
    case (opened a A' i)
    with run ok show thesis by (intro that[of i s' fs' B' a A']) simp_all
  qed (use r assms(2,3) in simp_all)
qed

subsection \<open>Close and delete\<close>

text \<open>A file that is kept is referred to; one that is gone is not.\<close>

lemma referred_fs_of:
  assumes "files_wf s fs B"
  shows "referred a (fs_of s) \<longleftrightarrow> (\<exists>nm. openable s nm a) \<or> (\<exists>i fd. get_fd i s = Some fd \<and> fd_file fd = a)"
proof -
  have "(\<exists>h. handles (fs_of s) i = Some h \<and> h_file h = a) \<longleftrightarrow> (\<exists>fd. get_fd i s = Some fd \<and> fd_file fd = a)" for i
    by (cases "get_fd i s") (simp_all add: handles_fs_of del: get_fd_Some)
  then show ?thesis by (simp add: referred_def dir_fs_of[OF assms] del: get_fd_Some)
qed

lemma referred_cong: "dir A = dir A' \<Longrightarrow> handles A = handles A' \<Longrightarrow> referred a A = referred a A'"
  by (simp add: referred_def)

lemma referred_kept:
  assumes wf: "ufs_wf s fs B" and a: "files s a = Some f"
  shows "referred a (fs_of s)"
proof (cases "marked_for_deletion f")
  case False
  with a have "openable s (fname f) a" by (simp add: openable_def)
  with wf show ?thesis using referred_fs_of[of s fs B a] by (auto simp: ufs_wf_def)
next
  case True
  from wf have fwf: "files_wf s fs B" and dwf: "fds_wf s B" by (simp_all add: ufs_wf_def)
  have "0 < count_if (on_file a) (file_descriptors s)"
    using fds_wfD(5)[OF dwf a] fds_wfD(6)[OF dwf a True] by simp
  then obtain x where "x \<in> set (file_descriptors s)" "on_file a x"
    by (auto simp: filter_empty_conv)
  then obtain i fd where "get_fd i s = Some fd" "fd_file fd = a"
    by (auto simp: in_set_conv_nth on_file_def split: option.splits)
  then show ?thesis unfolding referred_fs_of[OF fwf] by blast
qed

lemma referred_gone:
  assumes wf: "ufs_wf s fs B" and a: "files s a = None"
  shows "\<not> referred a (fs_of s)"
proof -
  from wf have fwf: "files_wf s fs B" and dwf: "fds_wf s B" by (simp_all add: ufs_wf_def)
  have "fd_file fd \<noteq> a" if "get_fd i s = Some fd" for i fd using fds_wf_file[OF dwf that] a by auto
  moreover have "\<not> openable s nm a" for nm using a by (simp add: openable_def)
  ultimately show ?thesis unfolding referred_fs_of[OF fwf] by blast
qed

text \<open>Dropping a reference to the file \<open>a\<close>: the specification's state before it reaps is \<open>A\<close>.\<close>

lemma reap_drop_post:
  assumes wf: "ufs_wf s fs B" and wf': "ufs_wf s' fs' B" and a: "files s a = Some f"
    and post: "drop_post s B a gone f' s'" and f': "total_size f' = total_size f"
    and A: "\<And>nm x. openable s' nm x \<longleftrightarrow> dir A nm = Some x"
      "\<And>i. map_option handle_of (get_fd i s') = handles A i" "data A = data (fs_of s)" "fs_errno A = fs_errno (fs_of s)"
  shows "fs_of s' = reap a A"
proof -
  from wf wf' have fwf: "files_wf s fs B" and fwf': "files_wf s' fs' B" by (simp_all add: ufs_wf_def)
  have dir': "dir (fs_of s') = dir A" by (intro ext option_eqI) (simp add: dir_fs_of[OF fwf'] A(1))
  have handles': "handles (fs_of s') = handles A" by (intro ext) (simp add: handles_fs_of A(2))
  have err': "fs_errno (fs_of s') = fs_errno A" using post by (simp add: errno_fs_of A(4) drop_post_def)
  have other: "data (fs_of s') x = data (fs_of s) x" if x: "x \<noteq> a" for x
  proof -
    from post x have core: "map_option file_core (files s' x) = map_option file_core (files s x)"
      by (simp add: drop_post_def)
    have "contents (blocks s') g (B x) = contents (blocks s) h (B x)"
      if "files s x = Some h" "file_core g = file_core h" for g h
    proof (rule contents_cong)
      show "total_size g = total_size h" using file_core_eqD(6)[OF that(2)] .
      fix b assume "b \<in> set (B x)"
      moreover have "x \<in> set fs" "a \<in> set fs" using files_wfD(2)[OF fwf] that(1) a by auto
      ultimately have "b \<notin> set (B a)" using files_wfD(5)[OF fwf, of x a] x by auto
      then show "blocks s' b = blocks s b" using post by (auto simp: drop_post_def split: if_splits)
    qed
    with core show ?thesis
      by (cases "files s x"; cases "files s' x") (auto simp: data_fs_of[OF fwf] data_fs_of[OF fwf'])
  qed
  show ?thesis
  proof (cases gone)
    case True
    with post have a': "files s' a = None" by (simp add: drop_post_def)
    have "data (fs_of s') = (data A)(a := None)"
      using other by (auto simp: fun_eq_iff A(3) data_fs_of[OF fwf'] a')
    moreover have "reap a A = A\<lparr>data := (data A)(a := None)\<rparr>"
      using referred_gone[OF wf' a'] referred_cong[OF dir' handles'] by (simp add: reap_def)
    ultimately show ?thesis by (intro fs.equality) (simp_all add: dir' handles' err')
  next
    case False
    with post have a': "files s' a = Some f'" and blk: "blocks s' = blocks s" by (simp_all add: drop_post_def)
    have "data (fs_of s') x = data A x" for x
      using other[of x] by (cases "x = a")
        (simp_all add: A(3) data_fs_of[OF fwf'] data_fs_of[OF fwf] a a' blk contents_def f')
    moreover have "reap a A = A"
      using referred_kept[OF wf' a'] referred_cong[OF dir' handles'] by (simp add: reap_def)
    ultimately show ?thesis by (intro fs.equality) (simp_all add: dir' handles' err' fun_eq_iff)
  qed
qed

lemma openable_core:
  assumes "map_option file_core (files s' x) = map_option file_core (files s x)"
  shows "openable s' nm x = openable s nm x"
  using assms by (cases "files s x"; cases "files s' x") (auto simp: openable_def dest: file_core_eqD(4,5))

lemma drop_post_openable:
  assumes "drop_post s B a gone f' s'" "x \<noteq> a"
  shows "openable s' nm x = openable s nm x"
proof (rule openable_core)
  show "map_option file_core (files s' x) = map_option file_core (files s x)"
    using assms unfolding drop_post_def by blast
qed

lemma ufs_close_refines:
  assumes wf: "ufs_wf s fs B"
  obtains r s' fs' where "ufs_close fdN s = Some (r, s')" "ufs_wf s' fs' B"
    "((r, []), fs_of s') = fs_close fdN (fs_of s)" "calloc_ok s' = calloc_ok s"
proof -
  from wf have fwf: "files_wf s fs B" and dwf: "fds_wf s B" by (simp_all add: ufs_wf_def)
  show thesis
  proof (cases "lookup fdN (fs_of s)")
    case None
    show thesis
      by (rule that[OF ufs_close_invalid[OF dwf lookup_None[OF None]] ufs_wf_err[OF wf]])
        (simp_all add: fs_close_def None fs_fail_def fs_of_err[OF wf])
  next
    case (Some h)
    let ?i = "nat (fdN - 1)"
    from lookup_Some[OF Some] obtain fd where fd: "0 < fdN" "get_fd ?i s = Some fd" and h: "h = handle_of fd"
      and N: "fdN = int ?i + 1" by blast
    from fds_wf_file[OF dwf fd(2)] obtain f where f: "files s (fd_file fd) = Some f" by blast
    let ?gone = "marked_for_deletion f \<and> refs f = 1" and ?f = "f\<lparr>refs := refs f - 1\<rparr>"
    from ufs_close_wf[OF wf fd(2) f] obtain s' fs' where run: "ufs_close fdN s = Some (RETVAL_SUCCESS, s')"
      and wf': "ufs_wf s' fs' B" and get: "\<forall>j. get_fd j s' = (if j = ?i then None else get_fd j s)"
      and post: "drop_post s B (fd_file fd) ?gone ?f s'" unfolding N[symmetric] .
    let ?A = "set_handle fdN None (fs_of s)"
    have "fs_of s' = reap (fd_file fd) ?A"
    proof (rule reap_drop_post[OF wf wf' f post])
      show "openable s' nm x \<longleftrightarrow> dir ?A nm = Some x" for nm x
      proof (cases "x = fd_file fd")
        case True
        then show ?thesis using post f
          by (auto simp: set_handle_def dir_fs_of[OF fwf] openable_def drop_post_def split: if_splits)
      next
        case False
        from drop_post_openable[OF post False] show ?thesis
          by (simp add: set_handle_def dir_fs_of[OF fwf])
      qed
    qed (simp_all add: set_handle_def get handles_fs_of)
    then have "((RETVAL_SUCCESS, []), fs_of s') = fs_close fdN (fs_of s)" by (simp add: fs_close_def Some h)
    with run wf' show thesis by (rule that) (use post in \<open>simp add: drop_post_def\<close>)
  qed
qed

lemma ufs_delete_refines:
  assumes wf: "ufs_wf s fs B"
  obtains r s' fs' where "ufs_delete nm s = Some (r, s')" "ufs_wf s' fs' B"
    "((r, []), fs_of s') = fs_delete nm (fs_of s)" "calloc_ok s' = calloc_ok s"
proof -
  from wf have fwf: "files_wf s fs B" by (simp add: ufs_wf_def)
  show thesis
  proof (cases "dir (fs_of s) nm")
    case None
    then have "\<not> openable s nm a" for a using dir_fs_of[OF fwf, of nm a] by simp
    from ufs_delete_missing[OF fwf this] show thesis
      by (rule that[OF _ ufs_wf_err[OF wf]]) (simp_all add: fs_delete_def None fs_fail_def fs_of_err[OF wf])
  next
    case (Some a)
    then have op: "openable s nm a" using dir_fs_of[OF fwf] by simp
    then obtain f where f: "files s a = Some f" "fname f = nm" "\<not> marked_for_deletion f"
      by (auto simp: openable_def)
    from ufs_delete_wf[OF wf op f(1)] obtain s' fs' where run: "ufs_delete nm s = Some (RETVAL_SUCCESS, s')"
      and wf': "ufs_wf s' fs' B" and fds: "file_descriptors s' = file_descriptors s"
      and post: "drop_post s B a (refs f = 0) (f\<lparr>marked_for_deletion := True\<rparr>) s'" .
    let ?A = "(fs_of s)\<lparr>dir := (dir (fs_of s))(nm := None)\<rparr>"
    have "fs_of s' = reap a ?A"
    proof (rule reap_drop_post[OF wf wf' f(1) post])
      fix nm' x
      show "openable s' nm' x \<longleftrightarrow> dir ?A nm' = Some x"
      proof (cases "x = a")
        case True
        have "\<not> openable s' nm' a" using post by (auto simp: openable_def drop_post_def split: if_splits)
        moreover have "nm' = nm" if "openable s nm' a" using that f by (simp add: openable_def)
        ultimately show ?thesis using True by (auto simp: dir_fs_of[OF fwf])
      next
        case False
        from drop_post_openable[OF post this] have "openable s' nm' x = openable s nm' x" .
        moreover have "\<not> openable s nm x" using False op dir_fs_of[OF fwf, of nm] by (metis option.inject)
        ultimately show ?thesis by (auto simp: dir_fs_of[OF fwf])
      qed
    qed (simp_all add: get_fd_cong[OF fds] handles_fs_of)
    then have "((RETVAL_SUCCESS, []), fs_of s') = fs_delete nm (fs_of s)" by (simp add: fs_delete_def Some)
    with run wf' show thesis by (rule that) (use post in \<open>simp add: drop_post_def\<close>)
  qed
qed

subsection \<open>The interface as a whole\<close>

text \<open>
  The calls the refinement covers: a write or a resize has the memory for the blocks it
  adds, and a read does not stop at the end of a file whose last block is full.
\<close>

fun call_ok :: "ufs_call \<Rightarrow> ufs \<Rightarrow> bool" where
  "call_ok (Write fd buf) s \<longleftrightarrow> length buf < SIZE_T - MAX_FILE_SIZE \<and>
     mem_for (2 * write_blocks fd (length buf) s) s"
| "call_ok (Read fd n) s = read_in_step fd n s"
| "call_ok (Resize fd n) s = mem_for (2 * resize_blocks fd n s) s"
| "call_ok _ s = True"

lemma ufs_exec_refines:
  assumes "ufs_inv s" "call_ok c s"
  obtains r out s' where "ufs_exec c s = Some ((r, out), s')" "ufs_inv s'"
    "fs_exec c (fs_of s) (r, out) (fs_of s')" "calloc_ok s' = calloc_ok s"
proof -
  from assms(1) obtain fs B where wf: "ufs_wf s fs B" by (auto simp: ufs_inv_def)
  show thesis
  proof (cases c)
    case (Open nm flags)
    obtain r s' fs' B' where
      "ufs_open nm flags s = Some (r, s')" "ufs_wf s' fs' B'"
      "fs_open nm flags (fs_of s) r (fs_of s')" "calloc_ok s' = calloc_ok s" by (rule ufs_open_refines[OF wf])
    then show thesis by (intro that[of r "[]" s']) (auto simp: Open ufs_inv_def)
  next
    case (Write fd buf)
    from assms(2) ufs_write_refines[OF wf, of buf fd] obtain r s' B' where
      "ufs_write fd buf s = Some (r, s')" "ufs_wf s' fs B'"
      "((r, []), fs_of s') = fs_write fd buf (fs_of s)" "calloc_ok s' = calloc_ok s" by (auto simp: Write)
    then show thesis by (intro that[of r "[]" s']) (auto simp: Write ufs_inv_def)
  next
    case (Read fd n)
    from assms(2) ufs_read_refines[OF wf, of fd n] obtain r out s' where
      "ufs_read fd n s = Some (r, out, s')" "ufs_wf s' fs B"
      "((r, out), fs_of s') = fs_read fd n (fs_of s)" "calloc_ok s' = calloc_ok s" by (auto simp: Read)
    then show thesis by (intro that[of r out s']) (auto simp: Read ufs_inv_def)
  next
    case (Close fd)
    from ufs_close_refines[OF wf] obtain r s' fs' where
      "ufs_close fd s = Some (r, s')" "ufs_wf s' fs' B"
      "((r, []), fs_of s') = fs_close fd (fs_of s)" "calloc_ok s' = calloc_ok s" .
    then show thesis by (intro that[of r "[]" s']) (auto simp: Close ufs_inv_def)
  next
    case (Delete nm)
    from ufs_delete_refines[OF wf] obtain r s' fs' where
      "ufs_delete nm s = Some (r, s')" "ufs_wf s' fs' B"
      "((r, []), fs_of s') = fs_delete nm (fs_of s)" "calloc_ok s' = calloc_ok s" .
    then show thesis by (intro that[of r "[]" s']) (auto simp: Delete ufs_inv_def)
  next
    case (Resize fd n)
    from assms(2) ufs_resize_refines[OF wf, of fd n] obtain r s' B' where
      "ufs_resize fd n s = Some (r, s')" "ufs_wf s' fs B'"
      "((r, []), fs_of s') = fs_resize fd n (fs_of s)" "calloc_ok s' = calloc_ok s" by (auto simp: Resize)
    then show thesis by (intro that[of r "[]" s']) (auto simp: Resize ufs_inv_def)
  qed
qed

interpretation fs: refines ufs_exec ufs_inv call_ok fs_of fs_exec
proof
  fix s c assume "ufs_inv s" "call_ok c s"
  then show "\<exists>r s'. ufs_exec c s = Some (r, s') \<and> ufs_inv s' \<and> fs_exec c (fs_of s) r (fs_of s')"
    by (rule ufs_exec_refines) blast
qed

end
