(* ===== verification/Ufs_Props.thy ===== *)
theory Ufs_Props imports Ufs_Spec begin

text \<open>
  Properties of the file system of Assignment_3, stated over the model of userfs.c: refinement of
  the specification, functional behaviour, round trips, errors, and the places where the code does
  not do what its header promises.
\<close>

subsection \<open>Shared facts\<close>

lemma mem_for_plenty: "plenty s \<Longrightarrow> mem_for n s"
  by (simp add: mem_for_def)

fun no_read :: "ufs_call \<Rightarrow> bool" where
  "no_read (Read fd n) = False"
| "no_read _ = True"

text \<open>With memory, calls are allowed; reads need a look at the state.\<close>

lemma call_ok_plenty:
  "plenty s \<Longrightarrow> no_read c \<Longrightarrow> (\<And>fd buf. c = Write fd buf \<Longrightarrow> length buf \<le> MAX_FILE_SIZE) \<Longrightarrow> call_ok c s"
  by (cases c) (auto simp: mem_for_plenty intro: le_less_trans)

lemma all_ok_plenty:
  "ufs_inv s \<Longrightarrow> plenty s \<Longrightarrow> \<forall>c \<in> set cs. no_read c \<and> (\<forall>fd buf. c = Write fd buf \<longrightarrow> length buf \<le> MAX_FILE_SIZE) \<Longrightarrow>
   all_ok ufs_exec call_ok cs s"
proof (induction cs arbitrary: s)
  case (Cons c cs)
  have ok: "call_ok c s" using Cons.prems by (intro call_ok_plenty) simp_all
  from ufs_exec_refines[OF Cons.prems(1) ok] obtain r out s' where
    "ufs_exec c s = Some ((r, out), s')" "ufs_inv s'" "calloc_ok s' = calloc_ok s" by blast
  with ok Cons show ?case by (simp add: plenty_cong[of s' s])
qed simp

text \<open>Reading through any readable descriptor, also at the end of a full block.\<close>

definition read_at :: "handle \<Rightarrow> nat \<Rightarrow> ufs \<Rightarrow> byte list" where
  "read_at h n s = take n (drop (h_pos h) (data_at (h_file h) (fs_of s)))"

lemma ufs_read_any:
  assumes "ufs_inv s" "lookup fd (fs_of s) = Some h" "h_read h"
  shows "\<exists>s'. ufs_read fd n s = Some (int (length (read_at h n s)), read_at h n s, s') \<and>
    blocks s' = blocks s \<and> files s' = files s"
proof -
  from assms(1) obtain fs B where wf: "ufs_wf s fs B" by (auto simp: ufs_inv_def)
  then have fwf: "files_wf s fs B" and dwf: "fds_wf s B" by (simp_all add: ufs_wf_def)
  from lookup_Some[OF assms(2)] obtain d where d: "get_fd (nat (fd - 1)) s = Some d" and h: "h = handle_of d"
    and N: "fd = int (nat (fd - 1)) + 1" by blast
  from fds_wf_file[OF dwf d] obtain f where f: "files s (fd_file d) = Some f" by blast
  have "read_allowed d" using assms(3) h by simp
  from ufs_read_step[OF wf d f this, of n] show ?thesis
    unfolding N[symmetric] by (simp add: read_at_def h data_at_fs_of[OF fwf f] set_fd_def)
qed

text \<open>What the invariant says of the blocks and of the files.\<close>

lemma ufs_inv_blocks:
  assumes "ufs_inv s"
  shows "dom (blocks s) = (\<Union>f \<in> ran (files s). set (chain (blocks s) f))"
    and "\<forall>a b f g. files s a = Some f \<and> files s b = Some g \<and> a \<noteq> b \<longrightarrow>
      set (chain (blocks s) f) \<inter> set (chain (blocks s) g) = {}"
proof -
  from assms(1) obtain fs B where "ufs_wf s fs B" by (auto simp: ufs_inv_def)
  then have fwf: "files_wf s fs B" by (simp add: ufs_wf_def)
  note D = files_wfD[OF fwf]
  have chain: "chain (blocks s) f = B a" if "files s a = Some f" for a f
    using D(4)[OF that] by (intro chain_layout[OF D(3)[OF that]]) (simp add: size_ok_def)
  have "(\<Union>f \<in> ran (files s). set (chain (blocks s) f)) = (\<Union>a \<in> dom (files s). set (B a))"
    using chain by (fastforce simp: ran_def dom_def)
  then show "dom (blocks s) = (\<Union>f \<in> ran (files s). set (chain (blocks s) f))" using D(2,6) by simp
  have "set (chain (blocks s) f) \<inter> set (chain (blocks s) g) = {}"
    if "files s a = Some f" "files s b = Some g" "a \<noteq> b" for a b f g
  proof -
    have "a \<in> set fs" "b \<in> set fs" using D(2) that by auto
    with D(5) chain that show ?thesis by simp
  qed
  then show "\<forall>a b f g. files s a = Some f \<and> files s b = Some g \<and> a \<noteq> b \<longrightarrow>
      set (chain (blocks s) f) \<inter> set (chain (blocks s) g) = {}" by blast
qed

lemma ufs_inv_files:
  assumes "ufs_inv s"
  shows "\<forall>a \<in> dom (files s). (\<exists>nm. dir (fs_of s) nm = Some a) \<or> (\<exists>i h. handles (fs_of s) i = Some h \<and> h_file h = a)"
proof
  fix a assume "a \<in> dom (files s)"
  then obtain f where f: "files s a = Some f" by blast
  from assms obtain fs B where "ufs_wf s fs B" by (auto simp: ufs_inv_def)
  then have fwf: "files_wf s fs B" and dwf: "fds_wf s B" by (simp_all add: ufs_wf_def)
  show "(\<exists>nm. dir (fs_of s) nm = Some a) \<or> (\<exists>i h. handles (fs_of s) i = Some h \<and> h_file h = a)"
  proof (cases "marked_for_deletion f")
    case True
    then have "0 < count_if (on_file a) (file_descriptors s)"
      using fds_wfD(5,6)[OF dwf f] by simp
    then obtain x where "x \<in> set (file_descriptors s)" "on_file a x" by (auto simp: filter_empty_conv)
    then obtain i d where "file_descriptors s ! i = Some d" "i < length (file_descriptors s)" "fd_file d = a"
      by (metis in_set_conv_nth on_file_simps option.exhaust)
    then have "get_fd i s = Some d" "fd_file d = a" by simp_all
    then have "handles (fs_of s) i = Some (handle_of d) \<and> h_file (handle_of d) = a"
      by (simp add: handles_fs_of handle_of_def del: get_fd_Some)
    then show ?thesis by blast
  next
    case False
    then have "dir (fs_of s) (fname f) = Some a" using f by (simp add: dir_fs_of[OF fwf] openable_def)
    then show ?thesis by blast
  qed
qed

text \<open>A small state: one file of three bytes, open twice.\<close>

definition demo :: ufs where
  "demo = (ufs_init (\<lambda>_. True))\<lparr>
     blocks := [2 \<mapsto> \<lparr>memory = [1, 2, 3] @ replicate 509 0, blk_next = None, blk_prev = None\<rparr>],
     files := [0 \<mapsto> \<lparr>block_list = Some 2, last_block = Some 2, refs = 2, fname = ''a'', file_next = None,
       file_prev = None, marked_for_deletion = False, total_size = 3\<rparr>],
     file_list := Some 0, file_list_last := Some 0,
     file_descriptors := replicate 2 (Some \<lparr>fd_file = 0, read_allowed = True, write_allowed = True,
       cur_block = Some 2, total_offset = 0\<rparr>),
     file_descriptor_count := 2, file_descriptor_capacity := 2, file_descriptors_rr_ptr := 1,
     calloc_count := 6\<rparr>"

lemma demo_wf: "ufs_wf demo [0] (\<lambda>_. [2])"
  unfolding ufs_wf_def
proof
  show "files_wf demo [0] (\<lambda>_. [2])"
    by (rule files_wfI) (auto simp: demo_def ufs_init_def layout_def blocks_full_def size_ok_def split: if_splits)
  show "fds_wf demo (\<lambda>_. [2])"
    by (rule fds_wfI) (auto simp: demo_def ufs_init_def fd_ok_def numeral_2_eq_2 split: if_splits)
qed

lemma demo_inv: "ufs_inv demo"
  using demo_wf by (auto simp: ufs_inv_def)

lemma demo_plenty: "plenty demo"
  by (simp add: plenty_def demo_def ufs_init_def)

lemma demo_get_fd: "i < 2 \<Longrightarrow> get_fd i demo = Some \<lparr>fd_file = 0, read_allowed = True, write_allowed = True,
    cur_block = Some 2, total_offset = 0\<rparr>"
  by (simp add: demo_def del: replicate_Suc)

lemma demo_data: "data (fs_of demo) 0 = Some [1, 2, 3]" "dir (fs_of demo) ''a'' = Some 0"
  using demo_wf by (auto simp: ufs_wf_def data_fs_of dir_fs_of openable_def contents_def mem_at_def demo_def ufs_init_def)

lemma demo_lookup: "lookup fd (fs_of demo) =
    (if fd = 1 \<or> fd = 2 then Some \<lparr>h_file = 0, h_read = True, h_write = True, h_pos = 0\<rparr> else None)"
proof -
  have "get_fd i demo = None" if "2 \<le> i" for i
    using that by (simp add: demo_def get_fd_def fd_slot_def slot_def)
  then show ?thesis
    by (auto simp: lookup_def handles_fs_of demo_get_fd handle_of_def nat_less_iff simp del: get_fd_Some)
qed

subsection \<open>Refinement\<close>

text \<open>
  C1. Every public call of userfs.c that is allowed in a well-formed state has a defined result,
  keeps the state well-formed, and does to the files, names and descriptors what the
  specification of the file system says.
\<close>

theorem ufs_call_refines_spec:
  assumes "ufs_inv s" "call_ok c s"
  shows "\<exists>r out s'. ufs_exec c s = Some ((r, out), s') \<and> ufs_inv s' \<and> fs_exec c (fs_of s) (r, out) (fs_of s')"
  using assms by (rule ufs_exec_refines) blast

theorem ufs_call_refines_spec_witness:
  "\<exists>r out s'. ufs_exec (Resize 1 600) demo = Some ((r, out), s') \<and> ufs_inv s' \<and>
     fs_exec (Resize 1 600) (fs_of demo) (r, out) (fs_of s')"
  by (rule ufs_call_refines_spec[OF demo_inv]) (simp add: mem_for_plenty demo_plenty)

text \<open>
  C7. A sequence of calls from the start of the program, each allowed where it is made, runs to
  its end without undefined behaviour, and its results are ones the specification allows.
\<close>

theorem ufs_runs_refine_spec:
  assumes "all_ok ufs_exec call_ok cs (ufs_init ok)"
  shows "\<exists>rs s'. run_all ufs_exec cs (ufs_init ok) = Some (rs, s') \<and> ufs_inv s' \<and>
    spec_run fs_exec cs (fs_of (ufs_init ok)) rs (fs_of s')"
  by (rule fs.run_refines[OF ufs_inv_init assms])

theorem ufs_runs_refine_spec_witness:
  "\<exists>rs s'. run_all ufs_exec [Open ''a'' UFS_CREATE, Write 1 [1, 2, 3], Resize 1 2, Close 1, Delete ''a'']
       (ufs_init (\<lambda>_. True)) = Some (rs, s') \<and> ufs_inv s' \<and>
     spec_run fs_exec [Open ''a'' UFS_CREATE, Write 1 [1, 2, 3], Resize 1 2, Close 1, Delete ''a'']
       (fs_of (ufs_init (\<lambda>_. True))) rs (fs_of s')"
  by (rule ufs_runs_refine_spec, rule all_ok_plenty) (use ufs_inv_init in \<open>auto simp: plenty_def\<close>, simp add: ufs_init_def)

subsection \<open>Reading and writing\<close>

text \<open>
  C16. In a well-formed state, where every descriptor is in step with its file, a read through a
  descriptor opened for reading returns the bytes of the file from the descriptor's position on, as many
  as were asked for and there are, and changes no file.  A descriptor falls out of step when a read ends
  at the end of a file whose last block is full; nothing is claimed of reads after that.
\<close>

theorem ufs_read_returns_data:
  assumes "ufs_inv s" "lookup fd (fs_of s) = Some h" "h_read h"
  shows "\<exists>s'. ufs_read fd n s = Some (int (length (read_at h n s)), read_at h n s, s') \<and>
    blocks s' = blocks s \<and> files s' = files s"
  using assms by (rule ufs_read_any)

theorem ufs_read_returns_data_witness:
  "\<exists>s'. ufs_read 2 2 demo = Some (2, [1, 2], s') \<and> blocks s' = blocks demo \<and> files s' = files demo"
  using ufs_read_returns_data[OF demo_inv, of 2 "\<lparr>h_file = 0, h_read = True, h_write = True, h_pos = 0\<rparr>" 2]
  by (simp add: demo_lookup data_at_def demo_data read_at_def)

text \<open>
  C8. In a well-formed state, where every descriptor is in step with its file: what is written through one
  descriptor is read back through another one on the same file at the same position, provided that the file stays
  within \<open>MAX_FILE_SIZE\<close>, the allocations for the new blocks succeed, and the descriptors have the permissions.
\<close>

theorem ufs_write_then_read:
  assumes "ufs_inv s" "lookup w (fs_of s) = Some hw" "lookup r (fs_of s) = Some hr" "w \<noteq> r"
    "h_file hr = h_file hw" "h_pos hr = h_pos hw" "h_write hw" "h_read hr"
    "h_pos hw + length buf \<le> MAX_FILE_SIZE" "mem_for (2 * write_blocks w (length buf) s) s"
  shows "\<exists>s1 s2. ufs_write w buf s = Some (int (length buf), s1) \<and>
    ufs_read r (length buf) s1 = Some (int (length buf), buf, s2)"
proof -
  from assms(1) obtain fs B where wf: "ufs_wf s fs B" by (auto simp: ufs_inv_def)
  then have fwf: "files_wf s fs B" and dwf: "fds_wf s B" by (simp_all add: ufs_wf_def)
  have "length buf < SIZE_T - MAX_FILE_SIZE" using assms(9) by simp
  from ufs_write_refines[OF wf this assms(10)] obtain q s1 B' where
    run: "ufs_write w buf s = Some (q, s1)" and wf': "ufs_wf s1 fs B'"
    and spec: "((q, []), fs_of s1) = fs_write w buf (fs_of s)" by blast
  then have q: "q = int (length buf)" and fs1: "fs_of s1 = set_handle w (Some (hw\<lparr>h_pos := h_pos hw + length buf\<rparr>))
      ((fs_of s)\<lparr>data := (data (fs_of s))(h_file hw \<mapsto> blit (h_pos hw) buf (data_at (h_file hw) (fs_of s)))\<rparr>)"
    using assms(7,9) by (simp_all add: fs_write_def assms(2))
  have "lookup r (fs_of s1) = Some hr"
    using assms(2-4) by (auto simp: fs1 lookup_def set_handle_def nat_eq_iff split: if_splits)
  moreover have "h_pos hr \<le> length (data_at (h_file hw) (fs_of s))"
  proof -
    from lookup_Some[OF assms(2)] obtain d where d: "get_fd (nat (w - 1)) s = Some d" "hw = handle_of d" by blast
    from fds_wf_file[OF dwf d(1)] obtain f where f: "files s (fd_file d) = Some f" by blast
    then have "total_offset d \<le> total_size f" using fds_wf_get[OF dwf d(1)] by (auto simp: fd_ok_def)
    then show ?thesis
      using length_contents[OF files_wfD(3)[OF fwf f] files_wfD(4)[OF fwf f]] assms(6)
      by (simp add: d(2) data_at_fs_of[OF fwf f])
  qed
  then have "read_at hr (length buf) s1 = buf"
    using assms(5,6) by (simp add: read_at_def fs1 set_handle_def data_at_def blit_def)
  moreover have "ufs_inv s1" using wf' by (auto simp: ufs_inv_def)
  ultimately obtain s2 where "ufs_read r (length buf) s1 = Some (int (length buf), buf, s2)"
    using ufs_read_any[of s1 r hr "length buf"] assms(8) by auto
  with run q show ?thesis by blast
qed

theorem ufs_write_then_read_witness:
  "\<exists>s1 s2. ufs_write 1 [7, 8] demo = Some (2, s1) \<and> ufs_read 2 2 s1 = Some (2, [7, 8], s2)"
  using ufs_write_then_read[OF demo_inv, of 1 _ 2 _ "[7, 8]"]
  by (simp add: demo_lookup mem_for_plenty demo_plenty numeral_2_eq_2)



subsection \<open>Errors and limits\<close>

text \<open>
  Opening always returns, also when memory runs out at any of its allocations: either -1
  with one of the two documented errors, or a number greater than 0 of a new descriptor at the
  start of the file; the state stays well-formed.
\<close>

theorem ufs_open_always_returns:
  assumes "ufs_inv s"
  shows "\<exists>r s'. ufs_open nm flags s = Some (r, s') \<and> ufs_inv s' \<and>
    (r = RETVAL_FAILURE \<and> ufs_errno s' \<in> {UFS_ERR_NO_FILE, UFS_ERR_NO_MEM} \<or>
     0 < r \<and> lookup r (fs_of s) = None \<and> ufs_errno s' = UFS_ERR_NO_ERR \<and>
       (\<exists>a. dir (fs_of s') nm = Some a \<and> lookup r (fs_of s') = Some (opened a flags)))"
proof -
  from assms obtain fs B where wf: "ufs_wf s fs B" by (auto simp: ufs_inv_def)
  obtain r s' fs' B' where run: "ufs_open nm flags s = Some (r, s')" "ufs_wf s' fs' B'"
    and spec: "fs_open nm flags (fs_of s) r (fs_of s')" by (rule ufs_open_refines[OF wf])
  have errno: "ufs_errno s' = fs_errno (fs_of s')" by (simp add: fs_of_def)
  have dir: "dir A' nm = Some a \<and> handles A' = handles A" if "fs_find nm flags A a A'" for A a A'
    using that by cases (simp_all add: fs_create_def)
  from spec have "r = RETVAL_FAILURE \<and> ufs_errno s' \<in> {UFS_ERR_NO_FILE, UFS_ERR_NO_MEM} \<or>
     0 < r \<and> lookup r (fs_of s) = None \<and> ufs_errno s' = UFS_ERR_NO_ERR \<and>
       (\<exists>a. dir (fs_of s') nm = Some a \<and> lookup r (fs_of s') = Some (opened a flags))"
    by cases (auto simp: errno lookup_def dest: dir)
  with run show ?thesis by (auto simp: ufs_inv_def)
qed

theorem ufs_open_always_returns_witness:
  "\<exists>r s'. ufs_open ''b'' 0 demo = Some (r, s') \<and> ufs_inv s' \<and>
    (r = RETVAL_FAILURE \<and> ufs_errno s' \<in> {UFS_ERR_NO_FILE, UFS_ERR_NO_MEM} \<or>
     0 < r \<and> lookup r (fs_of demo) = None \<and> ufs_errno s' = UFS_ERR_NO_ERR \<and>
       (\<exists>a. dir (fs_of s') ''b'' = Some a \<and> lookup r (fs_of s') = Some (opened a 0)))"
  by (rule ufs_open_always_returns[OF demo_inv])

text \<open>
  A number that is not an open descriptor makes every descriptor operation return -1 with
  \<open>UFS_ERR_NO_FILE\<close> and do nothing else.
\<close>

theorem ufs_invalid_descriptor:
  assumes "ufs_inv s" "lookup fd (fs_of s) = None"
  shows "ufs_write fd buf s = Some (RETVAL_FAILURE, set_err UFS_ERR_NO_FILE s) \<and>
    ufs_read fd n s = Some (RETVAL_FAILURE, [], set_err UFS_ERR_NO_FILE s) \<and>
    ufs_close fd s = Some (RETVAL_FAILURE, set_err UFS_ERR_NO_FILE s) \<and>
    ufs_resize fd n s = Some (RETVAL_FAILURE, set_err UFS_ERR_NO_FILE s)"
proof -
  from assms(1) obtain fs B where "ufs_wf s fs B" by (auto simp: ufs_inv_def)
  then have dwf: "fds_wf s B" by (simp add: ufs_wf_def)
  note bad = lookup_None[OF assms(2)]
  show ?thesis
    by (intro conjI ufs_write_errors(1)[OF dwf bad] ufs_read_errors(1)[OF dwf bad]
        ufs_close_invalid[OF dwf bad] ufs_resize_errors(1)[OF dwf bad])
qed

theorem ufs_invalid_descriptor_witness:
  "ufs_write 3 [1] demo = Some (RETVAL_FAILURE, set_err UFS_ERR_NO_FILE demo) \<and>
   ufs_read 3 5 demo = Some (RETVAL_FAILURE, [], set_err UFS_ERR_NO_FILE demo) \<and>
   ufs_close 3 demo = Some (RETVAL_FAILURE, set_err UFS_ERR_NO_FILE demo) \<and>
   ufs_resize 3 5 demo = Some (RETVAL_FAILURE, set_err UFS_ERR_NO_FILE demo)"
  by (rule ufs_invalid_descriptor[OF demo_inv]) (simp add: demo_lookup)

text \<open>
  No file ever exceeds the size limit, its block list has one block more than it has full
  ones, and its content has exactly its size.
\<close>

theorem ufs_size_limit:
  assumes "ufs_inv s" "files s a = Some f"
  shows "total_size f \<le> MAX_FILE_SIZE \<and> length (chain (blocks s) f) = total_size f div BLOCK_SIZE + 1 \<and>
    length (data_at a (fs_of s)) = total_size f"
proof -
  from assms(1) obtain fs B where "ufs_wf s fs B" by (auto simp: ufs_inv_def)
  then have fwf: "files_wf s fs B" by (simp add: ufs_wf_def)
  note lay = files_wfD(3)[OF fwf assms(2)] and sz = files_wfD(4)[OF fwf assms(2)]
  show ?thesis
    using sz chain_layout[OF lay] length_contents[OF lay sz] data_at_fs_of[OF fwf assms(2)]
    by (simp add: size_ok_def)
qed

theorem ufs_size_limit_witness:
  "total_size (the (files demo 0)) \<le> MAX_FILE_SIZE \<and>
   length (chain (blocks demo) (the (files demo 0))) = total_size (the (files demo 0)) div BLOCK_SIZE + 1 \<and>
   length (data_at 0 (fs_of demo)) = total_size (the (files demo 0))"
  by (rule ufs_size_limit[OF demo_inv]) (simp add: demo_def ufs_init_def)

text \<open>
  C31. Nothing leaks and nothing is shared: after any sequence of calls from the start of the program, each
  allowed where it is made, every block that is still allocated is in the block list of a file and no block is in
  two; every file that is still allocated (its name with it) is found by its name or has an open descriptor; and so, once all files are deleted
  and all descriptors closed, no block and no file is left.
\<close>

theorem ufs_blocks_owned_once:
  assumes "all_ok ufs_exec call_ok cs (ufs_init ok)"
  shows "\<exists>rs s. run_all ufs_exec cs (ufs_init ok) = Some (rs, s) \<and>
    dom (blocks s) = (\<Union>f \<in> ran (files s). set (chain (blocks s) f)) \<and>
    (\<forall>a b f g. files s a = Some f \<and> files s b = Some g \<and> a \<noteq> b \<longrightarrow>
      set (chain (blocks s) f) \<inter> set (chain (blocks s) g) = {}) \<and>
    (\<forall>a \<in> dom (files s). (\<exists>nm. dir (fs_of s) nm = Some a) \<or> (\<exists>i h. handles (fs_of s) i = Some h \<and> h_file h = a)) \<and>
    (dir (fs_of s) = Map.empty \<and> handles (fs_of s) = Map.empty \<longrightarrow> blocks s = Map.empty \<and> files s = Map.empty)"
proof -
  obtain rs s where run: "run_all ufs_exec cs (ufs_init ok) = Some (rs, s)" and inv: "ufs_inv s"
    using fs.run_refines[OF ufs_inv_init assms] by blast
  note own = ufs_inv_blocks[OF inv] and held = ufs_inv_files[OF inv]
  have "blocks s = Map.empty \<and> files s = Map.empty" if "dir (fs_of s) = Map.empty" "handles (fs_of s) = Map.empty"
  proof -
    have "files s = Map.empty" using held that by (auto simp: fun_eq_iff)
    then show ?thesis using own(1) by simp
  qed
  then show ?thesis using run own held by blast
qed

theorem ufs_blocks_owned_once_witness:
  "\<exists>rs s. run_all ufs_exec [Open ''a'' UFS_CREATE, Write 1 [1, 2, 3], Close 1, Delete ''a''] (ufs_init (\<lambda>_. True)) = Some (rs, s) \<and>
     dom (blocks s) = (\<Union>f \<in> ran (files s). set (chain (blocks s) f))"
proof -
  let ?cs = "[Open ''a'' UFS_CREATE, Write 1 [1, 2, 3], Close 1, Delete ''a'']"
  have "all_ok ufs_exec call_ok ?cs (ufs_init (\<lambda>_. True))"
    by (rule all_ok_plenty) (use ufs_inv_init in \<open>auto simp: plenty_def\<close>, simp add: ufs_init_def)
  from ufs_blocks_owned_once[OF this] show ?thesis by blast
qed

end
