(* ===== verification/Ufs_Faults.thy ===== *)
theory Ufs_Faults imports Ufs_Props begin

text \<open>
  Where Assignment_3/userfs.c does not do what userfs.h promises, shown on small well-formed states: a
  write after a read to the end of a full block, calls that run out of memory, and a use after
  \<open>ufs_shutdown\<close>.  The properties in Ufs_Props exclude exactly these runs by their hypotheses.
\<close>

subsection \<open>States\<close>

text \<open>One file of one full block, and so with an empty last block, open once.\<close>

definition full :: ufs where
  "full = (ufs_init (\<lambda>_. True))\<lparr>
     blocks := [2 \<mapsto> \<lparr>memory = replicate 512 7, blk_next = Some 3, blk_prev = None\<rparr>,
       3 \<mapsto> \<lparr>memory = replicate 512 0, blk_next = None, blk_prev = Some 2\<rparr>],
     files := [0 \<mapsto> \<lparr>block_list = Some 2, last_block = Some 3, refs = 1, fname = ''a'', file_next = None,
       file_prev = None, marked_for_deletion = False, total_size = 512\<rparr>],
     file_list := Some 0, file_list_last := Some 0,
     file_descriptors := [Some \<lparr>fd_file = 0, read_allowed = True, write_allowed = True, cur_block = Some 2, total_offset = 0\<rparr>],
     file_descriptor_count := 1, file_descriptor_capacity := 1, file_descriptors_rr_ptr := 0,
     calloc_count := 6\<rparr>"

lemma full_inv: "ufs_inv full"
proof -
  have "files_wf full [0] (\<lambda>_. [2, 3])"
    by (rule files_wfI) (auto simp: full_def ufs_init_def layout_def blocks_full_def size_ok_def split: if_splits)
  moreover have "fds_wf full (\<lambda>_. [2, 3])"
    by (rule fds_wfI) (auto simp: full_def ufs_init_def fd_ok_def split: if_splits)
  ultimately show ?thesis by (auto simp: ufs_inv_def ufs_wf_def)
qed

text \<open>The same state, and one with a file of three bytes, when no allocation succeeds any more.\<close>

definition starved :: ufs where
  "starved = demo\<lparr>calloc_ok := (\<lambda>_. False)\<rparr>"

lemma starved_inv: "ufs_inv starved"
proof -
  have "files_wf starved [0] (\<lambda>_. [2])"
    by (rule files_wfI) (auto simp: starved_def demo_def ufs_init_def layout_def blocks_full_def size_ok_def split: if_splits)
  moreover have "fds_wf starved (\<lambda>_. [2])"
    by (rule fds_wfI) (auto simp: starved_def demo_def ufs_init_def fd_ok_def numeral_2_eq_2 split: if_splits)
  ultimately show ?thesis by (auto simp: ufs_inv_def ufs_wf_def)
qed

lemmas fault_defs = full_def starved_def demo_def ufs_init_def ufs_check_valid_fd_idx_def get_fd_def fd_slot_def set_fd_def
  set_file_def set_block_def deref_block_def upd_file_def to_read_def to_write_def ufs_write_chunk_def Let_def

lemma replicate_small: "replicate 2 x = [x, x]" "replicate 3 x = [x, x, x]"
  by (simp_all add: eval_nat_numeral)

text \<open>
  Reading a file of exactly one full block to its end leaves the descriptor on that block.  The next byte written
  through the descriptor, which should be appended, replaces the first byte of the block; the file grows by a byte
  that was never written.
\<close>

theorem ufs_read_then_write_overwrites:
  "ufs_inv full \<and> (\<exists>s1 s2. ufs_read 1 512 full = Some (512, replicate 512 7, s1) \<and> ufs_write 1 [9] s1 = Some (1, s2) \<and>
     map_option memory (blocks s2 2) = Some (9 # replicate 511 7) \<and>
     map_option memory (blocks s2 3) = Some (replicate 512 0) \<and> map_option total_size (files s2 0) = Some 513)"
proof -
  let ?s1 = "full\<lparr>file_descriptors := [Some \<lparr>fd_file = 0, read_allowed = True, write_allowed = True, cur_block = Some 2, total_offset = 512\<rparr>]\<rparr>"
  have "ufs_read_loop 0 512 full = Some (replicate 512 7, ?s1)"
    by (subst ufs_read_loop.simps) (simp add: fault_defs)
  then have rd: "ufs_read 1 512 full = Some (512, replicate 512 7, ?s1)"
    by (simp add: ufs_read_def fault_defs)
  have "\<exists>s2. ufs_write 1 [9] ?s1 = Some (1, s2) \<and>
     map_option memory (blocks s2 2) = Some (9 # replicate 511 7) \<and>
     map_option memory (blocks s2 3) = Some (replicate 512 0) \<and> map_option total_size (files s2 0) = Some 513"
    by (simp add: ufs_write_def ufs_write_loop.simps[of 0 0 "[9]"] ufs_write_loop.simps[of 0 0 "[]"] fault_defs blit_def)
  then show ?thesis using rd full_inv by blast
qed

text \<open>
  A write that runs out of memory when its block becomes full: if nothing is left to write it reports success,
  with the descriptor and the file left without a block; if anything is left it goes on through the null pointer,
  instead of failing with \<open>UFS_ERR_NO_MEM\<close>.
\<close>

theorem ufs_write_out_of_memory:
  "ufs_inv starved \<and> ufs_write 1 (replicate 513 5) starved = None \<and>
   (\<exists>s1. ufs_write 1 (replicate 512 5) starved = Some (512, s1) \<and> map_option last_block (files s1 0) = Some None \<and>
     map_option cur_block (get_fd 0 s1) = Some None)"
proof -
  note loop = ufs_write_loop.simps[of 0 0 "replicate 513 5"] ufs_write_loop.simps[of 0 0 "replicate 512 5"]
    ufs_write_loop.simps[of 0 0 "replicate 1 5"] ufs_write_loop.simps[of 0 0 "[5]"] ufs_write_loop.simps[of 0 0 "[]"]
  have "ufs_write 1 (replicate 513 5) starved = None"
    by (simp add: ufs_write_def loop fault_defs ufs_add_block_def calloc_def set_err_def replicate_small)
  moreover have "\<exists>s1. ufs_write 1 (replicate 512 5) starved = Some (512, s1) \<and> map_option last_block (files s1 0) = Some None \<and>
     map_option cur_block (get_fd 0 s1) = Some None"
    by (simp add: ufs_write_def loop fault_defs ufs_add_block_def calloc_def set_err_def replicate_small)
  ultimately show ?thesis using starved_inv by blast
qed

text \<open>
  A resize that runs out of memory fails, but leaves the file grown to the end of its block and without the empty
  block that follows a full one.  When memory is there again, a second resize succeeds and wipes the
  beginning of that block.
\<close>

theorem ufs_resize_out_of_memory:
  "ufs_inv starved \<and> (\<exists>s1. ufs_resize 1 600 starved = Some (RETVAL_FAILURE, s1) \<and> ufs_errno s1 = UFS_ERR_NO_MEM \<and>
     map_option total_size (files s1 0) = Some 512 \<and>
     (\<exists>s2. ufs_resize 1 600 (s1\<lparr>calloc_ok := (\<lambda>_. True)\<rparr>) = Some (RETVAL_SUCCESS, s2) \<and>
       map_option (take 3 \<circ> memory) (blocks s1 2) = Some [1, 2, 3] \<and>
       map_option (take 3 \<circ> memory) (blocks s2 2) = Some [0, 0, 0]))"
proof -
  note defs = ufs_resize_def ufs_extend_file_def ufs_extend_chunk_def to_extend_def ufs_errno_def fault_defs
    ufs_add_block_def calloc_def set_err_def replicate_small blit_def
  note loop = ufs_extend_loop.simps[of 0 597] ufs_extend_loop.simps[of 0 88] ufs_extend_loop.simps[of 0 0]
  have "\<exists>s1. ufs_resize 1 600 starved = Some (RETVAL_FAILURE, s1) \<and> ufs_errno s1 = UFS_ERR_NO_MEM \<and>
     map_option total_size (files s1 0) = Some 512 \<and>
     (\<exists>s2. ufs_resize 1 600 (s1\<lparr>calloc_ok := (\<lambda>_. True)\<rparr>) = Some (RETVAL_SUCCESS, s2) \<and>
       map_option (take 3 \<circ> memory) (blocks s1 2) = Some [1, 2, 3] \<and>
       map_option (take 3 \<circ> memory) (blocks s2 2) = Some [0, 0, 0])"
    by (simp add: defs loop)
  then show ?thesis using starved_inv by blast
qed

text \<open>
  After \<open>ufs_shutdown\<close> the file system cannot be used again: it frees the array of descriptors but keeps its
  capacity, so that the next open looks at freed memory.
\<close>

theorem ufs_shutdown_then_open:
  "ufs_inv demo \<and> (\<exists>s1. ufs_shutdown demo = Some s1 \<and> file_descriptor_capacity s1 = 2 \<and>
     ufs_find_file ''a'' s1 = Some (Some 0) \<and> ufs_open ''a'' 0 s1 = None)"
proof -
  note defs = fault_defs ufs_delete_fd_def ufs_find_file_def ufs_open_def ufs_create_fd_def ufs_extend_fd_list_if_needed_def
    calloc_def set_err_def flag_set_def replicate_small ufs_shutdown_def slot_def
  note loops = ufs_shutdown_loop.simps[of 2 0] ufs_shutdown_loop.simps[of 2 1] ufs_shutdown_loop.simps[of 2 2]
    ufs_shutdown_loop.simps[of 2 "Suc 0"] ufs_shutdown_loop.simps[of 2 "Suc (Suc 0)"] find_file_loop.simps[of "''a''" "Some 0"] find_free_slot.simps[of "[]"]
  have "\<exists>s1. ufs_shutdown demo = Some s1 \<and> file_descriptor_capacity s1 = 2 \<and>
     ufs_find_file ''a'' s1 = Some (Some 0) \<and> ufs_open ''a'' 0 s1 = None"
    by (simp add: defs loops)
  then show ?thesis using demo_inv by blast
qed

subsection \<open>Deleting and resizing\<close>

text \<open>
  C26. Deleting a name that is in use: the name is free at once, and every open descriptor keeps its position and can
  still reach the contents; closing the last descriptor of the file then removes them.
\<close>

theorem ufs_delete_keeps_open_files:
  assumes "ufs_inv s" "dir (fs_of s) nm = Some a" "handles (fs_of s) i = Some h" "h_file h = a"
  shows "\<exists>s1 s2. ufs_delete nm s = Some (RETVAL_SUCCESS, s1) \<and> ufs_inv s1 \<and> dir (fs_of s1) nm = None \<and>
    data (fs_of s1) = data (fs_of s) \<and> handles (fs_of s1) = handles (fs_of s) \<and>
    ufs_close (int i + 1) s1 = Some (RETVAL_SUCCESS, s2) \<and> ufs_inv s2 \<and> handles (fs_of s2) i = None \<and>
    data (fs_of s2) a = (if (\<exists>n. n \<noteq> nm \<and> dir (fs_of s) n = Some a) \<or>
      (\<exists>j g. j \<noteq> i \<and> handles (fs_of s) j = Some g \<and> h_file g = a) then data (fs_of s) a else None)"
proof -
  have "call_ok (Delete nm) s" by simp
  from ufs_exec_refines[OF assms(1) this] obtain r out s1 where
    1: "ufs_exec (Delete nm) s = Some ((r, out), s1)" "ufs_inv s1" "fs_exec (Delete nm) (fs_of s) (r, out) (fs_of s1)" by blast
  have ref: "referred a ((fs_of s)\<lparr>dir := (dir (fs_of s))(nm := None)\<rparr>)" using assms(3,4) by (auto simp: referred_def)
  have fs1: "fs_of s1 = (fs_of s)\<lparr>dir := (dir (fs_of s))(nm := None)\<rparr>" "r = RETVAL_SUCCESS"
    using 1(3) assms(2) ref by (auto simp: fs_delete_def reap_def)
  have "call_ok (Close (int i + 1)) s1" by simp
  from ufs_exec_refines[OF 1(2) this] obtain r2 out2 s2 where
    2: "ufs_exec (Close (int i + 1)) s1 = Some ((r2, out2), s2)" "ufs_inv s2"
    "fs_exec (Close (int i + 1)) (fs_of s1) (r2, out2) (fs_of s2)" by blast
  have "lookup (int i + 1) (fs_of s1) = Some h" using assms(3) fs1 by (simp add: lookup_def)
  then have fs2: "fs_of s2 = reap a (set_handle (int i + 1) None (fs_of s1))" "r2 = RETVAL_SUCCESS"
    using 2(3) assms(4) by (auto simp: fs_close_def)
  have "referred a (set_handle (int i + 1) None (fs_of s1)) \<longleftrightarrow> (\<exists>n. n \<noteq> nm \<and> dir (fs_of s) n = Some a) \<or>
      (\<exists>j g. j \<noteq> i \<and> handles (fs_of s) j = Some g \<and> h_file g = a)"
    by (auto simp: referred_def set_handle_def fs1)
  then have data: "data (fs_of s2) a = (if (\<exists>n. n \<noteq> nm \<and> dir (fs_of s) n = Some a) \<or>
      (\<exists>j g. j \<noteq> i \<and> handles (fs_of s) j = Some g \<and> h_file g = a) then data (fs_of s) a else None)"
    and closed: "handles (fs_of s2) i = None"
    by (auto simp: fs2 reap_def set_handle_def fs1)
  have "ufs_delete nm s = Some (RETVAL_SUCCESS, s1)" "ufs_close (int i + 1) s1 = Some (RETVAL_SUCCESS, s2)"
    using 1(1) 2(1) fs1(2) fs2(2) by (auto split: bind_splits)
  then show ?thesis using 1(2) 2(2) fs1(1) data closed by auto
qed

theorem ufs_delete_keeps_open_files_witness:
  "\<exists>s1. ufs_delete ''a'' demo = Some (RETVAL_SUCCESS, s1) \<and> dir (fs_of s1) ''a'' = None \<and> data (fs_of s1) 0 = Some [1, 2, 3]"
proof -
  have "handles (fs_of demo) 0 = Some \<lparr>h_file = 0, h_read = True, h_write = True, h_pos = 0\<rparr>"
    using demo_lookup[of 1] by (simp add: lookup_def)
  from ufs_delete_keeps_open_files[OF demo_inv demo_data(2) this] show ?thesis using demo_data(1) by auto
qed



end
