(* ===== verification/Ufs_Tests.thy ===== *)
theory Ufs_Tests imports Ufs_Api "HOL-Library.Code_Target_Nat" begin

text \<open>
  Tests of userfs that come with the repository (Assignment_3/test.c), run on the model.  A test gives \<open>None\<close> when one of its
  checks fails.  Left out are those that write and read thousands of bytes or files: the end of \<open>test_io\<close> from the
  writing of multiple blocks on, \<open>test_stress_open\<close>, \<open>test_max_file_size\<close> and \<open>test_resize\<close>.
\<close>

definition unit_check :: "bool \<Rightarrow> unit option" where
  "unit_check b = ensure b"

definition unit_fail_if :: "bool \<Rightarrow> unit option" where
  "unit_fail_if b = ensure (\<not> b)"

text \<open>A string without, and with, the zero byte that ends it.\<close>

definition bytes_of :: "string \<Rightarrow> byte list" where
  "bytes_of s = map of_char s"

definition cstr :: "string \<Rightarrow> byte list" where
  "cstr s = bytes_of s @ [0]"

abbreviation (input) INT_MAX :: int where "INT_MAX \<equiv> 2147483647"

subsection \<open>The tests\<close>

definition test_open :: "ufs \<Rightarrow> ufs option" where
  "test_open s = do {
     (fd, s) \<leftarrow> ufs_open ''file'' 0 s;
     unit_check (fd = -1);
     unit_check (ufs_errno s = UFS_ERR_NO_FILE);
     (fd, s) \<leftarrow> ufs_open ''file'' UFS_CREATE s;
     unit_check (fd \<noteq> -1);
     (r, s) \<leftarrow> ufs_close fd s;
     unit_check (r = 0);
     (fd, s) \<leftarrow> ufs_open ''file'' 0 s;
     unit_check (fd \<noteq> -1);
     (r, s) \<leftarrow> ufs_close fd s;
     unit_fail_if (r \<noteq> 0);
     (fd, s) \<leftarrow> ufs_open ''file'' UFS_CREATE s;
     unit_check (fd \<noteq> -1);
     (fd2, s) \<leftarrow> ufs_open ''file'' 0 s;
     unit_check (fd2 \<noteq> -1);
     unit_check (fd2 \<noteq> fd);
     (r, s) \<leftarrow> ufs_close fd2 s;
     unit_check (r = 0);
     (r, s) \<leftarrow> ufs_close fd s;
     unit_check (r = 0);
     (r, s) \<leftarrow> ufs_delete ''file'' s;
     unit_check (r = 0);
     (fd, s) \<leftarrow> ufs_open ''file'' 0 s;
     unit_check (fd = -1);
     Some s
   }"

definition test_close :: "ufs \<Rightarrow> ufs option" where
  "test_close s = do {
     (r, s) \<leftarrow> ufs_close (-1) s;
     unit_check (r = -1);
     unit_check (ufs_errno s = UFS_ERR_NO_FILE);
     (r, s) \<leftarrow> ufs_close 0 s;
     unit_check (r = -1);
     unit_fail_if (ufs_errno s \<noteq> UFS_ERR_NO_FILE);
     (r, s) \<leftarrow> ufs_close INT_MAX s;
     unit_check (r = -1);
     unit_fail_if (ufs_errno s \<noteq> UFS_ERR_NO_FILE);
     (fd, s) \<leftarrow> ufs_open ''file'' UFS_CREATE s;
     unit_fail_if (fd = -1);
     (r, s) \<leftarrow> ufs_close fd s;
     unit_check (r = 0);
     (r, s) \<leftarrow> ufs_close fd s;
     unit_check (r = -1);
     unit_check (ufs_errno s = UFS_ERR_NO_FILE);
     Some s
   }"

text \<open>\<open>test_io\<close> in three parts, of which two are here.\<close>

definition test_io_errors :: "ufs \<Rightarrow> ufs option" where
  "test_io_errors s = do {
     (rc, s) \<leftarrow> ufs_write (-1) [] s;
     unit_check (rc = -1);
     unit_check (ufs_errno s = UFS_ERR_NO_FILE);
     (rc, s) \<leftarrow> ufs_write 0 [] s;
     unit_check (rc = -1);
     unit_fail_if (ufs_errno s \<noteq> UFS_ERR_NO_FILE);
     (rc, out, s) \<leftarrow> ufs_read (-1) 0 s;
     unit_check (rc = -1);
     unit_check (ufs_errno s = UFS_ERR_NO_FILE);
     (rc, out, s) \<leftarrow> ufs_read 0 0 s;
     unit_check (rc = -1);
     unit_fail_if (ufs_errno s \<noteq> UFS_ERR_NO_FILE);
     Some s
   }"

definition test_io_small :: "ufs \<Rightarrow> ufs option" where
  "test_io_small s = do {
     (fd1, s) \<leftarrow> ufs_open ''file'' UFS_CREATE s;
     (fd2, s) \<leftarrow> ufs_open ''file'' 0 s;
     unit_fail_if (fd1 = -1 \<or> fd2 = -1);
     (rc, s) \<leftarrow> ufs_write fd1 (bytes_of ''123'') s;
     unit_check (rc = 3);
     (rc, buffer, s) \<leftarrow> ufs_read fd2 2048 s;
     unit_check (rc = 3);
     unit_check (take 3 buffer = bytes_of ''123'');
     (_, s) \<leftarrow> ufs_close fd1 s;
     (_, s) \<leftarrow> ufs_close fd2 s;
     (fd1, s) \<leftarrow> ufs_open ''file'' 0 s;
     unit_fail_if (fd1 = -1);
     (rc, buffer, s) \<leftarrow> ufs_read fd1 2048 s;
     unit_check (rc = 3);
     unit_check (take 3 buffer = bytes_of ''123'');
     (rc, s) \<leftarrow> ufs_write fd1 (bytes_of ''45678'') s;
     unit_check (rc = 5);
     (_, s) \<leftarrow> ufs_close fd1 s;
     (fd1, s) \<leftarrow> ufs_open ''file'' 0 s;
     unit_fail_if (fd1 = -1);
     (rc, s) \<leftarrow> ufs_write fd1 (bytes_of ''abcd'') s;
     unit_check (rc = 4);
     (rc, buffer, s) \<leftarrow> ufs_read fd1 2048 s;
     unit_check (rc = 4);
     unit_check (take 4 buffer = bytes_of ''5678'');
     (_, s) \<leftarrow> ufs_close fd1 s;
     (fd1, s) \<leftarrow> ufs_open ''file'' 0 s;
     unit_fail_if (fd1 = -1);
     (rc, buffer, s) \<leftarrow> ufs_read fd1 2048 s;
     unit_check (rc = 8);
     unit_check (take 4 buffer = take 4 (bytes_of ''abcd5678''));
     (_, s) \<leftarrow> ufs_close fd1 s;
     Some s
   }"

definition test_io_start :: "ufs \<Rightarrow> ufs option" where
  "test_io_start s = do {
     s \<leftarrow> test_io_errors s;
     test_io_small s
   }"

definition test_delete :: "ufs \<Rightarrow> ufs option" where
  "test_delete s = do {
     (fd1, s) \<leftarrow> ufs_open ''file'' UFS_CREATE s;
     (fd2, s) \<leftarrow> ufs_open ''file'' 0 s;
     (fd3, s) \<leftarrow> ufs_open ''file'' 0 s;
     unit_fail_if (fd1 = -1 \<or> fd2 = -1 \<or> fd3 = -1);
     (r, s) \<leftarrow> ufs_delete ''file'' s;
     unit_check (r = 0);
     (tmp, s) \<leftarrow> ufs_open ''tmp'' UFS_CREATE s;
     unit_fail_if (tmp = -1);
     (rc, s) \<leftarrow> ufs_write tmp (bytes_of ''hhhhh'') s;
     unit_fail_if (rc \<noteq> 5);
     (_, s) \<leftarrow> ufs_close tmp s;
     (rc, s) \<leftarrow> ufs_write fd2 (bytes_of ''a'') s;
     unit_check (rc = 1);
     (rc, c1, s) \<leftarrow> ufs_read fd3 1 s;
     unit_check (rc = 1);
     unit_check (c1 = bytes_of ''a'');
     (rc, s) \<leftarrow> ufs_write fd3 (bytes_of ''bc'') s;
     unit_check (rc = 2);
     (rc, c1, s) \<leftarrow> ufs_read fd1 1 s;
     unit_check (rc = 1);
     (rc, c2, s) \<leftarrow> ufs_read fd1 1 s;
     unit_check (rc = 1);
     unit_check (c1 = bytes_of ''a'' \<and> c2 = bytes_of ''b'');
     (fd4, s) \<leftarrow> ufs_open ''file'' 0 s;
     unit_check (fd4 = -1);
     unit_check (ufs_errno s = UFS_ERR_NO_FILE);
     (fd4, s) \<leftarrow> ufs_open ''file'' UFS_CREATE s;
     unit_fail_if (fd4 = -1);
     (rc, c1, s) \<leftarrow> ufs_read fd4 1 s;
     unit_check (rc = 0);
     (rc, c2, s) \<leftarrow> ufs_read fd1 1 s;
     unit_check (rc = 1);
     unit_check (c2 = bytes_of ''c'');
     (r, s) \<leftarrow> ufs_delete ''file'' s;
     unit_check (r = 0);
     (r, s) \<leftarrow> ufs_close fd1 s;
     unit_fail_if (r \<noteq> 0);
     (r, s) \<leftarrow> ufs_close fd2 s;
     unit_fail_if (r \<noteq> 0);
     (r, s) \<leftarrow> ufs_close fd3 s;
     unit_fail_if (r \<noteq> 0);
     (r, s) \<leftarrow> ufs_close fd4 s;
     unit_fail_if (r \<noteq> 0);
     (r, s) \<leftarrow> ufs_delete ''tmp'' s;
     unit_fail_if (r \<noteq> 0);
     Some s
   }"

text \<open>\<open>test_rights\<close> in four parts.\<close>

definition test_rights_none :: "ufs \<Rightarrow> ufs option" where
  "test_rights_none s = do {
     let buf1 = cstr ''hello'';
     (fd, s) \<leftarrow> ufs_open ''file'' UFS_CREATE s;
     unit_check (fd \<noteq> -1);
     (rc, buf, s) \<leftarrow> ufs_read fd (length buf1) s;
     unit_check (rc = 0);
     (rc, s) \<leftarrow> ufs_write fd buf1 s;
     unit_check (rc = int (length buf1));
     (r, s) \<leftarrow> ufs_close fd s;
     unit_fail_if (r \<noteq> 0);
     (fd, s) \<leftarrow> ufs_open ''file'' 0 s;
     unit_check (fd \<noteq> -1);
     (rc, buf2, s) \<leftarrow> ufs_read fd 128 s;
     unit_check (rc = int (length buf1));
     unit_fail_if (take (length buf1) buf2 \<noteq> buf1);
     (rc, s) \<leftarrow> ufs_write fd buf1 s;
     unit_check (rc = int (length buf1));
     (r, s) \<leftarrow> ufs_close fd s;
     unit_fail_if (r \<noteq> 0);
     Some s
   }"

definition test_rights_read :: "ufs \<Rightarrow> ufs option" where
  "test_rights_read s = do {
     let buf1 = cstr ''hello'';
     (fd, s) \<leftarrow> ufs_open ''file'' UFS_READ_ONLY s;
     unit_check (fd \<noteq> -1);
     (rc, buf2, s) \<leftarrow> ufs_read fd (length buf1) s;
     unit_check (rc = int (length buf1));
     unit_fail_if (take (length buf1) buf2 \<noteq> buf1);
     (rc, s) \<leftarrow> ufs_write fd (cstr ''bad'') s;
     unit_check (rc = -1);
     unit_check (ufs_errno s = UFS_ERR_NO_PERMISSION);
     (rc, buf2, s) \<leftarrow> ufs_read fd 128 s;
     unit_check (rc = int (length buf1));
     unit_check (take (length buf1) buf2 = buf1);
     (r, s) \<leftarrow> ufs_close fd s;
     unit_fail_if (r \<noteq> 0);
     Some s
   }"

definition test_rights_write :: "ufs \<Rightarrow> ufs option" where
  "test_rights_write s = do {
     let buf1 = cstr ''hello'';
     let buf3 = cstr ''new data which rewrites previous'';
     (fd, s) \<leftarrow> ufs_open ''file'' UFS_WRITE_ONLY s;
     unit_check (fd \<noteq> -1);
     (rc, buf2, s) \<leftarrow> ufs_read fd 128 s;
     unit_check (rc = -1);
     unit_check (ufs_errno s = UFS_ERR_NO_PERMISSION);
     (rc, s) \<leftarrow> ufs_write fd buf3 s;
     unit_check (rc = int (length buf3));
     (r, s) \<leftarrow> ufs_close fd s;
     unit_fail_if (r \<noteq> 0);
     (fd, s) \<leftarrow> ufs_open ''file'' UFS_READ_WRITE s;
     unit_check (fd \<noteq> -1);
     (rc, buf2, s) \<leftarrow> ufs_read fd 128 s;
     unit_check (rc = int (length buf3));
     unit_check (take (length buf3) buf2 = buf3);
     (rc, s) \<leftarrow> ufs_write fd buf1 s;
     unit_check (rc = int (length buf1));
     (r, s) \<leftarrow> ufs_close fd s;
     unit_fail_if (r \<noteq> 0);
     Some s
   }"

definition test_rights_truncate :: "ufs \<Rightarrow> ufs option" where
  "test_rights_truncate s = do {
     (r, s) \<leftarrow> ufs_delete ''file'' s;
     unit_fail_if (r \<noteq> 0);
     (fd, s) \<leftarrow> ufs_open ''file'' UFS_CREATE s;
     unit_fail_if (fd = -1);
     (_, s) \<leftarrow> ufs_close fd s;
     (fd, s) \<leftarrow> ufs_open ''file'' UFS_WRITE_ONLY s;
     unit_fail_if (fd = -1);
     (rc, s) \<leftarrow> ufs_write fd (bytes_of ''123456'') s;
     unit_check (rc = 6);
     (r, s) \<leftarrow> ufs_close fd s;
     unit_fail_if (r \<noteq> 0);
     (fd, s) \<leftarrow> ufs_open ''file'' UFS_WRITE_ONLY s;
     (rc, s) \<leftarrow> ufs_write fd (bytes_of ''abc'') s;
     unit_check (rc = 3);
     (r, s) \<leftarrow> ufs_close fd s;
     unit_fail_if (r \<noteq> 0);
     (fd, s) \<leftarrow> ufs_open ''file'' UFS_READ_ONLY s;
     (rc, buf2, s) \<leftarrow> ufs_read fd 128 s;
     unit_check (rc = 6);
     unit_check (take 6 buf2 = bytes_of ''abc456'');
     (r, s) \<leftarrow> ufs_close fd s;
     unit_fail_if (r \<noteq> 0);
     (r, s) \<leftarrow> ufs_delete ''file'' s;
     unit_fail_if (r \<noteq> 0);
     Some s
   }"

definition test_rights :: "ufs \<Rightarrow> ufs option" where
  "test_rights s = do {
     s \<leftarrow> test_rights_none s;
     s \<leftarrow> test_rights_read s;
     s \<leftarrow> test_rights_write s;
     test_rights_truncate s
   }"

subsection \<open>They pass\<close>

text \<open>The file system at the start of a program with memory enough.\<close>

abbreviation at_start :: ufs where
  "at_start \<equiv> ufs_init (\<lambda>_. True)"

lemma test_open_passes: "test_open at_start \<noteq> None"
  by code_simp

lemma test_close_passes: "test_close at_start \<noteq> None"
  by code_simp

lemma test_io_passes: "test_io_start at_start \<noteq> None"
  by code_simp

lemma test_delete_passes: "test_delete at_start \<noteq> None"
  by code_simp

lemma test_rights_passes: "test_rights at_start \<noteq> None"
  by code_simp

end
