(* ===== verification/Tp_Queue.thy ===== *)
theory Tp_Queue imports Prelude begin

text \<open>
  The data of the thread pool, Assignment_4/thread_pool.c and thread_pool.h, and the ring buffer
  of tasks inside \<open>struct thread_pool\<close>: what \<open>thread_pool_push_task\<close> does to put a task in and
  \<open>thread_worker\<close> to take one out.

  \<open>mutex\<close> says whether the pool's mutex is held between two atomic sections of the code, which
  happens on one path only.  The array \<open>threads\<close> holds, for each created thread, where it is in
  \<open>thread_worker\<close>.  Tasks are addressed by numbers.
\<close>

abbreviation (input) TPOOL_MAX_THREADS :: int where "TPOOL_MAX_THREADS \<equiv> 20"
abbreviation (input) TPOOL_MAX_TASKS :: nat where "TPOOL_MAX_TASKS \<equiv> 100000"

datatype thread_pool_errcode =
    TPOOL_OK
  | TPOOL_ERR_INVALID_ARGUMENT
  | TPOOL_ERR_TOO_MANY_TASKS
  | TPOOL_ERR_HAS_TASKS
  | TPOOL_ERR_TASK_NOT_PUSHED
  | TPOOL_ERR_TASK_IN_POOL
  | TPOOL_ERR_NOT_IMPLEMENTED
  | TPOOL_ERR_TIMEOUT
  | TPOOL_ERR_PTHREAD_ERROR
  | TPOOL_ERR_ALLOCATION_ERROR

datatype task_state = TASK_CREATED | TASK_QUEUED | TASK_EXECUTING | TASK_DONE | TASK_JOINED

text \<open>
  Where a thread is in \<open>thread_worker\<close>: about to lock the pool's mutex and test whether to wait
  (at the top of its loop, or woken inside \<open>pthread_cond_wait\<close>), asleep in \<open>pthread_cond_wait\<close>,
  with a task taken off the queue, inside \<open>function\<close>, with the function's result stored, with \<open>task_executing\<close> counted
  down, about to free a detached task, or out of its loop.
\<close>

datatype worker =
    W_Loop
  | W_Wait
  | W_Got "addr option"
  | W_Run addr
  | W_Ran addr
  | W_Counted addr
  | W_Free addr
  | W_Exit

record thread_pool =
  max_thread_count :: int
  task_waiting :: int
  task_executing :: int
  created_threads_count :: int
  mutex :: bool
  shutdown :: bool
  queue :: "addr option list"
  writePtr :: nat
  readPtr :: nat
  threads :: "worker list"

subsection \<open>The operations on the buffer\<close>

text \<open>\<open>queue[writePtr] = task; writePtr++; task_waiting++\<close>, with the pointer wrapping round.\<close>

definition enqueue :: "addr option \<Rightarrow> thread_pool \<Rightarrow> thread_pool option" where
  "enqueue t p = do {
     ensure (writePtr p < length (queue p));
     let p = p\<lparr>queue := (queue p)[writePtr p := t], writePtr := writePtr p + 1,
       task_waiting := task_waiting p + 1\<rparr>;
     Some (if writePtr p = TPOOL_MAX_TASKS then p\<lparr>writePtr := 0\<rparr> else p)
   }"

definition dequeue :: "thread_pool \<Rightarrow> (addr option \<times> thread_pool) option" where
  "dequeue p = do {
     t \<leftarrow> slot (queue p) (readPtr p);
     let p = p\<lparr>queue := (queue p)[readPtr p := None], readPtr := readPtr p + 1,
       task_waiting := task_waiting p - 1\<rparr>;
     Some (t, if readPtr p = TPOOL_MAX_TASKS then p\<lparr>readPtr := 0\<rparr> else p)
   }"

subsection \<open>The contract of a bounded queue\<close>

text \<open>Any mix of operations: \<open>Some x\<close> puts \<open>x\<close> in, \<open>None\<close> takes one out.\<close>

fun queue_ops :: "('a \<Rightarrow> 'q \<Rightarrow> 'q option) \<Rightarrow> ('q \<Rightarrow> ('a \<times> 'q) option) \<Rightarrow> 'a option list \<Rightarrow> 'q \<Rightarrow> ('a list \<times> 'q) option" where
  "queue_ops enq deq [] q = Some ([], q)"
| "queue_ops enq deq (Some x # as) q = do { q \<leftarrow> enq x q; queue_ops enq deq as q }"
| "queue_ops enq deq (None # as) q = do {
     (x, q) \<leftarrow> deq q;
     (xs, q) \<leftarrow> queue_ops enq deq as q;
     Some (x # xs, q)
   }"

text \<open>The number of elements stays between 0 and the capacity.\<close>

fun queue_fits :: "nat \<Rightarrow> 'a option list \<Rightarrow> nat \<Rightarrow> bool" where
  "queue_fits cap [] n = True"
| "queue_fits cap (Some x # as) n \<longleftrightarrow> n < cap \<and> queue_fits cap as (Suc n)"
| "queue_fits cap (None # as) n \<longleftrightarrow> 0 < n \<and> queue_fits cap as (n - 1)"

fun puts :: "'a option list \<Rightarrow> 'a list" where
  "puts [] = []"
| "puts (Some x # as) = x # puts as"
| "puts (None # as) = puts as"

text \<open>
  What a client of a bounded queue relies on; \<open>elems\<close> is the abstraction to a list, oldest first.
\<close>

locale bounded_queue =
  fixes enq :: "'a \<Rightarrow> 'q \<Rightarrow> 'q option"
    and deq :: "'q \<Rightarrow> ('a \<times> 'q) option"
    and elems :: "'q \<Rightarrow> 'a list"
    and wf :: "'q \<Rightarrow> bool"
    and cap :: nat
  assumes enq_ok: "wf q \<Longrightarrow> length (elems q) < cap \<Longrightarrow>
      \<exists>q'. enq x q = Some q' \<and> wf q' \<and> elems q' = elems q @ [x]"
    and deq_ok: "wf q \<Longrightarrow> elems q = x # xs \<Longrightarrow> \<exists>q'. deq q = Some (x, q') \<and> wf q' \<and> elems q' = xs"
begin

lemma ops_fifo:
  "wf q \<Longrightarrow> queue_fits cap as (length (elems q)) \<Longrightarrow>
   \<exists>out q'. queue_ops enq deq as q = Some (out, q') \<and> wf q' \<and> elems q @ puts as = out @ elems q'"
proof (induction as arbitrary: q)
  case (Cons a as)
  show ?case
  proof (cases a)
    case None
    with Cons.prems obtain x xs where x: "elems q = x # xs" by (cases "elems q") auto
    from deq_ok[OF Cons.prems(1) x] obtain q1 where q1: "deq q = Some (x, q1)" "wf q1" "elems q1 = xs" by blast
    have "queue_fits cap as (length (elems q1))" using Cons.prems(2) None x q1(3) by simp
    from Cons.IH[OF q1(2) this] q1 x None show ?thesis by auto
  next
    case (Some x)
    with Cons.prems have "length (elems q) < cap" by simp
    from enq_ok[OF Cons.prems(1) this] obtain q1 where
      q1: "enq x q = Some q1" "wf q1" "elems q1 = elems q @ [x]" by blast
    have "queue_fits cap as (length (elems q1))" using Cons.prems(2) Some q1(3) by simp
    from Cons.IH[OF q1(2) this] q1 Some show ?thesis by auto
  qed
qed simp

end

subsection \<open>The ring buffer is a bounded queue\<close>

text \<open>The element \<open>k\<close> places after the oldest one.\<close>

definition queue_at :: "thread_pool \<Rightarrow> nat \<Rightarrow> addr option" where
  "queue_at p k = queue p ! ((readPtr p + k) mod TPOOL_MAX_TASKS)"

definition queued :: "thread_pool \<Rightarrow> addr option list" where
  "queued p = map (queue_at p) [0..<nat (task_waiting p)]"

definition queue_wf :: "thread_pool \<Rightarrow> bool" where
  "queue_wf p \<longleftrightarrow> length (queue p) = TPOOL_MAX_TASKS \<and> readPtr p < TPOOL_MAX_TASKS \<and>
     0 \<le> task_waiting p \<and> task_waiting p \<le> int TPOOL_MAX_TASKS \<and>
     writePtr p = (readPtr p + nat (task_waiting p)) mod TPOOL_MAX_TASKS"

lemma length_queued: "queue_wf p \<Longrightarrow> int (length (queued p)) = task_waiting p"
  by (simp add: queued_def queue_wf_def)

lemma mod_eq_window:
  fixes n :: nat
  assumes "(r + i) mod n = (r + k) mod n" "i < n" "k < n"
  shows "i = k"
proof -
  have "(int r + int i) mod int n = (int r + int k) mod int n"
    using assms(1) by (metis of_nat_add of_nat_mod)
  then have "int i mod int n = int k mod int n" by (metis mod_add_cong add_diff_cancel_left' mod_diff_cong)
  then show ?thesis using assms by simp
qed

lemma enqueue_wf:
  assumes wf: "queue_wf p" and room: "length (queued p) < TPOOL_MAX_TASKS"
  obtains p' where "enqueue t p = Some p'" "queue_wf p'" "queued p' = queued p @ [t]"
    "p' = p\<lparr>queue := queue p', writePtr := writePtr p', task_waiting := task_waiting p + 1\<rparr>"
proof -
  define n where "n = nat (task_waiting p)"
  from wf have q: "length (queue p) = TPOOL_MAX_TASKS" "readPtr p < TPOOL_MAX_TASKS" "task_waiting p = int n"
    "writePtr p = (readPtr p + n) mod TPOOL_MAX_TASKS" by (auto simp: queue_wf_def n_def)
  have n: "n < TPOOL_MAX_TASKS" using room by (simp add: queued_def n_def)
  define p' where "p' = p\<lparr>queue := (queue p)[writePtr p := t],
    writePtr := (readPtr p + Suc n) mod TPOOL_MAX_TASKS, task_waiting := task_waiting p + 1\<rparr>"
  have w: "writePtr p < TPOOL_MAX_TASKS" by (simp add: q(4))
  have wrap: "Suc (readPtr p + n) mod TPOOL_MAX_TASKS = (if Suc (writePtr p) = TPOOL_MAX_TASKS then 0 else Suc (writePtr p))"
    by (simp add: q(4) mod_Suc)
  have run: "enqueue t p = Some p'"
  proof (cases "Suc (writePtr p) = TPOOL_MAX_TASKS")
    case True
    then show ?thesis using w q(1) wrap
      by (simp add: enqueue_def p'_def)
  next
    case False
    then show ?thesis using w q(1) wrap by (simp add: enqueue_def p'_def)
  qed
  have wf': "queue_wf p'" using q n by (simp add: queue_wf_def p'_def nat_add_distrib)
  have old: "queue_at p' k = queue_at p k" if "k < n" for k
  proof -
    have "(readPtr p + k) mod TPOOL_MAX_TASKS \<noteq> writePtr p"
      using mod_eq_window[of "readPtr p" k TPOOL_MAX_TASKS n] that n q(4) by auto
    then show ?thesis by (simp add: queue_at_def p'_def)
  qed
  have new: "queue_at p' n = t" using w q by (simp add: queue_at_def p'_def)
  have "queued p' = queued p @ [t]"
    using old new by (simp add: queued_def p'_def[THEN arg_cong, of task_waiting] q(3) nat_add_distrib)
  with run wf' show thesis by (intro that[of p']) (simp_all add: p'_def)
qed

lemma dequeue_wf:
  assumes wf: "queue_wf p" and some: "queued p = t # ts"
  obtains p' where "dequeue p = Some (t, p')" "queue_wf p'" "queued p' = ts"
    "p' = p\<lparr>queue := queue p', readPtr := readPtr p', task_waiting := task_waiting p - 1\<rparr>"
proof -
  define n where "n = nat (task_waiting p) - 1"
  have "0 < nat (task_waiting p)" using some by (cases "nat (task_waiting p)") (auto simp: queued_def)
  with wf have q: "length (queue p) = TPOOL_MAX_TASKS" "readPtr p < TPOOL_MAX_TASKS" "task_waiting p = int (Suc n)"
    "writePtr p = (readPtr p + Suc n) mod TPOOL_MAX_TASKS" "Suc n \<le> TPOOL_MAX_TASKS"
    by (auto simp: queue_wf_def n_def)
  define p' where "p' = p\<lparr>queue := (queue p)[readPtr p := None],
    readPtr := Suc (readPtr p) mod TPOOL_MAX_TASKS, task_waiting := task_waiting p - 1\<rparr>"
  have "queued p = queue_at p 0 # map (queue_at p) (map Suc [0..<n])"
    unfolding queued_def q(3) nat_int map_Suc_upt by (simp add: upt_conv_Cons del: upt_Suc)
  then have t: "t = queue_at p 0" and ts: "ts = map (\<lambda>k. queue_at p (Suc k)) [0..<n]" using some by simp_all
  have run: "dequeue p = Some (t, p')"
  proof (cases "Suc (readPtr p) = TPOOL_MAX_TASKS")
    case True
    then show ?thesis using q(1,2) t
      by (simp add: dequeue_def p'_def queue_at_def)
  next
    case False
    then show ?thesis using q(1,2) t by (simp add: dequeue_def p'_def queue_at_def)
  qed
  have shift: "(Suc (readPtr p) mod TPOOL_MAX_TASKS + k) mod TPOOL_MAX_TASKS = (readPtr p + Suc k) mod TPOOL_MAX_TASKS" for k
    by (simp add: mod_simps)
  have wf': "queue_wf p'" using q shift by (simp add: queue_wf_def p'_def)
  have "queue_at p' k = queue_at p (Suc k)" if "k < n" for k
  proof -
    have "(readPtr p + Suc k) mod TPOOL_MAX_TASKS \<noteq> readPtr p"
      using mod_eq_window[of "readPtr p" "Suc k" TPOOL_MAX_TASKS 0] that q(2,5) by auto
    then show ?thesis by (simp add: queue_at_def p'_def shift)
  qed
  then have "queued p' = ts" by (simp add: queued_def p'_def[THEN arg_cong, of task_waiting] q(3) ts)
  with run wf' show thesis by (intro that[of p']) (simp_all add: p'_def)
qed

interpretation ring: bounded_queue enqueue dequeue queued queue_wf TPOOL_MAX_TASKS
proof
  fix p t assume "queue_wf p" "length (queued p) < TPOOL_MAX_TASKS"
  then show "\<exists>p'. enqueue t p = Some p' \<and> queue_wf p' \<and> queued p' = queued p @ [t]"
    by (rule enqueue_wf) blast
next
  fix p t ts assume "queue_wf p" "queued p = t # ts"
  then show "\<exists>p'. dequeue p = Some (t, p') \<and> queue_wf p' \<and> queued p' = ts"
    by (rule dequeue_wf) blast
qed

end
