(* ===== verification/Tp_Api.thy ===== *)
theory Tp_Api imports Complex_Main Tp_Queue begin

text \<open>
  The interface functions of Assignment_4/thread_pool.c and the atomic sections of its worker.
  Each function is what the code does while it holds the mutexes it takes; a function that needs
  the pool's mutex is only called when the mutex is free.  A result \<open>None\<close> of the whole is
  undefined behaviour.

  A pool pointer is \<open>None\<close> for NULL and \<open>Some ()\<close> for the pool of the system; a task pointer is
  \<open>None\<close> or an address.  A \<open>function\<close> is client code and appears as a function of its argument.
  \<open>created\<close> and \<open>allocated\<close> are the outcomes of \<open>pthread_create\<close> and \<open>calloc\<close>.
\<close>

type_synonym cvalue = nat

record thread_task =
  task_function :: "cvalue \<Rightarrow> cvalue"
  arg :: cvalue
  result :: cvalue
  state :: task_state
  detachMode :: bool

record system =
  pool :: "thread_pool option"
  tasks :: "addr \<rightharpoonup> thread_task"
  next_addr :: addr

definition set_pool :: "thread_pool \<Rightarrow> system \<Rightarrow> system" where
  "set_pool p s = s\<lparr>pool := Some p\<rparr>"

definition set_task :: "addr \<Rightarrow> thread_task \<Rightarrow> system \<Rightarrow> system" where
  "set_task a t s = s\<lparr>tasks := (tasks s)(a \<mapsto> t)\<rparr>"

definition free_task :: "addr \<Rightarrow> system \<Rightarrow> system option" where
  "free_task a s = do { _ \<leftarrow> tasks s a; Some (s\<lparr>tasks := (tasks s)(a := None)\<rparr>) }"

subsection \<open>The condition variable of the pool\<close>

text \<open>
  A signal wakes one of the threads that wait, and nobody when none waits; which one is not the
  program's choice, so it is a parameter, and every waiting thread is the choice of some number.
  A broadcast wakes all.  A woken thread is back at the test of its waiting loop.
\<close>

definition waiters :: "worker list \<Rightarrow> nat list" where
  "waiters ws = filter (\<lambda>i. ws ! i = W_Wait) [0..<length ws]"

definition cond_signal :: "nat \<Rightarrow> worker list \<Rightarrow> worker list" where
  "cond_signal k ws =
    (if waiters ws = [] then ws else ws[waiters ws ! (k mod length (waiters ws)) := W_Loop])"

definition cond_broadcast :: "worker list \<Rightarrow> worker list" where
  "cond_broadcast ws = map (\<lambda>w. if w = W_Wait then W_Loop else w) ws"

lemma cond_signal_cases:
  obtains (nobody) "W_Wait \<notin> set ws" "cond_signal k ws = ws"
  | (one) i where "i < length ws" "ws ! i = W_Wait" "cond_signal k ws = ws[i := W_Loop]"
proof (cases "waiters ws = []")
  case True
  then have "W_Wait \<notin> set ws" by (auto simp: waiters_def filter_empty_conv in_set_conv_nth)
  then show thesis using nobody True by (simp add: cond_signal_def)
next
  case False
  then have "waiters ws ! (k mod length (waiters ws)) \<in> set (waiters ws)" by (intro nth_mem) simp
  then show thesis using one False by (auto simp: cond_signal_def waiters_def)
qed

lemma cond_signal_chooses:
  assumes "i < length ws" "ws ! i = W_Wait"
  shows "\<exists>k. cond_signal k ws = ws[i := W_Loop]"
proof -
  have "i \<in> set (waiters ws)" using assms by (simp add: waiters_def)
  then obtain k where "k < length (waiters ws)" "waiters ws ! k = i" by (auto simp: in_set_conv_nth)
  then have "cond_signal k ws = ws[i := W_Loop]" by (auto simp: cond_signal_def)
  then show ?thesis ..
qed

lemma cond_signal_map: "f W_Loop = f W_Wait \<Longrightarrow> map f (cond_signal k ws) = map f ws"
  by (cases k ws rule: cond_signal_cases) (auto simp: map_update intro: list_update_same_conv[THEN iffD2])

lemma cond_broadcast_map: "f W_Loop = f W_Wait \<Longrightarrow> map f (cond_broadcast ws) = map f ws"
  by (auto simp: cond_broadcast_def)

lemma length_cond [simp]: "length (cond_signal k ws) = length ws" "length (cond_broadcast ws) = length ws"
  by (simp_all add: cond_signal_def cond_broadcast_def)

lemma set_cond_signal: "w \<in> set (cond_signal k ws) \<Longrightarrow> w = W_Loop \<or> w \<in> set ws"
  by (cases k ws rule: cond_signal_cases) (use set_update_subset_insert in fastforce)+

lemma set_cond_broadcast: "w \<in> set (cond_broadcast ws) \<Longrightarrow> w = W_Loop \<or> w \<in> set ws \<and> w \<noteq> W_Wait"
  by (auto simp: cond_broadcast_def split: if_splits)

lemma cond_signal_awake: "ws \<noteq> [] \<Longrightarrow> \<exists>w \<in> set (cond_signal k ws). w \<noteq> W_Wait"
proof (cases k ws rule: cond_signal_cases)
  case nobody
  then show "ws \<noteq> [] \<Longrightarrow> ?thesis" by (metis list.set_sel(1))
next
  case (one i)
  then show ?thesis using set_update_memI[of i ws W_Loop] by (intro bexI[of _ W_Loop]) auto
qed

subsection \<open>The pool\<close>

definition new_pool :: "int \<Rightarrow> thread_pool" where
  "new_pool n = \<lparr>max_thread_count = n, task_waiting = 0, task_executing = 0, created_threads_count = 0,
     mutex = False, shutdown = False, queue = replicate TPOOL_MAX_TASKS None, writePtr = 0, readPtr = 0,
     threads = []\<rparr>"

lemma new_pool_simps [simp]:
  "threads (new_pool n) = []" "task_executing (new_pool n) = 0" "task_waiting (new_pool n) = 0"
  "created_threads_count (new_pool n) = 0" "max_thread_count (new_pool n) = n"
  "shutdown (new_pool n) = False" "mutex (new_pool n) = False"
  by (simp_all add: new_pool_def)

text \<open>The two allocations of the pool are its struct and its array of threads.\<close>

definition thread_pool_new :: "int \<Rightarrow> bool \<Rightarrow> bool \<Rightarrow> bool \<Rightarrow> system \<Rightarrow> thread_pool_errcode \<times> system" where
  "thread_pool_new n pool_out allocated threads_allocated s =
    (if n \<le> 0 \<or> n > TPOOL_MAX_THREADS \<or> \<not> pool_out then (TPOOL_ERR_INVALID_ARGUMENT, s)
     else if \<not> allocated then (TPOOL_ERR_ALLOCATION_ERROR, s)
     else if \<not> threads_allocated then (TPOOL_ERR_ALLOCATION_ERROR, s)
     else (TPOOL_OK, set_pool (new_pool n) s))"

text \<open>The number of an error code in C; the count and the error share the type \<open>int\<close>.\<close>

fun errcode :: "thread_pool_errcode \<Rightarrow> int" where
  "errcode TPOOL_OK = 0"
| "errcode TPOOL_ERR_INVALID_ARGUMENT = 1"
| "errcode TPOOL_ERR_TOO_MANY_TASKS = 2"
| "errcode TPOOL_ERR_HAS_TASKS = 3"
| "errcode TPOOL_ERR_TASK_NOT_PUSHED = 4"
| "errcode TPOOL_ERR_TASK_IN_POOL = 5"
| "errcode TPOOL_ERR_NOT_IMPLEMENTED = 6"
| "errcode TPOOL_ERR_TIMEOUT = 7"
| "errcode TPOOL_ERR_PTHREAD_ERROR = 8"
| "errcode TPOOL_ERR_ALLOCATION_ERROR = 9"

definition thread_pool_thread_count :: "unit option \<Rightarrow> system \<Rightarrow> int option" where
  "thread_pool_thread_count pp s = (case pp of
     None \<Rightarrow> Some (errcode TPOOL_ERR_INVALID_ARGUMENT)
   | Some _ \<Rightarrow> do { p \<leftarrow> pool s; Some (created_threads_count p) })"

text \<open>
  \<open>thread_pool_delete\<close> up to the joins, which wait for all threads to leave their loop, and what
  follows the joins.
\<close>

definition thread_pool_delete :: "unit option \<Rightarrow> system \<Rightarrow> (thread_pool_errcode option \<times> system) option" where
  "thread_pool_delete pp s = (case pp of
     None \<Rightarrow> Some (Some TPOOL_ERR_INVALID_ARGUMENT, s)
   | Some _ \<Rightarrow> do {
       p \<leftarrow> pool s;
       if task_executing p > 0 \<or> task_waiting p > 0 then Some (Some TPOOL_ERR_HAS_TASKS, s)
       else Some (None, set_pool (p\<lparr>shutdown := True, threads := cond_broadcast (threads p)\<rparr>) s)
     })"

definition all_exited :: "thread_pool \<Rightarrow> bool" where
  "all_exited p \<longleftrightarrow> (\<forall>w \<in> set (threads p). w = W_Exit)"

definition thread_pool_delete_end :: "system \<Rightarrow> (thread_pool_errcode \<times> system) option" where
  "thread_pool_delete_end s = do {
     p \<leftarrow> pool s;
     ensure (all_exited p);
     Some (TPOOL_OK, s\<lparr>pool := None\<rparr>)
   }"

text \<open>
  Pushing.  \<open>woken\<close> is the choice of the thread that the signal wakes.  When \<open>pthread_create\<close> fails
  the function returns with the pool's mutex still held.
\<close>

definition thread_pool_push_task ::
  "unit option \<Rightarrow> addr option \<Rightarrow> nat \<Rightarrow> bool \<Rightarrow> system \<Rightarrow> (thread_pool_errcode \<times> system) option" where
  "thread_pool_push_task pp tp woken created s = (case (pp, tp) of
     (Some _, Some a) \<Rightarrow> do {
       p \<leftarrow> pool s;
       if task_waiting p + task_executing p \<ge> int TPOOL_MAX_TASKS
       then Some (TPOOL_ERR_TOO_MANY_TASKS, s)
       else do {
         t \<leftarrow> tasks s a;
         let s = set_task a (t\<lparr>state := TASK_QUEUED\<rparr>) s;
         p \<leftarrow> enqueue (Some a) p;
         if task_executing p < created_threads_count p \<or> created_threads_count p \<ge> max_thread_count p
         then Some (TPOOL_OK, set_pool (p\<lparr>threads := cond_signal woken (threads p)\<rparr>) s)
         else if \<not> created then Some (TPOOL_ERR_PTHREAD_ERROR, set_pool (p\<lparr>mutex := True\<rparr>) s)
         else Some (TPOOL_OK, set_pool (p\<lparr>threads := threads p @ [W_Loop],
           created_threads_count := created_threads_count p + 1\<rparr>) s)
       }
     }
   | _ \<Rightarrow> Some (TPOOL_ERR_INVALID_ARGUMENT, s))"

subsection \<open>Tasks\<close>

definition thread_task_new ::
  "bool \<Rightarrow> (cvalue \<Rightarrow> cvalue) option \<Rightarrow> cvalue \<Rightarrow> bool \<Rightarrow> system \<Rightarrow> thread_pool_errcode \<times> addr option \<times> system" where
  "thread_task_new task_out f x allocated s = (case f of
     None \<Rightarrow> (TPOOL_ERR_INVALID_ARGUMENT, None, s)
   | Some f \<Rightarrow>
       if \<not> task_out then (TPOOL_ERR_INVALID_ARGUMENT, None, s)
       else if \<not> allocated then (TPOOL_ERR_ALLOCATION_ERROR, None, s)
       else (TPOOL_OK, Some (next_addr s),
         set_task (next_addr s) \<lparr>task_function = f, arg = x, result = 0, state = TASK_CREATED, detachMode = False\<rparr>
           (s\<lparr>next_addr := next_addr s + 1\<rparr>)))"

definition finished :: "thread_task \<Rightarrow> bool" where
  "finished t \<longleftrightarrow> state t = TASK_DONE \<or> state t = TASK_JOINED"

text \<open>
  Joining.  The first component of the result is \<open>None\<close> while the call is waiting for the task;
  it is then made again in a later state.  \<open>result_out\<close> says whether the caller wants the result,
  and the second component is what it gets.
\<close>

definition thread_task_join ::
  "addr option \<Rightarrow> bool \<Rightarrow> system \<Rightarrow> (thread_pool_errcode option \<times> cvalue option \<times> system) option" where
  "thread_task_join tp result_out s = (case tp of
     None \<Rightarrow> Some (Some TPOOL_ERR_INVALID_ARGUMENT, None, s)
   | Some a \<Rightarrow> do {
       t \<leftarrow> tasks s a;
       if state t = TASK_CREATED then Some (Some TPOOL_ERR_TASK_NOT_PUSHED, None, s)
       else if \<not> finished t then Some (None, None, s)
       else Some (Some TPOOL_OK, if result_out then Some (result t) else None,
         set_task a (t\<lparr>state := TASK_JOINED\<rparr>) s)
     })"

text \<open>
  Where a timed join is after one of its sections: waiting, past the unlock that follows the change
  of state with the result still to be read, or returned with a code and what the caller gets.
\<close>

datatype timed_join =
    J_Waiting
  | J_Joined
  | J_Returned thread_pool_errcode "cvalue option"

text \<open>
  The end of a timed join, reached by the \<open>goto\<close> or from the loop, up to its unlock; and the read of
  the result, which the code does after the unlock, in whatever state the others have made by then.
\<close>

definition timed_join_end :: "addr \<Rightarrow> system \<Rightarrow> (timed_join \<times> system) option" where
  "timed_join_end a s = do {
     t \<leftarrow> tasks s a;
     if \<not> finished t then Some (J_Returned TPOOL_ERR_TIMEOUT None, s)
     else Some (J_Joined, set_task a (t\<lparr>state := TASK_JOINED\<rparr>) s)
   }"

definition timed_join_read :: "addr \<Rightarrow> bool \<Rightarrow> system \<Rightarrow> timed_join option" where
  "timed_join_read a result_out s =
    (if result_out then do { t \<leftarrow> tasks s a; Some (J_Returned TPOOL_OK (Some (result t))) }
     else Some (J_Returned TPOOL_OK None))"

text \<open>
  A timed join up to its wait: a finished task is joined at once, storing the result without a look
  at the pointer; a short timeout goes to the end.
\<close>

definition thread_task_timed_join ::
  "addr option \<Rightarrow> real \<Rightarrow> bool \<Rightarrow> system \<Rightarrow> (timed_join \<times> system) option" where
  "thread_task_timed_join tp timeout result_out s = (case tp of
     None \<Rightarrow> Some (J_Returned TPOOL_ERR_INVALID_ARGUMENT None, s)
   | Some a \<Rightarrow> do {
       t \<leftarrow> tasks s a;
       if state t = TASK_CREATED then Some (J_Returned TPOOL_ERR_TASK_NOT_PUSHED None, s)
       else if finished t then do {
         ensure result_out;
         Some (J_Returned TPOOL_OK (Some (result t)), set_task a (t\<lparr>state := TASK_JOINED\<rparr>) s)
       }
       else if timeout < 1 / 1000000 then timed_join_end a s
       else Some (J_Waiting, s)
     })"

text \<open>One return of \<open>pthread_cond_timedwait\<close>: the call waits on, or goes to the end.\<close>

definition timed_join_wake :: "addr \<Rightarrow> bool \<Rightarrow> system \<Rightarrow> (timed_join \<times> system) option" where
  "timed_join_wake a timedout s = do {
     t \<leftarrow> tasks s a;
     if timedout \<or> finished t then timed_join_end a s else Some (J_Waiting, s)
   }"

text \<open>
  The deadline of a timed join, in seconds and nanoseconds, from the time of day in seconds and
  microseconds.  The arithmetic on \<open>double\<close> is exact here.
\<close>

definition deadline :: "int \<Rightarrow> int \<Rightarrow> real \<Rightarrow> int \<times> int" where
  "deadline now_sec now_usec timeout =
    (let timeout = timeout + 1 / 1000000;
       sec = now_sec + \<lfloor>timeout\<rfloor>;
       nsec = \<lfloor>of_int (now_usec * 1000) + (timeout - of_int \<lfloor>timeout\<rfloor>) * 1000000000\<rfloor>
     in if nsec > 1000000000 then (sec + 1, nsec - 1000000000) else (sec, nsec))"

definition thread_task_delete :: "addr option \<Rightarrow> system \<Rightarrow> (thread_pool_errcode \<times> system) option" where
  "thread_task_delete tp s = (case tp of
     None \<Rightarrow> Some (TPOOL_ERR_INVALID_ARGUMENT, s)
   | Some a \<Rightarrow> do {
       t \<leftarrow> tasks s a;
       if state t = TASK_CREATED \<or> state t = TASK_JOINED \<or> (detachMode t \<and> state t = TASK_DONE)
       then do { s \<leftarrow> free_task a s; Some (TPOOL_OK, s) }
       else Some (TPOOL_ERR_TASK_IN_POOL, s)
     })"

text \<open>
  Detaching.  For a task that is done, the code destroys the mutex and the condition variable of
  the task and returns, without freeing it.
\<close>

definition thread_task_detach :: "addr option \<Rightarrow> system \<Rightarrow> (thread_pool_errcode \<times> system) option" where
  "thread_task_detach tp s = do {
     a \<leftarrow> tp;
     t \<leftarrow> tasks s a;
     if state t = TASK_CREATED then Some (TPOOL_ERR_TASK_NOT_PUSHED, s)
     else if state t = TASK_DONE then Some (TPOOL_OK, s)
     else Some (TPOOL_OK, set_task a (t\<lparr>detachMode := True\<rparr>) s)
   }"

subsection \<open>The atomic sections of a worker\<close>

text \<open>Under the pool's mutex: leave the loop after a shutdown, or take a task off the queue.\<close>

definition worker_take :: "thread_pool \<Rightarrow> (worker \<times> thread_pool) option" where
  "worker_take p =
    (if shutdown p then Some (W_Exit, p)
     else do {
       (t, p) \<leftarrow> dequeue p;
       Some (W_Got t, p\<lparr>task_executing := task_executing p + 1\<rparr>)
     })"

text \<open>The loop round \<open>pthread_cond_wait\<close> is left when this holds; otherwise the thread goes to sleep.\<close>

definition worker_awake :: "thread_pool \<Rightarrow> bool" where
  "worker_awake p \<longleftrightarrow> task_waiting p \<noteq> 0 \<or> shutdown p"

definition worker_step :: "worker \<Rightarrow> thread_pool \<Rightarrow> (addr \<rightharpoonup> thread_task) \<Rightarrow>
    (worker \<times> thread_pool \<times> (addr \<rightharpoonup> thread_task)) option" where
  "worker_step w p ts = (case w of
     W_Loop \<Rightarrow> if worker_awake p then do { (w, p) \<leftarrow> worker_take p; Some (w, p, ts) } else Some (W_Wait, p, ts)
   | W_Wait \<Rightarrow> None
   | W_Got None \<Rightarrow> Some (W_Loop, p\<lparr>task_executing := task_executing p - 1\<rparr>, ts)
   | W_Got (Some a) \<Rightarrow> do { t \<leftarrow> ts a; Some (W_Run a, p, ts(a \<mapsto> t\<lparr>state := TASK_EXECUTING\<rparr>)) }
   | W_Run a \<Rightarrow> do { t \<leftarrow> ts a; Some (W_Ran a, p, ts(a \<mapsto> t\<lparr>result := task_function t (arg t)\<rparr>)) }
   | W_Ran a \<Rightarrow> Some (W_Counted a, p\<lparr>task_executing := task_executing p - 1\<rparr>, ts)
   | W_Counted a \<Rightarrow> do {
       t \<leftarrow> ts a;
       Some (if detachMode t then W_Free a else W_Loop, p, ts(a \<mapsto> t\<lparr>state := TASK_DONE\<rparr>))
     }
   | W_Free a \<Rightarrow> do { _ \<leftarrow> ts a; Some (W_Loop, p, ts(a := None)) }
   | W_Exit \<Rightarrow> None)"

text \<open>Which sections need the pool's mutex, and when a thread can go on: not while it sleeps.\<close>

definition worker_locks :: "worker \<Rightarrow> bool" where
  "worker_locks w = (case w of W_Loop \<Rightarrow> True | W_Ran _ \<Rightarrow> True | _ \<Rightarrow> False)"

definition worker_enabled :: "worker \<Rightarrow> thread_pool \<Rightarrow> bool" where
  "worker_enabled w p \<longleftrightarrow> w \<noteq> W_Exit \<and> w \<noteq> W_Wait \<and> (worker_locks w \<longrightarrow> \<not> mutex p)"

end
