(* ===== verification/Tp_Steps.thy ===== *)
theory Tp_Steps imports Tp_Api begin

text \<open>
  The thread pool as a transition system: workers and clients interleave, each transition being one
  atomic section of Assignment_4/thread_pool.c.  A worker that sleeps on the pool's condition variable
  goes on only when a signal or a broadcast has woken it, or after a spurious wake-up, which is a
  transition of its own.  A join that waits for its task may test the task again at any time; nothing is
  claimed about when it does.  Clients keep to thread_pool.h: they push a task that is new or joined, do not touch it after detaching it, and
  do not push into a pool that is being deleted.
\<close>

datatype event = Pushed addr | Taken addr | Silent

definition worker_event :: "worker \<Rightarrow> event" where
  "worker_event w = (case w of W_Got (Some a) \<Rightarrow> Taken a | _ \<Rightarrow> Silent)"

definition push_event :: "addr \<Rightarrow> thread_pool_errcode \<Rightarrow> event" where
  "push_event a r = (if r = TPOOL_OK \<or> r = TPOOL_ERR_PTHREAD_ERROR then Pushed a else Silent)"

definition can_push :: "thread_task \<Rightarrow> bool" where
  "can_push t \<longleftrightarrow> \<not> detachMode t \<and> (state t = TASK_CREATED \<or> state t = TASK_JOINED)"

inductive worker_moves :: "system \<Rightarrow> event \<Rightarrow> system \<Rightarrow> bool" where
  move: "pool s = Some p \<Longrightarrow> i < length (threads p) \<Longrightarrow> worker_enabled (threads p ! i) p \<Longrightarrow>
    worker_step (threads p ! i) p (tasks s) = Some (w', p', ts') \<Longrightarrow>
    worker_moves s (if threads p ! i = W_Loop then worker_event w' else Silent)
      (s\<lparr>pool := Some (p'\<lparr>threads := (threads p')[i := w']\<rparr>), tasks := ts'\<rparr>)"

inductive client_moves :: "system \<Rightarrow> event \<Rightarrow> system \<Rightarrow> bool" where
  new_pool: "pool s = None \<Longrightarrow> thread_pool_new n True x y s = (r, s') \<Longrightarrow> client_moves s Silent s'"
| delete_pool: "pool s = Some p \<Longrightarrow> \<not> mutex p \<Longrightarrow> thread_pool_delete (Some ()) s = Some (r, s') \<Longrightarrow>
    client_moves s Silent s'"
| delete_end: "pool s = Some p \<Longrightarrow> shutdown p \<Longrightarrow> all_exited p \<Longrightarrow> thread_pool_delete_end s = Some (r, s') \<Longrightarrow>
    client_moves s Silent s'"
| push: "pool s = Some p \<Longrightarrow> \<not> mutex p \<Longrightarrow> \<not> shutdown p \<Longrightarrow> tasks s a = Some t \<Longrightarrow> can_push t \<Longrightarrow>
    thread_pool_push_task (Some ()) (Some a) woken created s = Some (r, s') \<Longrightarrow>
    client_moves s (push_event a r) s'"
| new_task: "thread_task_new True (Some f) x y s = (r, a, s') \<Longrightarrow> client_moves s Silent s'"
| join: "tasks s a = Some t \<Longrightarrow> \<not> detachMode t \<Longrightarrow> thread_task_join (Some a) out s = Some (r, v, s') \<Longrightarrow>
    client_moves s Silent s'"
| timed_join: "tasks s a = Some t \<Longrightarrow> \<not> detachMode t \<Longrightarrow>
    thread_task_timed_join (Some a) timeout out s = Some (j, s') \<Longrightarrow> client_moves s Silent s'"
| timed_wake: "tasks s a = Some t \<Longrightarrow> \<not> detachMode t \<Longrightarrow>
    timed_join_wake a timedout s = Some (j, s') \<Longrightarrow> client_moves s Silent s'"
| delete_task: "tasks s a = Some t \<Longrightarrow> \<not> detachMode t \<Longrightarrow> thread_task_delete (Some a) s = Some (r, s') \<Longrightarrow>
    client_moves s Silent s'"
| detach: "tasks s a = Some t \<Longrightarrow> \<not> detachMode t \<Longrightarrow> thread_task_detach (Some a) s = Some (r, s') \<Longrightarrow>
    client_moves s Silent s'"

inductive spurious_wakeup :: "system \<Rightarrow> system \<Rightarrow> bool" where
  wake: "pool s = Some p \<Longrightarrow> i < length (threads p) \<Longrightarrow> threads p ! i = W_Wait \<Longrightarrow>
    spurious_wakeup s (s\<lparr>pool := Some (p\<lparr>threads := (threads p)[i := W_Loop]\<rparr>)\<rparr>)"

text \<open>A run with its events.\<close>

inductive tp_run :: "system \<Rightarrow> event list \<Rightarrow> system \<Rightarrow> bool" for s where
  start: "tp_run s [] s"
| worker: "tp_run s es s1 \<Longrightarrow> worker_moves s1 e s2 \<Longrightarrow> tp_run s (es @ [e]) s2"
| client: "tp_run s es s1 \<Longrightarrow> client_moves s1 e s2 \<Longrightarrow> tp_run s (es @ [e]) s2"
| spurious: "tp_run s es s1 \<Longrightarrow> spurious_wakeup s1 s2 \<Longrightarrow> tp_run s (es @ [Silent]) s2"

definition tp_init :: system where
  "tp_init = \<lparr>pool = None, tasks = Map.empty, next_addr = 0\<rparr>"

subsection \<open>References to tasks\<close>

definition held_by :: "worker \<Rightarrow> (task_state \<times> addr) list" where
  "held_by w = (case w of
     W_Got (Some a) \<Rightarrow> [(TASK_QUEUED, a)] | W_Run a \<Rightarrow> [(TASK_EXECUTING, a)] | W_Ran a \<Rightarrow> [(TASK_EXECUTING, a)]
   | W_Counted a \<Rightarrow> [(TASK_EXECUTING, a)] | W_Free a \<Rightarrow> [(TASK_DONE, a)] | _ \<Rightarrow> [])"

lemma held_by_simps [simp]:
  "held_by W_Loop = []" "held_by W_Wait = []" "held_by W_Exit = []" "held_by (W_Got None) = []"
  "held_by (W_Got (Some a)) = [(TASK_QUEUED, a)]" "held_by (W_Run a) = [(TASK_EXECUTING, a)]"
  "held_by (W_Ran a) = [(TASK_EXECUTING, a)]" "held_by (W_Counted a) = [(TASK_EXECUTING, a)]"
  "held_by (W_Free a) = [(TASK_DONE, a)]"
  by (simp_all add: held_by_def)

definition queue_refs :: "addr option list \<Rightarrow> (task_state \<times> addr) list" where
  "queue_refs ts = map (\<lambda>t. (TASK_QUEUED, the t)) ts"

definition refs :: "thread_pool \<Rightarrow> (task_state \<times> addr) multiset" where
  "refs p = mset (queue_refs (queued p)) + mset (concat (map held_by (threads p)))"

lemma held_update:
  assumes "i < length ws"
  obtains R where "mset (concat (map held_by ws)) = R + mset (held_by (ws ! i))"
    "\<And>w. mset (concat (map held_by (ws[i := w]))) = R + mset (held_by w)"
    "\<And>v. v \<in> set ws \<Longrightarrow> v \<noteq> ws ! i \<Longrightarrow> mset (held_by v) \<subseteq># R"
    "\<And>w v. v \<in> set (ws[i := w]) \<Longrightarrow> v = w \<or> v \<in> set ws \<and> mset (held_by v) \<subseteq># R"
proof -
  define us vs where "us = take i ws" and "vs = drop (Suc i) ws"
  have ws: "ws = us @ ws ! i # vs" using assms by (simp add: us_def vs_def id_take_nth_drop)
  have upd: "ws[i := w] = us @ w # vs" for w using assms by (simp add: us_def vs_def upd_conv_take_nth_drop)
  let ?R = "mset (concat (map held_by us)) + mset (concat (map held_by vs))"
  have sub: "mset (held_by v) \<subseteq># ?R" if "v \<in> set us \<or> v \<in> set vs" for v
  proof -
    from that obtain as bs where "us = as @ v # bs \<or> vs = as @ v # bs" by (metis split_list)
    then show ?thesis by (auto simp: subset_mset.add_increasing subset_mset.add_increasing2)
  qed
  show thesis
  proof (rule that)
    show "mset (concat (map held_by ws)) = ?R + mset (held_by (ws ! i))" by (subst ws) simp
    show "mset (concat (map held_by (ws[i := w]))) = ?R + mset (held_by w)" for w by (simp add: upd)
    show "mset (held_by v) \<subseteq># ?R" if "v \<in> set ws" "v \<noteq> ws ! i" for v
      using that sub by (subst (asm) ws) auto
    show "v = w \<or> v \<in> set ws \<and> mset (held_by v) \<subseteq># ?R" if "v \<in> set (ws[i := w])" for w v
      using that sub unfolding upd by (subst ws) auto
  qed
qed

text \<open>The tasks that somebody in the pool has to take care of.\<close>

definition owned :: "thread_task \<Rightarrow> bool" where
  "owned t \<longleftrightarrow> state t = TASK_QUEUED \<or> state t = TASK_EXECUTING \<or> state t = TASK_DONE \<and> detachMode t"

text \<open>Every reference is the only one to its task, and says which state the task is in.\<close>

definition refs_ok :: "(task_state \<times> addr) multiset \<Rightarrow> (addr \<rightharpoonup> thread_task) \<Rightarrow> bool" where
  "refs_ok M ts \<longleftrightarrow> (\<forall>a. count (image_mset snd M) a \<le> 1) \<and>
     (\<forall>st a. (st, a) \<in># M \<longrightarrow> (\<exists>t. ts a = Some t \<and> state t = st)) \<and>
     (\<forall>a t. ts a = Some t \<longrightarrow> owned t \<longrightarrow> (state t, a) \<in># M)"

lemma refs_okI:
  assumes "\<And>a. count (image_mset snd M) a \<le> 1"
    and "\<And>st a. (st, a) \<in># M \<Longrightarrow> \<exists>t. ts a = Some t \<and> state t = st"
    and "\<And>a t. ts a = Some t \<Longrightarrow> owned t \<Longrightarrow> (state t, a) \<in># M"
  shows "refs_ok M ts"
  using assms by (simp add: refs_ok_def)

lemma refs_ok_once: "refs_ok M ts \<Longrightarrow> count (image_mset snd M) a \<le> 1"
  by (simp add: refs_ok_def)

lemma refs_ok_sound: "refs_ok M ts \<Longrightarrow> (st, a) \<in># M \<Longrightarrow> \<exists>t. ts a = Some t \<and> state t = st"
  by (simp add: refs_ok_def)

lemma refs_ok_complete:
  "refs_ok M ts \<Longrightarrow> ts a = Some t \<Longrightarrow> owned t \<Longrightarrow> (state t, a) \<in># M"
  by (auto simp: refs_ok_def)

definition unreferenced :: "addr \<Rightarrow> (task_state \<times> addr) multiset \<Rightarrow> bool" where
  "unreferenced a M \<longleftrightarrow> a \<notin># image_mset snd M"

lemma unreferenced_notin: "unreferenced a M \<Longrightarrow> (st, a) \<notin># M"
  unfolding unreferenced_def by (metis image_eqI set_image_mset snd_conv)

lemma refs_ok_only:
  assumes "refs_ok (add_mset (st, a) R) ts"
  shows "unreferenced a R"
proof -
  have "Suc (count (image_mset snd R) a) \<le> 1" using refs_ok_once[OF assms, of a] by simp
  then have "count (image_mset snd R) a = 0" by simp
  then show ?thesis unfolding unreferenced_def by (metis count_eq_zero_iff)
qed

lemma refs_ok_state: "refs_ok (add_mset (st, a) R) ts \<Longrightarrow> \<exists>t. ts a = Some t \<and> state t = st"
  by (erule refs_ok_sound) simp

text \<open>A task without a reference may be changed, unless it is changed to one the pool should hold.\<close>

lemma refs_ok_outside:
  assumes ok: "refs_ok M ts" and a: "unreferenced a M"
    and x: "\<And>t. x = Some t \<Longrightarrow> \<not> owned t"
  shows "refs_ok M (ts(a := x))"
proof (rule refs_okI)
  show "count (image_mset snd M) b \<le> 1" for b by (rule refs_ok_once[OF ok])
  show "\<exists>t. (ts(a := x)) b = Some t \<and> state t = st" if "(st, b) \<in># M" for st b
  proof -
    have "b \<noteq> a" using that unreferenced_notin[OF a] by blast
    then show ?thesis using refs_ok_sound[OF ok that] by simp
  qed
  show "(state t, b) \<in># M" if "(ts(a := x)) b = Some t" "owned t" for b t
  proof (cases "b = a")
    case True
    then show ?thesis using that x[of t] by auto
  next
    case False
    then show ?thesis using refs_ok_complete[OF ok] that by simp
  qed
qed

text \<open>A reference may be taken away with its task, and a new one may be added.\<close>

lemma refs_ok_remove:
  assumes ok: "refs_ok (add_mset (st, a) R) ts"
  shows "refs_ok R (ts(a := None))"
proof (rule refs_okI)
  have a: "unreferenced a R" by (rule refs_ok_only[OF ok])
  show "count (image_mset snd R) b \<le> 1" for b
    using refs_ok_once[OF ok, of b] by (simp split: if_splits)
  show "\<exists>t. (ts(a := None)) b = Some t \<and> state t = st'" if "(st', b) \<in># R" for st' b
  proof -
    have "b \<noteq> a" using that unreferenced_notin[OF a] by blast
    then show ?thesis using refs_ok_sound[OF ok, of st' b] that by simp
  qed
  show "(state t, b) \<in># R" if "(ts(a := None)) b = Some t" "owned t" for b t
    using refs_ok_complete[OF ok, of b t] that by (auto split: if_splits)
qed

lemma refs_ok_add:
  assumes ok: "refs_ok M (ts(a := None))" and a: "unreferenced a M"
  shows "refs_ok (add_mset (state t, a) M) (ts(a \<mapsto> t))"
proof (rule refs_okI)
  have "count (image_mset snd M) a = 0" using a unfolding unreferenced_def by (metis count_eq_zero_iff)
  then show "count (image_mset snd (add_mset (state t, a) M)) b \<le> 1" for b
    using refs_ok_once[OF ok, of b] by (cases "a = b") auto
  show "\<exists>t'. (ts(a \<mapsto> t)) b = Some t' \<and> state t' = st" if "(st, b) \<in># add_mset (state t, a) M" for st b
  proof (cases "(st, b) \<in># M")
    case True
    then have "b \<noteq> a" using unreferenced_notin[OF a] by blast
    then show ?thesis using refs_ok_sound[OF ok True] by simp
  next
    case False
    then show ?thesis using that by simp
  qed
  show "(state t', b) \<in># add_mset (state t, a) M"
    if "(ts(a \<mapsto> t)) b = Some t'" "owned t'" for b t'
    using that refs_ok_complete[OF ok, of b t'] by (cases "b = a") auto
qed

lemma refs_ok_change:
  assumes "refs_ok (add_mset (st, a) R) ts" "state t = st'"
  shows "refs_ok (add_mset (st', a) R) (ts(a \<mapsto> t))"
  using refs_ok_add[OF refs_ok_remove[OF assms(1)] refs_ok_only[OF assms(1)], of t] assms(2) by simp

lemma refs_ok_drop:
  assumes "refs_ok (add_mset (st, a) R) ts" "\<not> owned t"
  shows "refs_ok R (ts(a \<mapsto> t))"
  using refs_ok_outside[OF refs_ok_remove[OF assms(1)] refs_ok_only[OF assms(1)], of "Some t"] assms(2) by simp

lemma refs_ok_same_state:
  assumes ok: "refs_ok M ts" and t: "ts a = Some t" "state t' = state t" "owned t' \<Longrightarrow> owned t"
  shows "refs_ok M (ts(a \<mapsto> t'))"
proof (rule refs_okI)
  show "count (image_mset snd M) b \<le> 1" for b by (rule refs_ok_once[OF ok])
  show "\<exists>t. (ts(a \<mapsto> t')) b = Some t \<and> state t = st" if "(st, b) \<in># M" for st b
    using refs_ok_sound[OF ok that] t by (cases "b = a") auto
  show "(state u, b) \<in># M" if "(ts(a \<mapsto> t')) b = Some u" "owned u" for b u
    using refs_ok_complete[OF ok, of b] that t by (cases "b = a") auto
qed

lemma unreferencedI:
  assumes "refs_ok M ts" "\<And>st t. ts a = Some t \<Longrightarrow> state t = st \<Longrightarrow> (st, a) \<notin># M"
  shows "unreferenced a M"
  unfolding unreferenced_def
proof
  assume "a \<in># image_mset snd M"
  then obtain st where "(st, a) \<in># M" by auto
  then show False using refs_ok_sound[OF assms(1)] assms(2) by blast
qed

end
