(* ===== verification/Tp_Inv.thy ===== *)
theory Tp_Inv imports Tp_Steps begin

text \<open>
  The invariant of the thread pool and its preservation by every step.  The counters agree with the
  workers, every queued or running task has exactly one owner, nobody but its owner can free it, and
  a finished task holds the result of its function.  No wake-up is lost: while a task waits and the
  mutex is not stuck, some worker is not asleep, and after a shutdown none is.
\<close>

definition busy :: "worker \<Rightarrow> bool" where
  "busy w = (case w of W_Got _ \<Rightarrow> True | W_Run _ \<Rightarrow> True | W_Ran _ \<Rightarrow> True | _ \<Rightarrow> False)"

lemma busy_simps [simp]:
  "busy (W_Got x)" "busy (W_Run a)" "busy (W_Ran a)"
  "\<not> busy W_Loop" "\<not> busy W_Wait" "\<not> busy W_Exit" "\<not> busy (W_Counted a)" "\<not> busy (W_Free a)"
  by (simp_all add: busy_def)

definition pool_ok :: "thread_pool \<Rightarrow> bool" where
  "pool_ok p \<longleftrightarrow> queue_wf p \<and> None \<notin> set (queued p) \<and>
     task_executing p = int (count_if busy (threads p)) \<and>
     created_threads_count p = int (length (threads p)) \<and>
     created_threads_count p \<le> max_thread_count p \<and> 0 < max_thread_count p \<and> max_thread_count p \<le> TPOOL_MAX_THREADS \<and>
     task_waiting p + task_executing p \<le> int TPOOL_MAX_TASKS \<and>
     (0 < task_waiting p \<and> \<not> mutex p \<longrightarrow> (\<exists>w \<in> set (threads p). w \<noteq> W_Wait)) \<and>
     (shutdown p \<longrightarrow> task_waiting p = 0 \<and> \<not> mutex p \<and> W_Wait \<notin> set (threads p)) \<and> (W_Exit \<in> set (threads p) \<longrightarrow> shutdown p)"

definition computed :: "thread_task \<Rightarrow> bool" where
  "computed t \<longleftrightarrow> result t = task_function t (arg t)"

definition task_ok :: "thread_task \<Rightarrow> bool" where
  "task_ok t \<longleftrightarrow> (finished t \<longrightarrow> computed t)"

definition worker_ok :: "(addr \<rightharpoonup> thread_task) \<Rightarrow> worker \<Rightarrow> bool" where
  "worker_ok ts w = (case w of
     W_Got x \<Rightarrow> x \<noteq> None
   | W_Ran a \<Rightarrow> (\<exists>t. ts a = Some t \<and> computed t)
   | W_Counted a \<Rightarrow> (\<exists>t. ts a = Some t \<and> computed t)
   | W_Free a \<Rightarrow> (\<exists>t. ts a = Some t \<and> detachMode t)
   | _ \<Rightarrow> True)"

lemma worker_ok_simps [simp]:
  "worker_ok ts W_Loop" "worker_ok ts W_Wait" "worker_ok ts W_Exit" "worker_ok ts (W_Run a)"
  "worker_ok ts (W_Got x) \<longleftrightarrow> x \<noteq> None"
  "worker_ok ts (W_Ran a) \<longleftrightarrow> (\<exists>t. ts a = Some t \<and> computed t)"
  "worker_ok ts (W_Counted a) \<longleftrightarrow> (\<exists>t. ts a = Some t \<and> computed t)"
  "worker_ok ts (W_Free a) \<longleftrightarrow> (\<exists>t. ts a = Some t \<and> detachMode t)"
  by (simp_all add: worker_ok_def)

definition sys_refs :: "system \<Rightarrow> (task_state \<times> addr) multiset" where
  "sys_refs s = (case pool s of None \<Rightarrow> {#} | Some p \<Rightarrow> refs p)"

definition sys_workers :: "system \<Rightarrow> worker set" where
  "sys_workers s = (case pool s of None \<Rightarrow> {} | Some p \<Rightarrow> set (threads p))"

definition sys_ok :: "system \<Rightarrow> bool" where
  "sys_ok s \<longleftrightarrow> (\<forall>a. next_addr s \<le> a \<longrightarrow> tasks s a = None) \<and>
     (\<forall>a t. tasks s a = Some t \<longrightarrow> task_ok t) \<and>
     refs_ok (sys_refs s) (tasks s) \<and> (\<forall>w \<in> sys_workers s. worker_ok (tasks s) w) \<and>
     (\<forall>p. pool s = Some p \<longrightarrow> pool_ok p)"

lemma sys_okI:
  assumes "\<And>a. next_addr s \<le> a \<Longrightarrow> tasks s a = None" "\<And>a t. tasks s a = Some t \<Longrightarrow> task_ok t"
    "refs_ok (sys_refs s) (tasks s)" "\<And>w. w \<in> sys_workers s \<Longrightarrow> worker_ok (tasks s) w"
    "\<And>p. pool s = Some p \<Longrightarrow> pool_ok p"
  shows "sys_ok s"
  using assms by (simp add: sys_ok_def)

lemma sys_okD:
  assumes "sys_ok s"
  shows "next_addr s \<le> a \<Longrightarrow> tasks s a = None" "tasks s a = Some t \<Longrightarrow> task_ok t"
    "refs_ok (sys_refs s) (tasks s)" "w \<in> sys_workers s \<Longrightarrow> worker_ok (tasks s) w"
    "pool s = Some p \<Longrightarrow> pool_ok p"
  using assms by (simp_all add: sys_ok_def)

subsection \<open>What the parts of the invariant depend on\<close>

lemma queued_update [simp]:
  "queued (p\<lparr>threads := ws\<rparr>) = queued p" "queued (p\<lparr>task_executing := n\<rparr>) = queued p"
  "queued (p\<lparr>mutex := b\<rparr>) = queued p" "queued (p\<lparr>shutdown := b\<rparr>) = queued p"
  "queued (p\<lparr>created_threads_count := n\<rparr>) = queued p"
  by (simp_all add: queued_def queue_at_def)

lemma queue_wf_update [simp]:
  "queue_wf (p\<lparr>threads := ws\<rparr>) = queue_wf p" "queue_wf (p\<lparr>task_executing := n\<rparr>) = queue_wf p"
  "queue_wf (p\<lparr>mutex := b\<rparr>) = queue_wf p" "queue_wf (p\<lparr>shutdown := b\<rparr>) = queue_wf p"
  "queue_wf (p\<lparr>created_threads_count := n\<rparr>) = queue_wf p"
  by (simp_all add: queue_wf_def)

lemma refs_update [simp]:
  "refs (p\<lparr>task_executing := n\<rparr>) = refs p" "refs (p\<lparr>mutex := b\<rparr>) = refs p"
  "refs (p\<lparr>shutdown := b\<rparr>) = refs p" "refs (p\<lparr>created_threads_count := n\<rparr>) = refs p"
  by (simp_all add: refs_def)

text \<open>Waking threads changes neither the references nor the number of busy threads.\<close>

lemma refs_cond [simp]:
  "refs (p\<lparr>threads := cond_signal k (threads p)\<rparr>) = refs p"
  "refs (p\<lparr>threads := cond_broadcast (threads p)\<rparr>) = refs p"
  "refs (p\<lparr>shutdown := b, threads := cond_broadcast (threads p)\<rparr>) = refs p"
  by (simp_all add: refs_def cond_signal_map cond_broadcast_map)

lemma busy_cond [simp]:
  "count_if busy (cond_signal k ws) = count_if busy ws" "count_if busy (cond_broadcast ws) = count_if busy ws"
proof -
  have cong: "count_if busy xs = count_if busy ys" if "map busy xs = map busy ys" for xs ys
  proof -
    have count: "count_if busy zs = length (filter id (map busy zs))" for zs by (induction zs) simp_all
    show ?thesis by (simp only: count that)
  qed
  show "count_if busy (cond_signal k ws) = count_if busy ws" by (rule cong) (simp add: cond_signal_map)
  show "count_if busy (cond_broadcast ws) = count_if busy ws" by (rule cong) (simp add: cond_broadcast_map)
qed

text \<open>A worker only looks at the task it holds.\<close>

lemma worker_ok_other:
  assumes "worker_ok ts w" "unreferenced a R" "mset (held_by w) \<subseteq># R"
  shows "worker_ok (ts(a := x)) w"
proof -
  have "(st, a) \<notin> set (held_by w)" for st
    using assms(3) unreferenced_notin[OF assms(2), of st] by (metis mset_subset_eqD set_mset_mset)
  then show ?thesis using assms(1)
    by (cases w) auto
qed

lemma worker_ok_same:
  assumes "worker_ok ts w" "ts a = Some t"
    "computed t \<Longrightarrow> computed t'" "detachMode t \<Longrightarrow> detachMode t'"
  shows "worker_ok (ts(a \<mapsto> t')) w"
  using assms by (cases w) auto

lemma sys_worker_held: "w \<in> sys_workers s \<Longrightarrow> mset (held_by w) \<subseteq># sys_refs s"
proof -
  assume "w \<in> sys_workers s"
  then obtain p where p: "pool s = Some p" "w \<in> set (threads p)"
    by (auto simp: sys_workers_def split: option.splits)
  from p(2) obtain as bs where "threads p = as @ w # bs" by (metis split_list)
  then show ?thesis using p(1)
    by (simp add: sys_refs_def refs_def subset_mset.add_increasing subset_mset.add_increasing2)
qed

lemma pool_ok_threads:
  assumes ok: "pool_ok p" and i: "i < length (threads p)"
    and b: "busy w \<Longrightarrow> busy (threads p ! i)" and e: "w = W_Exit \<Longrightarrow> shutdown p"
    and s: "w = W_Wait \<Longrightarrow> task_waiting p = 0 \<and> \<not> shutdown p"
  shows "pool_ok (p\<lparr>task_executing := task_executing p - (if busy (threads p ! i) \<and> \<not> busy w then 1 else 0),
    threads := (threads p)[i := w]\<rparr>)"
proof -
  have "int (count_if busy ((threads p)[i := w])) =
      task_executing p - (if busy (threads p ! i) \<and> \<not> busy w then 1 else 0)"
    using count_if_update[OF i, of busy w] ok b by (auto simp: pool_ok_def)
  moreover have "W_Exit \<in> set ((threads p)[i := w]) \<Longrightarrow> shutdown p"
    using ok e set_update_subset_insert[of "threads p" i w] by (auto simp: pool_ok_def)
  moreover have "w = W_Wait \<or> (\<exists>v \<in> set ((threads p)[i := w]). v \<noteq> W_Wait)"
    using set_update_memI[OF i, of w] by blast
  moreover have "shutdown p \<Longrightarrow> W_Wait \<notin> set ((threads p)[i := w])"
    using ok s set_update_subset_insert[of "threads p" i w] by (auto simp: pool_ok_def)
  ultimately show ?thesis using ok s by (auto simp: pool_ok_def)
qed

subsection \<open>Workers keep the invariant\<close>

lemma refs_worker:
  assumes "i < length (threads p)"
  obtains R where "refs p = mset (held_by (threads p ! i)) + R"
    "\<forall>w q. queued q = queued p \<longrightarrow> threads q = (threads p)[i := w] \<longrightarrow> refs q = mset (held_by w) + R"
    "\<forall>w v. v \<in> set ((threads p)[i := w]) \<longrightarrow> v = w \<or> v \<in> set (threads p) \<and> mset (held_by v) \<subseteq># R"
proof -
  obtain R0 where R0: "mset (concat (map held_by (threads p))) = R0 + mset (held_by (threads p ! i))"
    "\<And>w. mset (concat (map held_by ((threads p)[i := w]))) = R0 + mset (held_by w)"
    "\<And>w v. v \<in> set ((threads p)[i := w]) \<Longrightarrow> v = w \<or> v \<in> set (threads p) \<and> mset (held_by v) \<subseteq># R0"
    by (rule held_update[OF assms]) blast
  let ?R = "mset (queue_refs (queued p)) + R0"
  have "refs p = mset (held_by (threads p ! i)) + ?R" by (simp add: refs_def R0(1))
  moreover have "\<forall>w q. queued q = queued p \<longrightarrow> threads q = (threads p)[i := w] \<longrightarrow> refs q = mset (held_by w) + ?R"
    by (simp add: refs_def R0(2))
  moreover have "\<forall>w v. v \<in> set ((threads p)[i := w]) \<longrightarrow> v = w \<or> v \<in> set (threads p) \<and> mset (held_by v) \<subseteq># ?R"
    using R0(3) by (metis subset_mset.add_increasing empty_le)
  ultimately show thesis by (rule that)
qed

lemma worker_change:
  assumes ok: "sys_ok s" and p: "pool s = Some p" and i: "i < length (threads p)"
    and held: "held_by (threads p ! i) = [(st, a)]"
    and refs: "\<And>R. refs_ok (add_mset (st, a) R) (tasks s) \<Longrightarrow> refs_ok (mset (held_by w) + R) ((tasks s)(a := x))"
    and pool: "pool_ok (p'\<lparr>threads := (threads p)[i := w]\<rparr>)" and same: "queued p' = queued p"
    and w: "worker_ok ((tasks s)(a := x)) w" and x: "\<And>t. x = Some t \<Longrightarrow> task_ok t"
  shows "sys_ok (s\<lparr>pool := Some (p'\<lparr>threads := (threads p)[i := w]\<rparr>), tasks := (tasks s)(a := x)\<rparr>)"
proof -
  obtain R where R: "refs p = mset (held_by (threads p ! i)) + R"
    "\<forall>w q. queued q = queued p \<longrightarrow> threads q = (threads p)[i := w] \<longrightarrow> refs q = mset (held_by w) + R"
    "\<forall>w v. v \<in> set ((threads p)[i := w]) \<longrightarrow> v = w \<or> v \<in> set (threads p) \<and> mset (held_by v) \<subseteq># R"
    by (rule refs_worker[OF i])
  have old: "refs_ok (add_mset (st, a) R) (tasks s)" using sys_okD(3)[OF ok] p R(1) held by (simp add: sys_refs_def)
  from refs_ok_state[OF old] obtain t where "tasks s a = Some t" by blast
  then have lt: "a < next_addr s" using sys_okD(1)[OF ok, of a] by (cases "a < next_addr s") auto
  have R': "refs (p'\<lparr>threads := (threads p)[i := w]\<rparr>) = mset (held_by w) + R"
    by (rule R(2)[rule_format]) (simp_all add: same)
  show ?thesis
  proof (rule sys_okI, goal_cases)
    case (1 b)
    then show ?case using lt sys_okD(1)[OF ok] by simp
  next
    case (2 b t)
    then show ?case using x sys_okD(2)[OF ok] by (auto split: if_splits)
  next
    case 3
    then show ?case using refs[OF old] R' by (simp add: sys_refs_def)
  next
    case (4 v)
    then have "v \<in> set ((threads p)[i := w])" by (simp add: sys_workers_def)
    then consider "v = w" | "v \<in> set (threads p)" "mset (held_by v) \<subseteq># R" using R(3) by blast
    then show ?case
    proof cases
      case 1
      then show ?thesis using w by simp
    next
      case 2
      then have "worker_ok (tasks s) v" using sys_okD(4)[OF ok] p by (simp add: sys_workers_def)
      then show ?thesis using worker_ok_other refs_ok_only[OF old] 2(2) by simp
    qed
  next
    case (5 q)
    then show ?case using pool by simp
  qed
qed

lemma worker_ok_nth: "sys_ok s \<Longrightarrow> pool s = Some p \<Longrightarrow> i < length (threads p) \<Longrightarrow> worker_ok (tasks s) (threads p ! i)"
  using sys_okD(4)[of s "threads p ! i"] by (simp add: sys_workers_def)

text \<open>The task that a worker holds exists, in the state that goes with the worker's place.\<close>

lemma held_task:
  assumes ok: "sys_ok s" and p: "pool s = Some p" and i: "i < length (threads p)"
    and held: "held_by (threads p ! i) = [(st, a)]"
  shows "\<exists>t. tasks s a = Some t \<and> state t = st"
proof -
  obtain R where "refs p = mset (held_by (threads p ! i)) + R"
    by (rule refs_worker[OF i])
  then have "refs_ok (add_mset (st, a) R) (tasks s)" using sys_okD(3)[OF ok] p held by (simp add: sys_refs_def)
  then show ?thesis by (rule refs_ok_state)
qed

text \<open>Going to sleep, and waking up, is nobody else's concern.\<close>

lemma worker_idle_ok:
  assumes ok: "sys_ok s" and p: "pool s = Some p" and i: "i < length (threads p)"
    and w: "held_by (threads p ! i) = []" "held_by w = []" "worker_ok (tasks s) w"
    and pool: "pool_ok (p\<lparr>threads := (threads p)[i := w]\<rparr>)"
  shows "sys_ok (s\<lparr>pool := Some (p\<lparr>threads := (threads p)[i := w]\<rparr>)\<rparr>)"
proof -
  have "map held_by ((threads p)[i := w]) = map held_by (threads p)"
    using i w by (simp add: map_update list_update_same_conv)
  then have "refs (p\<lparr>threads := (threads p)[i := w]\<rparr>) = refs p" by (simp add: refs_def)
  then show ?thesis using ok p w(3) pool set_update_subset_insert[of "threads p" i w]
    by (intro sys_okI) (auto simp: sys_ok_def sys_refs_def sys_workers_def)
qed

lemma spurious_wakeup_ok:
  assumes "spurious_wakeup s s'" and ok: "sys_ok s"
  shows "sys_ok s'"
  using assms(1)
proof cases
  case (wake p i)
  have "pool_ok (p\<lparr>threads := (threads p)[i := W_Loop]\<rparr>)"
    using pool_ok_threads[OF sys_okD(5)[OF ok wake(2)] wake(3), of W_Loop] wake(4) by simp
  then show ?thesis using worker_idle_ok[OF ok wake(2,3)] wake(1,4) by simp
qed

text \<open>Taking a task off the queue, or leaving after a shutdown.\<close>

lemma worker_loop_ok:
  assumes ok: "sys_ok s" and p: "pool s = Some p" and i: "i < length (threads p)"
    and w: "threads p ! i = W_Loop" and awake: "worker_awake p"
  shows "\<exists>w' p'. worker_take p = Some (w', p') \<and> threads p' = threads p \<and>
    (if shutdown p then w' = W_Exit \<and> queued p' = queued p
     else \<exists>a. w' = W_Got (Some a) \<and> queued p = Some a # queued p') \<and>
    sys_ok (s\<lparr>pool := Some (p'\<lparr>threads := (threads p')[i := w']\<rparr>), tasks := tasks s\<rparr>)"
proof -
  have pok: "pool_ok p" by (rule sys_okD(5)[OF ok p])
  obtain R where R: "refs p = mset (held_by (threads p ! i)) + R"
    "\<forall>w q. queued q = queued p \<longrightarrow> threads q = (threads p)[i := w] \<longrightarrow> refs q = mset (held_by w) + R"
    "\<forall>w v. v \<in> set ((threads p)[i := w]) \<longrightarrow> v = w \<or> v \<in> set (threads p) \<and> mset (held_by v) \<subseteq># R"
    by (rule refs_worker[OF i])
  have keep: "sys_ok (s\<lparr>pool := Some q, tasks := tasks s\<rparr>)"
    if "refs q = refs p" "threads q = (threads p)[i := v]" "worker_ok (tasks s) v" "pool_ok q" for q v
    using that ok p set_update_subset_insert[of "threads p" i v]
    by (intro sys_okI) (auto simp: sys_ok_def sys_refs_def sys_workers_def)
  show ?thesis
  proof (cases "shutdown p")
    case True
    have "sys_ok (s\<lparr>pool := Some (p\<lparr>threads := (threads p)[i := W_Exit]\<rparr>), tasks := tasks s\<rparr>)"
      using keep[of "p\<lparr>threads := (threads p)[i := W_Exit]\<rparr>" W_Exit] R(1,2) w True
        pool_ok_threads[OF pok i, of W_Exit] by simp
    then show ?thesis using True by (simp add: worker_take_def)
  next
    case False
    with awake pok have "task_waiting p > 0" by (auto simp: worker_awake_def pool_ok_def queue_wf_def)
    moreover have wf: "queue_wf p" using pok by (simp add: pool_ok_def)
    ultimately obtain x xs where x: "queued p = x # xs" using length_queued[OF wf] by (cases "queued p") auto
    obtain a where a: "x = Some a" using pok x by (cases x) (auto simp: pool_ok_def)
    obtain p1 where p1: "dequeue p = Some (x, p1)" "queue_wf p1" "queued p1 = xs"
      "p1 = p\<lparr>queue := queue p1, readPtr := readPtr p1, task_waiting := task_waiting p - 1\<rparr>"
      by (rule dequeue_wf[OF wf x])
    have f: "threads p1 = threads p" "task_executing p1 = task_executing p" "shutdown p1 = shutdown p"
      "max_thread_count p1 = max_thread_count p" "created_threads_count p1 = created_threads_count p"
      "mutex p1 = mutex p" "task_waiting p1 = task_waiting p - 1"
      by (subst p1(4); simp)+
    define q where "q = p1\<lparr>task_executing := task_executing p + 1, threads := (threads p)[i := W_Got x]\<rparr>"
    have "refs q = refs p"
    proof -
      obtain R0 where R0: "mset (concat (map held_by (threads p))) = R0 + mset (held_by (threads p ! i))"
        "\<And>w. mset (concat (map held_by ((threads p)[i := w]))) = R0 + mset (held_by w)"
        by (rule held_update[OF i]) blast
      show ?thesis unfolding refs_def q_def using p1(3) x a w
        by (simp add: R0 queue_refs_def)
    qed
    moreover have "pool_ok q"
    proof -
      have "int (count_if busy ((threads p)[i := W_Got x])) = task_executing p + 1"
        using count_if_update[OF i, of busy "W_Got x"] pok w by (simp add: pool_ok_def)
      moreover have "W_Exit \<notin> set ((threads p)[i := W_Got x])"
        using pok False set_update_subset_insert[of "threads p" i "W_Got x"] by (auto simp: pool_ok_def)
      moreover have "W_Got x \<in> set ((threads p)[i := W_Got x])" by (rule set_update_memI[OF i])
      ultimately show ?thesis using pok p1(2,3) x f False
        by (auto simp: pool_ok_def q_def)
    qed
    ultimately have "sys_ok (s\<lparr>pool := Some q, tasks := tasks s\<rparr>)"
      using keep[of q "W_Got x"] a by (simp add: q_def)
    then show ?thesis using False x a p1 f by (simp add: worker_take_def q_def)
  qed
qed

text \<open>Every enabled section of a worker is defined and keeps the invariant.\<close>

lemma worker_step_ok:
  assumes ok: "sys_ok s" and p: "pool s = Some p" and i: "i < length (threads p)"
    and en: "worker_enabled (threads p ! i) p"
  shows "\<exists>w' p' ts'. worker_step (threads p ! i) p (tasks s) = Some (w', p', ts') \<and> threads p' = threads p \<and>
    (threads p ! i \<noteq> W_Loop \<longrightarrow> queued p' = queued p) \<and>
    sys_ok (s\<lparr>pool := Some (p'\<lparr>threads := (threads p')[i := w']\<rparr>), tasks := ts'\<rparr>)"
proof -
  have pok: "pool_ok p" by (rule sys_okD(5)[OF ok p])
  have wok: "worker_ok (tasks s) (threads p ! i)" by (rule worker_ok_nth[OF ok p i])
  note change = worker_change[OF ok p i]
  note pools = pool_ok_threads[OF pok i]
  show ?thesis
  proof (cases "threads p ! i")
    case W_Loop
    show ?thesis
    proof (cases "worker_awake p")
      case True
      from worker_loop_ok[OF ok p i W_Loop this] W_Loop True show ?thesis by (auto simp: worker_step_def)
    next
      case False
      then have "sys_ok (s\<lparr>pool := Some (p\<lparr>threads := (threads p)[i := W_Wait]\<rparr>)\<rparr>)"
        using pools[of W_Wait] W_Loop by (intro worker_idle_ok[OF ok p i]) (auto simp: worker_awake_def)
      then show ?thesis using W_Loop False by (simp add: worker_step_def)
    qed
  next
    case (W_Got x)
    then obtain a where x: "x = Some a" using wok by auto
    then obtain t where t: "tasks s a = Some t" "state t = TASK_QUEUED"
      using held_task[OF ok p i, of TASK_QUEUED a] W_Got by auto
    have "sys_ok (s\<lparr>pool := Some (p\<lparr>threads := (threads p)[i := W_Run a]\<rparr>),
        tasks := (tasks s)(a \<mapsto> t\<lparr>state := TASK_EXECUTING\<rparr>)\<rparr>)"
      using pools[of "W_Run a"] W_Got x
      by (intro change) (auto intro: refs_ok_change simp: task_ok_def finished_def)
    then show ?thesis using W_Got x t by (simp add: worker_step_def)
  next
    case (W_Run a)
    then obtain t where t: "tasks s a = Some t" "state t = TASK_EXECUTING"
      using held_task[OF ok p i, of TASK_EXECUTING a] by auto
    have "sys_ok (s\<lparr>pool := Some (p\<lparr>threads := (threads p)[i := W_Ran a]\<rparr>),
        tasks := (tasks s)(a \<mapsto> t\<lparr>result := task_function t (arg t)\<rparr>)\<rparr>)"
      using pools[of "W_Ran a"] W_Run t(2)
      by (intro change) (auto intro: refs_ok_change simp: task_ok_def finished_def computed_def)
    then show ?thesis using W_Run t by (simp add: worker_step_def)
  next
    case (W_Ran a)
    then obtain t where t: "tasks s a = Some t" "state t = TASK_EXECUTING" "computed t"
      using held_task[OF ok p i, of TASK_EXECUTING a] wok by auto
    have "sys_ok (s\<lparr>pool := Some (p\<lparr>task_executing := task_executing p - 1, threads := (threads p)[i := W_Counted a]\<rparr>),
        tasks := (tasks s)(a := tasks s a)\<rparr>)"
      using pools[of "W_Counted a"] W_Ran t sys_okD(2)[OF ok, of a]
      by (intro change[of TASK_EXECUTING a]) (auto simp: fun_upd_idem)
    then have "sys_ok (s\<lparr>pool := Some (p\<lparr>task_executing := task_executing p - 1,
        threads := (threads p)[i := W_Counted a]\<rparr>), tasks := tasks s\<rparr>)" by (simp only: fun_upd_triv)
    then show ?thesis using W_Ran t by (simp add: worker_step_def)
  next
    case (W_Counted a)
    then obtain t where t: "tasks s a = Some t" "state t = TASK_EXECUTING" "computed t"
      using held_task[OF ok p i, of TASK_EXECUTING a] wok by auto
    let ?w = "if detachMode t then W_Free a else W_Loop"
    have "sys_ok (s\<lparr>pool := Some (p\<lparr>threads := (threads p)[i := ?w]\<rparr>),
        tasks := (tasks s)(a \<mapsto> t\<lparr>state := TASK_DONE\<rparr>)\<rparr>)"
      using pools[of ?w] W_Counted t(3)
      by (intro change) (auto intro: refs_ok_change refs_ok_drop simp: task_ok_def computed_def owned_def split: if_splits)
    then show ?thesis using W_Counted t by (simp add: worker_step_def)
  next
    case (W_Free a)
    then obtain t where t: "tasks s a = Some t" using wok by auto
    have "sys_ok (s\<lparr>pool := Some (p\<lparr>threads := (threads p)[i := W_Loop]\<rparr>), tasks := (tasks s)(a := None)\<rparr>)"
      using pools[of W_Loop] W_Free by (intro change) (auto intro: refs_ok_remove)
    then show ?thesis using W_Free t by (simp add: worker_step_def)
  next
    case W_Exit
    then show ?thesis using en by (simp add: worker_enabled_def)
  next
    case W_Wait
    then show ?thesis using en by (simp add: worker_enabled_def)
  qed
qed

lemma worker_moves_ok:
  assumes "worker_moves s e s'" "sys_ok s"
  shows "sys_ok s'"
  using assms
proof cases
  case (move p i w' p' ts')
  then show ?thesis using worker_step_ok[OF assms(2) move(3,4,5)] by auto
qed

subsection \<open>Clients keep the invariant\<close>

lemma queue_refs_state: "(st, a) \<in> set (queue_refs q) \<Longrightarrow> st = TASK_QUEUED"
  by (auto simp: queue_refs_def)

lemma held_by_state:
  "(st, a) \<in> set (held_by w) \<Longrightarrow> st = TASK_QUEUED \<or> st = TASK_EXECUTING \<or> st = TASK_DONE \<and> w = W_Free a"
  by (cases w; force simp: held_by_def split: option.splits)

text \<open>A task that was never pushed, was joined, or is done and was not detached is no longer the pool's.\<close>

lemma pool_let_go:
  assumes ok: "sys_ok s" and t: "tasks s a = Some t"
    and st: "state t = TASK_CREATED \<or> state t = TASK_JOINED \<or> state t = TASK_DONE \<and> \<not> detachMode t"
  shows "unreferenced a (sys_refs s)"
proof (rule unreferencedI[OF sys_okD(3)[OF ok]])
  fix st' t' assume "tasks s a = Some t'" "state t' = st'"
  then have st': "st' = state t" using t by simp
  show "(st', a) \<notin># sys_refs s"
  proof
    assume "(st', a) \<in># sys_refs s"
    then obtain p where p: "pool s = Some p" "(st', a) \<in> set (queue_refs (queued p)) \<or> (\<exists>w \<in> set (threads p). (st', a) \<in> set (held_by w))"
      by (auto simp: sys_refs_def refs_def split: option.splits)
    then consider "st' = TASK_QUEUED" | "st' = TASK_EXECUTING" | "st' = TASK_DONE" "W_Free a \<in> sys_workers s"
      using queue_refs_state held_by_state by (fastforce simp: sys_workers_def)
    then show False
    proof cases
      case 3
      then have "detachMode t" using sys_okD(4)[OF ok 3(2)] t by simp
      then show False using st st' 3 by simp
    qed (use st st' in auto)
  qed
qed

lemma client_put:
  assumes ok: "sys_ok s" and a: "unreferenced a (sys_refs s)" and n: "next_addr s \<le> n" "x \<noteq> None \<longrightarrow> a < n"
    and x: "\<And>t. x = Some t \<Longrightarrow> task_ok t \<and> \<not> owned t"
  shows "sys_ok (s\<lparr>next_addr := n, tasks := (tasks s)(a := x)\<rparr>)" (is "sys_ok ?s")
proof (rule sys_okI)
  have same: "sys_refs ?s = sys_refs s" "sys_workers ?s = sys_workers s"
    by (simp_all add: sys_refs_def sys_workers_def)
  show "tasks ?s b = None" if "next_addr ?s \<le> b" for b
    using that n sys_okD(1)[OF ok] by (cases x) auto
  show "task_ok t" if "tasks ?s b = Some t" for b t
    using that x sys_okD(2)[OF ok] by (auto split: if_splits)
  show "refs_ok (sys_refs ?s) (tasks ?s)"
    unfolding same using refs_ok_outside[OF sys_okD(3)[OF ok] a, of x] x by simp
  show "worker_ok (tasks ?s) w" if "w \<in> sys_workers ?s" for w
    using that worker_ok_other[OF sys_okD(4)[OF ok] a sys_worker_held] unfolding same by simp
  show "pool_ok p" if "pool ?s = Some p" for p
    using that sys_okD(5)[OF ok] by simp
qed

lemma client_keep:
  assumes ok: "sys_ok s" and t: "tasks s a = Some t" and t': "state t' = state t" "task_ok t'"
    "computed t \<Longrightarrow> computed t'" "detachMode t \<Longrightarrow> detachMode t'" "owned t' \<Longrightarrow> owned t"
  shows "sys_ok (set_task a t' s)" (is "sys_ok ?s")
proof (rule sys_okI)
  have same: "sys_refs ?s = sys_refs s" "sys_workers ?s = sys_workers s" "tasks ?s = (tasks s)(a \<mapsto> t')"
    by (simp_all add: sys_refs_def sys_workers_def set_task_def)
  show "tasks ?s b = None" if "next_addr ?s \<le> b" for b
    using that t sys_okD(1)[OF ok, of b] by (auto simp: set_task_def)
  show "task_ok u" if "tasks ?s b = Some u" for b u
    using that t'(2) sys_okD(2)[OF ok] by (auto simp: same split: if_splits)
  show "refs_ok (sys_refs ?s) (tasks ?s)"
    unfolding same by (rule refs_ok_same_state[OF sys_okD(3)[OF ok] t t'(1,5)])
  show "worker_ok (tasks ?s) w" if "w \<in> sys_workers ?s" for w
    using that worker_ok_same[OF sys_okD(4)[OF ok] t t'(3,4)] unfolding same by simp
  show "pool_ok p" if "pool ?s = Some p" for p
    using that sys_okD(5)[OF ok] by (simp add: set_task_def)
qed

lemma join_ok:
  assumes ok: "sys_ok s" and t: "tasks s a = Some t" "finished t" "\<not> detachMode t"
  shows "sys_ok (set_task a (t\<lparr>state := TASK_JOINED\<rparr>) s)"
proof -
  have "unreferenced a (sys_refs s)" using pool_let_go[OF ok t(1)] t(2,3) by (auto simp: finished_def)
  moreover have "a < next_addr s" using sys_okD(1)[OF ok, of a] t(1) by (cases "a < next_addr s") auto
  moreover have "task_ok (t\<lparr>state := TASK_JOINED\<rparr>)"
    using sys_okD(2)[OF ok t(1)] t(2) by (simp add: task_ok_def computed_def)
  ultimately have "sys_ok (s\<lparr>next_addr := next_addr s, tasks := (tasks s)(a \<mapsto> t\<lparr>state := TASK_JOINED\<rparr>)\<rparr>)"
    using ok t(3) by (intro client_put) (auto simp: owned_def)
  then show ?thesis by (simp add: set_task_def)
qed

lemma timed_join_end_ok:
  assumes ok: "sys_ok s" and t: "tasks s a = Some t" "\<not> detachMode t" and run: "timed_join_end a s = Some (j, s')"
  shows "sys_ok s'"
  using run ok join_ok[OF ok t(1) _ t(2)] t(1) by (auto simp: timed_join_end_def split: if_splits)

text \<open>Pushing a task that the pool has let go is defined, and keeps the invariant.\<close>

lemma push_ok:
  assumes ok: "sys_ok s" and p: "pool s = Some p" and up: "\<not> shutdown p"
    and t: "tasks s a = Some t" "can_push t"
  shows "\<exists>r s' p'. thread_pool_push_task (Some ()) (Some a) woken created s = Some (r, s') \<and> sys_ok s' \<and> pool s' = Some p' \<and>
    (if r = TPOOL_ERR_TOO_MANY_TASKS then s' = s else queued p' = queued p @ [Some a])"
proof (cases "task_waiting p + task_executing p \<ge> int TPOOL_MAX_TASKS")
  case True
  then show ?thesis using ok p by (simp add: thread_pool_push_task_def)
next
  case False
  have pok: "pool_ok p" by (rule sys_okD(5)[OF ok p])
  then have wf: "queue_wf p" and exec: "0 \<le> task_executing p" by (simp_all add: pool_ok_def)
  have room: "length (queued p) < TPOOL_MAX_TASKS" using False exec length_queued[OF wf] by linarith
  obtain p1 where p1: "enqueue (Some a) p = Some p1" "queue_wf p1" "queued p1 = queued p @ [Some a]"
    "p1 = p\<lparr>queue := queue p1, writePtr := writePtr p1, task_waiting := task_waiting p + 1\<rparr>"
    by (rule enqueue_wf[OF wf room])
  have f: "threads p1 = threads p" "task_executing p1 = task_executing p" "shutdown p1 = shutdown p"
    "max_thread_count p1 = max_thread_count p" "created_threads_count p1 = created_threads_count p"
    "mutex p1 = mutex p" "task_waiting p1 = task_waiting p + 1"
    by (subst p1(4); simp)+
  have free: "unreferenced a (sys_refs s)"
    using pool_let_go[OF ok t(1)] t(2) by (auto simp: can_push_def)
  let ?t = "t\<lparr>state := TASK_QUEUED\<rparr>"
  have "refs_ok (sys_refs s) ((tasks s)(a := None))"
    using refs_ok_outside[OF sys_okD(3)[OF ok] free, of None] by simp
  from refs_ok_add[OF this free, of ?t]
  have refs1: "refs_ok (add_mset (TASK_QUEUED, a) (refs p)) ((tasks s)(a \<mapsto> ?t))"
    using p by (simp add: sys_refs_def)
  have step: "sys_ok (set_pool q (set_task a ?t s))"
    if q: "queued q = queued p1" "threads q = cond_signal woken (threads p) \<or> threads q = threads p \<or> threads q = threads p @ [W_Loop]" "pool_ok q" for q
  proof (rule sys_okI)
    let ?s = "set_pool q (set_task a ?t s)"
    show "tasks ?s b = None" if "next_addr ?s \<le> b" for b
      using that t(1) sys_okD(1)[OF ok, of b] by (auto simp: set_pool_def set_task_def)
    show "task_ok u" if "tasks ?s b = Some u" for b u
      using that sys_okD(2)[OF ok] by (auto simp: set_pool_def set_task_def task_ok_def finished_def split: if_splits)
    have "refs q = add_mset (TASK_QUEUED, a) (refs p)"
      using q(1,2) p1(3) by (auto simp: refs_def queue_refs_def cond_signal_map)
    then show "refs_ok (sys_refs ?s) (tasks ?s)" using refs1 by (simp add: sys_refs_def set_pool_def set_task_def)
    show "worker_ok (tasks ?s) w" if "w \<in> sys_workers ?s" for w
    proof -
      have "w = W_Loop \<or> w \<in> sys_workers s" using that q(2) p
        by (auto simp: sys_workers_def set_pool_def dest: set_cond_signal)
      then show ?thesis
        using worker_ok_other[OF sys_okD(4)[OF ok] free sys_worker_held] by (auto simp: set_pool_def set_task_def)
    qed
    show "pool_ok p'" if "pool ?s = Some p'" for p'
      using that q(3) by (simp add: set_pool_def)
  qed
  have base: "queue_wf p1" "None \<notin> set (queued p1)" "task_executing p = int (count_if busy (threads p))"
    "created_threads_count p = int (length (threads p))"
    "created_threads_count p \<le> max_thread_count p" "0 < max_thread_count p" "max_thread_count p \<le> TPOOL_MAX_THREADS"
    "task_waiting p1 + task_executing p \<le> int TPOOL_MAX_TASKS" "W_Exit \<notin> set (threads p)" "\<not> shutdown p"
    using pok p1(2,3) f False up by (auto simp: pool_ok_def)
  consider (wake) "task_executing p < created_threads_count p \<or> created_threads_count p \<ge> max_thread_count p"
    | (fail) "\<not> (task_executing p < created_threads_count p \<or> created_threads_count p \<ge> max_thread_count p)" "\<not> created"
    | (make) "\<not> (task_executing p < created_threads_count p \<or> created_threads_count p \<ge> max_thread_count p)" created
    by blast
  then show ?thesis
  proof cases
    case wake
    then have "threads p \<noteq> []" using base by auto
    then have "\<exists>w \<in> set (cond_signal woken (threads p)). w \<noteq> W_Wait" by (rule cond_signal_awake)
    moreover have "W_Exit \<notin> set (cond_signal woken (threads p))" using base(9) set_cond_signal by blast
    ultimately have "pool_ok (p1\<lparr>threads := cond_signal woken (threads p)\<rparr>)" using base f by (simp add: pool_ok_def)
    from step[OF _ _ this] show ?thesis
      using wake False p t(1) p1(1,3) f
      by (simp add: thread_pool_push_task_def set_pool_def set_task_def)
  next
    case fail
    have "pool_ok (p1\<lparr>mutex := True\<rparr>)" using base f by (simp add: pool_ok_def)
    from step[OF _ _ this] show ?thesis
      using fail False p t(1) p1(1,3) f
      by (simp add: thread_pool_push_task_def set_pool_def set_task_def)
  next
    case make
    have "pool_ok (p1\<lparr>threads := threads p @ [W_Loop], created_threads_count := created_threads_count p + 1\<rparr>)"
      using base f make by (simp add: pool_ok_def)
    from step[OF _ _ this] show ?thesis
      using make False p t(1) p1(1,3) f
      by (simp add: thread_pool_push_task_def set_pool_def set_task_def)
  qed
qed

lemma queued_new_pool [simp]: "queued (new_pool n) = []"
  by (simp add: queued_def)

lemma new_pool_ok: "0 < n \<Longrightarrow> n \<le> TPOOL_MAX_THREADS \<Longrightarrow> pool_ok (new_pool n)"
  by (simp add: pool_ok_def queue_wf_def new_pool_def[THEN arg_cong, of queue] new_pool_def[THEN arg_cong, of writePtr]
    new_pool_def[THEN arg_cong, of readPtr])

lemma drained_pool:
  assumes "pool_ok p" "shutdown p" "all_exited p"
  shows "refs p = {#}"
proof -
  have "queued p = []" using assms(1,2) by (simp add: pool_ok_def queued_def)
  moreover have "concat (map held_by (threads p)) = []"
    using assms(3) by (auto simp: all_exited_def)
  ultimately show ?thesis by (simp add: refs_def queue_refs_def)
qed

lemma client_moves_ok:
  assumes "client_moves s e s'" and ok: "sys_ok s"
  shows "sys_ok s'"
  using assms(1)
proof cases
  case (new_pool n x y r)
  then show ?thesis using ok new_pool_ok[of n]
    by (auto simp: thread_pool_new_def set_pool_def sys_ok_def sys_refs_def sys_workers_def refs_def queue_refs_def
      split: if_splits)
next
  case (delete_pool p r)
  show ?thesis
  proof (cases "s' = s")
    case False
    then have "\<not> (task_executing p > 0 \<or> task_waiting p > 0)" and s': "s' = set_pool (p\<lparr>shutdown := True, threads := cond_broadcast (threads p)\<rparr>) s"
      using delete_pool by (auto simp: thread_pool_delete_def split: if_splits)
    moreover have "pool_ok p" by (rule sys_okD(5)[OF ok delete_pool(2)])
    moreover have "W_Wait \<notin> set (cond_broadcast (threads p))" by (auto dest: set_cond_broadcast)
    ultimately have "pool_ok (p\<lparr>shutdown := True, threads := cond_broadcast (threads p)\<rparr>)"
      using delete_pool(3) by (simp add: pool_ok_def queue_wf_def)
    then show ?thesis using ok delete_pool(2) s'
      by (auto simp: set_pool_def sys_ok_def sys_refs_def sys_workers_def dest: set_cond_broadcast)
  qed (simp add: ok)
next
  case (delete_end p r)
  then have "s' = s\<lparr>pool := None\<rparr>" by (auto simp: thread_pool_delete_end_def)
  then show ?thesis using ok delete_end drained_pool[of p]
    by (auto simp: sys_ok_def sys_refs_def sys_workers_def)
next
  case (push p a t woken created r)
  then show ?thesis using push_ok[OF ok push(2,4,5,6), of woken created] by auto
next
  case (new_task f x y r a)
  show ?thesis
  proof (cases "s' = s")
    case False
    let ?t = "\<lparr>task_function = f, arg = x, result = 0, state = TASK_CREATED, detachMode = False\<rparr>"
    have "unreferenced (next_addr s) (sys_refs s)"
      using sys_okD(1)[OF ok] by (intro unreferencedI[OF sys_okD(3)[OF ok]]) auto
    then have "sys_ok (s\<lparr>next_addr := next_addr s + 1, tasks := (tasks s)(next_addr s := Some ?t)\<rparr>)"
      by (intro client_put[OF ok]) (auto simp: task_ok_def finished_def owned_def)
    then show ?thesis using False new_task(2)
      by (auto simp: thread_task_new_def set_task_def split: if_splits)
  qed (simp add: ok)
next
  case (join a t out r v)
  then show ?thesis using ok join_ok[OF ok join(2) _ join(3)]
    by (auto simp: thread_task_join_def split: if_splits)
next
  case (timed_join a t timeout out j)
  then show ?thesis using ok join_ok[OF ok timed_join(2) _ timed_join(3)] timed_join_end_ok[OF ok timed_join(2,3)]
    by (auto simp: thread_task_timed_join_def split: if_splits bind_splits)
next
  case (timed_wake a t timedout j)
  then show ?thesis using ok timed_join_end_ok[OF ok timed_wake(2,3)]
    by (auto simp: timed_join_wake_def split: if_splits)
next
  case (delete_task a t r)
  show ?thesis
  proof (cases "s' = s")
    case False
    then have "state t = TASK_CREATED \<or> state t = TASK_JOINED" and s': "s' = s\<lparr>tasks := (tasks s)(a := None)\<rparr>"
      using delete_task by (auto simp: thread_task_delete_def free_task_def split: if_splits)
    then have "unreferenced a (sys_refs s)" using pool_let_go[OF ok delete_task(2)] by blast
    from client_put[OF ok this, of "next_addr s" None] s' show ?thesis by simp
  qed (simp add: ok)
next
  case (detach a t r)
  then show ?thesis using ok sys_okD(2)[OF ok detach(2)] client_keep[OF ok detach(2), of "t\<lparr>detachMode := True\<rparr>"]
    by (auto simp: thread_task_detach_def task_ok_def finished_def computed_def owned_def split: if_splits)
qed

subsection \<open>Reachable states\<close>

lemma tp_init_ok: "sys_ok tp_init"
  by (auto simp: tp_init_def sys_ok_def sys_refs_def sys_workers_def refs_ok_def)

lemma tp_run_ok: "tp_run s es s' \<Longrightarrow> sys_ok s \<Longrightarrow> sys_ok s'"
  by (induction rule: tp_run.induct) (auto intro: worker_moves_ok client_moves_ok spurious_wakeup_ok)

end
