(* ===== verification/Tp_Live.thy ===== *)
theory Tp_Live imports Tp_Inv begin

text \<open>
  The order in which the pool runs its tasks, and that its workers finish all of them.
\<close>

subsection \<open>First in, first out\<close>

definition pushed :: "event list \<Rightarrow> addr list" where
  "pushed es = List.map_filter (\<lambda>e. case e of Pushed a \<Rightarrow> Some a | _ \<Rightarrow> None) es"

definition taken :: "event list \<Rightarrow> addr list" where
  "taken es = List.map_filter (\<lambda>e. case e of Taken a \<Rightarrow> Some a | _ \<Rightarrow> None) es"

lemma pushed_simps [simp]:
  "pushed [] = []" "pushed [Pushed a] = [a]" "pushed [Taken a] = []" "pushed [Silent] = []"
  "pushed (es @ fs) = pushed es @ pushed fs"
  by (simp_all add: pushed_def List.map_filter_def)

lemma taken_simps [simp]:
  "taken [] = []" "taken [Pushed a] = []" "taken [Taken a] = [a]" "taken [Silent] = []"
  "taken (es @ fs) = taken es @ taken fs"
  by (simp_all add: taken_def List.map_filter_def)

definition pending :: "system \<Rightarrow> addr option list" where
  "pending s = (case pool s of None \<Rightarrow> [] | Some p \<Rightarrow> queued p)"

lemma worker_moves_queue:
  assumes "worker_moves s e s'" and ok: "sys_ok s"
  shows "pushed [e] = [] \<and> pending s = map Some (taken [e]) @ pending s'"
  using assms(1)
proof cases
  case (move p i w' p' ts')
  show ?thesis
  proof (cases "threads p ! i = W_Loop")
    case True
    show ?thesis
    proof (cases "worker_awake p")
      case True
      from worker_loop_ok[OF ok move(3,4) \<open>threads p ! i = W_Loop\<close> this] show ?thesis
        using move True \<open>threads p ! i = W_Loop\<close>
        by (auto simp: worker_step_def worker_event_def pending_def split: if_splits)
    next
      case False
      then show ?thesis using move \<open>threads p ! i = W_Loop\<close>
        by (auto simp: worker_step_def worker_event_def pending_def)
    qed
  next
    case False
    then show ?thesis using move worker_step_ok[OF ok move(3,4,5)] by (auto simp: pending_def)
  qed
qed

lemma client_moves_queue:
  assumes "client_moves s e s'" and ok: "sys_ok s"
  shows "taken [e] = [] \<and> pending s' = pending s @ map Some (pushed [e])"
  using assms(1)
proof cases
  case (push p a t woken created r)
  from push_ok[OF ok push(2,4,5,6), of woken created] push obtain p' where
    "pool s' = Some p'" "if r = TPOOL_ERR_TOO_MANY_TASKS then s' = s else queued p' = queued p @ [Some a]" by auto
  moreover have "r = TPOOL_OK \<or> r = TPOOL_ERR_PTHREAD_ERROR \<or> r = TPOOL_ERR_TOO_MANY_TASKS"
    using push(7) by (auto simp: thread_pool_push_task_def Let_def split: if_splits bind_splits)
  ultimately show ?thesis using push(1,2) by (auto simp: push_event_def pending_def)
next
  case (delete_end p r)
  moreover have "pool_ok p" using ok delete_end(2) by (rule sys_okD(5))
  ultimately show ?thesis
    by (auto simp: thread_pool_delete_end_def pending_def pool_ok_def queued_def)
qed (auto simp: pending_def thread_pool_new_def thread_pool_delete_def thread_task_new_def thread_task_join_def
  thread_task_timed_join_def timed_join_wake_def timed_join_end_def thread_task_delete_def free_task_def
  thread_task_detach_def set_pool_def set_task_def split: if_splits bind_splits)

lemma spurious_wakeup_queue: "spurious_wakeup s s' \<Longrightarrow> pending s' = pending s"
  by (auto simp: spurious_wakeup.simps pending_def)

lemma tp_run_queue:
  "tp_run s es s' \<Longrightarrow> sys_ok s \<Longrightarrow> pending s @ map Some (pushed es) = map Some (taken es) @ pending s'"
proof (induction rule: tp_run.induct)
  case (worker es s1 e s2)
  then show ?case using worker_moves_queue[OF worker(2) tp_run_ok[OF worker(1,4)]] by simp
next
  case (client es s1 e s2)
  then show ?case using client_moves_queue[OF client(2) tp_run_ok[OF client(1,4)]]
    by (metis append_Nil2 append_assoc map_append pushed_simps(5) taken_simps(5))
next
  case (spurious es s1 s2)
  then show ?case using spurious_wakeup_queue by simp
qed simp

subsection \<open>Workers finish the work\<close>

fun weight :: "worker \<Rightarrow> nat" where
  "weight W_Exit = 0"
| "weight W_Wait = 0"
| "weight W_Loop = 1"
| "weight (W_Free a) = 2"
| "weight (W_Counted a) = 3"
| "weight (W_Ran a) = 4"
| "weight (W_Run a) = 5"
| "weight (W_Got x) = 6"

definition work :: "system \<Rightarrow> nat" where
  "work s = (case pool s of None \<Rightarrow> 0 | Some p \<Rightarrow> 6 * length (queued p) + sum_list (map weight (threads p)))"

lemma worker_moves_work:
  assumes "worker_moves s e s'" and ok: "sys_ok s"
  shows "work s' < work s"
  using assms(1)
proof cases
  case (move p i w' p' ts')
  have w: "sum_list (map weight ((threads p)[i := w'])) + weight (threads p ! i) = sum_list (map weight (threads p)) + weight w'"
    by (rule sum_list_upd[OF move(4)])
  show ?thesis
  proof (cases "threads p ! i = W_Loop")
    case True
    show ?thesis
    proof (cases "worker_awake p")
      case True
      from worker_loop_ok[OF ok move(3,4) \<open>threads p ! i = W_Loop\<close> this] show ?thesis
        using move True \<open>threads p ! i = W_Loop\<close> w by (auto simp: worker_step_def work_def split: if_splits)
    next
      case False
      then show ?thesis using move \<open>threads p ! i = W_Loop\<close> w by (auto simp: worker_step_def work_def)
    qed
  next
    case False
    have "weight w' < weight (threads p ! i)"
      using False move(6) by (cases "threads p ! i") (auto simp: worker_step_def split: option.splits if_splits bind_splits)
    then show ?thesis using False move w worker_step_ok[OF ok move(3,4,5)] by (auto simp: work_def)
  qed
qed

text \<open>A step of some worker, spurious wake-ups not counted, and the states where none is possible.\<close>

definition any_worker :: "system \<Rightarrow> system \<Rightarrow> bool" where
  "any_worker s s' \<longleftrightarrow> (\<exists>e. worker_moves s e s')"

definition pool_free :: "system \<Rightarrow> bool" where
  "pool_free s \<longleftrightarrow> (case pool s of None \<Rightarrow> True | Some p \<Rightarrow> \<not> mutex p)"

definition shutting_down :: "system \<Rightarrow> bool" where
  "shutting_down s \<longleftrightarrow> (\<exists>p. pool s = Some p \<and> shutdown p)"

lemma worker_moves_flags:
  assumes "worker_moves s e s'"
  shows "pool_free s' = pool_free s \<and> shutting_down s' = shutting_down s"
  using assms
proof cases
  case (move p i w' p' ts')
  then have "mutex p' = mutex p \<and> shutdown p' = shutdown p"
    by (cases "threads p ! i")
      (auto simp: worker_step_def worker_take_def dequeue_def Let_def split: option.splits if_splits bind_splits)
  then show ?thesis using move by (simp add: pool_free_def shutting_down_def)
qed

text \<open>What workers do to a task: run it to its end, and free it only when it is detached.\<close>

definition pushed_state :: "task_state \<Rightarrow> bool" where
  "pushed_state st \<longleftrightarrow> st = TASK_QUEUED \<or> st = TASK_EXECUTING \<or> st = TASK_DONE"

definition evolves :: "thread_task \<Rightarrow> thread_task option \<Rightarrow> bool" where
  "evolves t x = (case x of None \<Rightarrow> detachMode t
   | Some t' \<Rightarrow> detachMode t' = detachMode t \<and> task_function t' = task_function t \<and> arg t' = arg t \<and>
       (pushed_state (state t) \<longrightarrow> pushed_state (state t')))"

lemma evolves_refl [simp]: "evolves t (Some t)"
  by (simp add: evolves_def)

lemma evolves_trans: "evolves t (Some t1) \<Longrightarrow> evolves t1 x \<Longrightarrow> evolves t x"
  by (auto simp: evolves_def split: option.splits)

lemma worker_moves_task:
  assumes "worker_moves s e s'" and ok: "sys_ok s" and a: "tasks s a = Some t"
  shows "evolves t (tasks s' a)"
  using assms(1)
proof cases
  case (move p i w' p' ts')
  have "worker_ok (tasks s) (threads p ! i)" by (rule worker_ok_nth[OF ok move(3,4)])
  moreover have "evolves t (ts' a)"
    if "worker_step w p (tasks s) = Some (w', p', ts')" "worker_ok (tasks s) w" for w
    using that a
    by (cases w) (auto simp: worker_step_def evolves_def pushed_state_def split: option.splits if_splits bind_splits)
  ultimately show ?thesis using move by simp
qed

lemma any_worker_runs:
  assumes "sys_ok s" "(any_worker ^^ n) s s'"
  shows "sys_ok s' \<and> pool_free s' = pool_free s \<and> shutting_down s' = shutting_down s \<and> work s' + n \<le> work s"
  using assms(2)
proof (induction n arbitrary: s')
  case (Suc n)
  then obtain s1 where s1: "(any_worker ^^ n) s s1" "any_worker s1 s'" by auto
  then obtain e where "worker_moves s1 e s'" by (auto simp: any_worker_def)
  then show ?case using Suc.IH[OF s1(1)] worker_moves_ok worker_moves_work[of s1 e s'] worker_moves_flags by force
qed (simp add: assms(1))

lemma any_worker_task:
  assumes ok: "sys_ok s" and run: "(any_worker ^^ n) s s'" and a: "tasks s a = Some t"
  shows "case tasks s' a of None \<Rightarrow> detachMode t | Some t' \<Rightarrow> evolves t (Some t')"
  using run
proof (induction n arbitrary: s')
  case (Suc n)
  then obtain s1 where s1: "(any_worker ^^ n) s s1" "any_worker s1 s'" by auto
  then obtain e where e: "worker_moves s1 e s'" by (auto simp: any_worker_def)
  have ok1: "sys_ok s1" using any_worker_runs[OF ok s1(1)] by simp
  show ?case
  proof (cases "tasks s1 a")
    case None
    then have "detachMode t" using Suc.IH[OF s1(1)] by simp
    moreover have "tasks s' a = None"
      using e
    proof cases
      case (move p i w' p' ts')
      then show ?thesis using None
        by (cases "threads p ! i") (auto simp: worker_step_def split: option.splits if_splits bind_splits)
    qed
    ultimately show ?thesis by simp
  next
    case (Some t1)
    then have "evolves t (tasks s' a)" using Suc.IH[OF s1(1)] evolves_trans worker_moves_task[OF e ok1 Some] by auto
    then show ?thesis by (simp add: evolves_def split: option.splits)
  qed
qed (simp add: a)

text \<open>When no worker can move, the pool holds no task.\<close>

lemma stuck_no_refs:
  assumes ok: "sys_ok s" and free: "pool_free s" and stuck: "\<not> (\<exists>s'. any_worker s s')"
  shows "sys_refs s = {#}"
proof (cases "pool s")
  case (Some p)
  have pok: "pool_ok p" by (rule sys_okD(5)[OF ok Some])
  have unable: "\<not> worker_enabled (threads p ! i) p" if i: "i < length (threads p)" for i
  proof
    assume en: "worker_enabled (threads p ! i) p"
    from worker_step_ok[OF ok Some i en] obtain w' p' ts' where
      "worker_step (threads p ! i) p (tasks s) = Some (w', p', ts')" by blast
    from worker_moves.move[OF Some i en this] stuck show False unfolding any_worker_def by blast
  qed
  have mutex: "\<not> mutex p" using free Some by (simp add: pool_free_def)
  have idle: "w = W_Exit \<or> w = W_Wait" if "w \<in> set (threads p)" for w
    using that unable mutex by (auto simp: in_set_conv_nth worker_enabled_def)
  have "task_waiting p = 0"
  proof (rule ccontr)
    assume "task_waiting p \<noteq> 0"
    then have "\<exists>w \<in> set (threads p). w \<noteq> W_Wait" "W_Exit \<notin> set (threads p)"
      using pok mutex by (auto simp: pool_ok_def queue_wf_def)
    then show False using idle by blast
  qed
  then have "queued p = []" by (simp add: queued_def)
  moreover have "concat (map held_by (threads p)) = []" using idle by fastforce
  ultimately show ?thesis using Some by (simp add: sys_refs_def refs_def queue_refs_def)
qed (simp add: sys_refs_def)

lemma stuck_tasks:
  assumes "sys_ok s" "pool_free s" "\<not> (\<exists>s'. any_worker s s')" "tasks s a = Some t"
  shows "\<not> owned t"
  using refs_ok_complete[OF sys_okD(3)[OF assms(1)] assms(4)] stuck_no_refs[OF assms(1,2,3)] by auto

lemma no_refs_pending: "sys_refs s = {#} \<Longrightarrow> pending s = []"
  by (auto simp: sys_refs_def pending_def refs_def queue_refs_def split: option.splits)

lemma workers_stop: "sys_ok s \<Longrightarrow> \<exists>n s'. (any_worker ^^ n) s s' \<and> \<not> (\<exists>s''. any_worker s' s'')"
proof (induction "work s" arbitrary: s rule: less_induct)
  case less
  show ?case
  proof (cases "\<exists>s'. any_worker s s'")
    case True
    then obtain s1 e where s1: "worker_moves s e s1" by (auto simp: any_worker_def)
    from less.hyps[OF worker_moves_work[OF s1 less.prems] worker_moves_ok[OF s1 less.prems]] obtain n s' where
      "(any_worker ^^ n) s1 s'" "\<not> (\<exists>s''. any_worker s' s'')" by blast
    moreover have "any_worker s s1" using s1 by (auto simp: any_worker_def)
    ultimately show ?thesis using relpowp_Suc_I2 by metis
  qed (metis relpowp_0_I)
qed

lemma stuck_shutdown:
  assumes ok: "sys_ok s" and down: "shutting_down s" and stuck: "\<not> (\<exists>s'. any_worker s s')"
  obtains p where "pool s = Some p" "all_exited p"
proof -
  from down obtain p where p: "pool s = Some p" "shutdown p" by (auto simp: shutting_down_def)
  have "w = W_Exit" if "w \<in> set (threads p)" for w
  proof (rule ccontr)
    assume w: "w \<noteq> W_Exit"
    from that obtain i where i: "i < length (threads p)" "threads p ! i = w" by (auto simp: in_set_conv_nth)
    have "\<not> mutex p" using sys_okD(5)[OF ok p(1)] p(2) by (simp add: pool_ok_def)
    moreover have "w \<noteq> W_Wait" using sys_okD(5)[OF ok p(1)] p(2) that by (auto simp: pool_ok_def)
    ultimately have "worker_enabled (threads p ! i) p" using w i(2) by (simp add: worker_enabled_def)
    from worker_step_ok[OF ok p(1) i(1) this] worker_moves.move[OF p(1) i(1) this] stuck
    show False unfolding any_worker_def by blast
  qed
  then show thesis using that p(1) by (simp add: all_exited_def)
qed

subsection \<open>The function of a task\<close>

text \<open>
  A task keeps its function and argument as long as it lives, and an address that was given to a task
  is not given to another one.
\<close>

definition same_code :: "system \<Rightarrow> system \<Rightarrow> bool" where
  "same_code s s' \<longleftrightarrow> next_addr s \<le> next_addr s' \<and> (\<forall>a t'. a < next_addr s \<longrightarrow> tasks s' a = Some t' \<longrightarrow>
     (\<exists>t. tasks s a = Some t \<and> task_function t' = task_function t \<and> arg t' = arg t))"

lemma same_code_refl: "same_code s s"
  by (simp add: same_code_def)

lemma same_code_trans: "same_code s s1 \<Longrightarrow> same_code s1 s2 \<Longrightarrow> same_code s s2"
proof (simp only: same_code_def, intro conjI allI impI)
  assume 1: "next_addr s \<le> next_addr s1 \<and> (\<forall>a t'. a < next_addr s \<longrightarrow> tasks s1 a = Some t' \<longrightarrow>
      (\<exists>t. tasks s a = Some t \<and> task_function t' = task_function t \<and> arg t' = arg t))"
    and 2: "next_addr s1 \<le> next_addr s2 \<and> (\<forall>a t'. a < next_addr s1 \<longrightarrow> tasks s2 a = Some t' \<longrightarrow>
      (\<exists>t. tasks s1 a = Some t \<and> task_function t' = task_function t \<and> arg t' = arg t))"
  show "next_addr s \<le> next_addr s2" using 1 2 by simp
  show "\<exists>t. tasks s a = Some t \<and> task_function t2 = task_function t \<and> arg t2 = arg t"
    if a: "a < next_addr s" "tasks s2 a = Some t2" for a t2
  proof -
    have "a < next_addr s1" using a(1) 1 by simp
    then obtain t1 where "tasks s1 a = Some t1" "task_function t2 = task_function t1" "arg t2 = arg t1"
      using 2 a(2) by blast
    then show ?thesis using 1 a(1) by force
  qed
qed

lemma worker_same_code: "worker_moves s e s' \<Longrightarrow> same_code s s'"
proof (induction rule: worker_moves.induct)
  case (move s p i w' p' ts')
  then show ?case
    by (cases "threads p ! i") (auto simp: same_code_def worker_step_def split: if_splits option.splits bind_splits)
qed

lemma client_same_code:
  assumes "client_moves s e s'"
  shows "same_code s s'"
  using assms
proof cases
  case (new_task f x y r a)
  then show ?thesis by (auto simp: same_code_def thread_task_new_def set_task_def split: if_splits)
next
  case (push p a t woken created r)
  then show ?thesis
    by (auto simp: same_code_def thread_pool_push_task_def Let_def set_pool_def set_task_def split: if_splits bind_splits)
next
  case (join a t out r v)
  then show ?thesis
    by (auto simp: same_code_def thread_task_join_def set_task_def split: if_splits)
next
  case (timed_join a t timeout out j)
  then show ?thesis
    by (auto simp: same_code_def thread_task_timed_join_def timed_join_end_def set_task_def split: if_splits bind_splits)
next
  case (timed_wake a t timedout j)
  then show ?thesis
    by (auto simp: same_code_def timed_join_wake_def timed_join_end_def set_task_def split: if_splits)
next
  case (delete_task a t r)
  then show ?thesis
    by (auto simp: same_code_def thread_task_delete_def free_task_def split: if_splits)
next
  case (detach a t r)
  then show ?thesis
    by (auto simp: same_code_def thread_task_detach_def set_task_def split: if_splits)
qed (auto simp: same_code_def thread_pool_new_def thread_pool_delete_def thread_pool_delete_end_def set_pool_def
  split: if_splits bind_splits)

lemma run_same_code: "tp_run s es s' \<Longrightarrow> same_code s s'"
proof (induction rule: tp_run.induct)
  case (spurious es s1 s2)
  then have "same_code s1 s2" by (auto simp: spurious_wakeup.simps same_code_def)
  then show ?case using spurious same_code_trans by blast
qed (use same_code_refl same_code_trans worker_same_code client_same_code in blast)+

subsection \<open>A pool whose mutex was left locked\<close>

definition locked :: "system \<Rightarrow> bool" where
  "locked s \<longleftrightarrow> (\<exists>p. pool s = Some p \<and> mutex p \<and> \<not> shutdown p)"

lemma locked_client: "client_moves s e s' \<Longrightarrow> locked s \<Longrightarrow> locked s'"
  by (induction rule: client_moves.induct)
    (auto simp: locked_def thread_task_new_def thread_task_join_def thread_task_timed_join_def timed_join_wake_def
      timed_join_end_def thread_task_delete_def free_task_def thread_task_detach_def set_task_def
      split: if_splits bind_splits)

lemma locked_worker:
  assumes "worker_moves s e s'" "locked s"
  shows "locked s' \<and> e = Silent"
  using assms(1)
proof cases
  case (move p i w' p' ts')
  have lock: "mutex p" "\<not> shutdown p" using assms(2) move(3) by (auto simp: locked_def)
  then have "threads p ! i \<noteq> W_Loop" using move(5) by (auto simp: worker_enabled_def worker_locks_def)
  moreover from this have "mutex p' = mutex p \<and> shutdown p' = shutdown p"
    using move(6) by (cases "threads p ! i") (auto simp: worker_step_def split: option.splits if_splits bind_splits)
  ultimately show ?thesis using move lock by (simp add: locked_def)
qed

lemma locked_forever: "tp_run s es s' \<Longrightarrow> locked s \<Longrightarrow> locked s' \<and> taken es = []"
proof (induction rule: tp_run.induct)
  case (worker es s1 e s2)
  then show ?case using locked_worker by fastforce
next
  case (client es s1 e s2)
  then have "locked s2" using locked_client by blast
  moreover have "taken [e] = []" using client.hyps(2) by cases (simp_all add: push_event_def)
  ultimately show ?case using client by simp
next
  case (spurious es s1 s2)
  then show ?case by (auto simp: spurious_wakeup.simps locked_def)
qed simp

end
