(* ===== verification/Tp_Demo.thy ===== *)
theory Tp_Demo imports Tp_Live begin

text \<open>
  A run at concrete values: a task that adds one is made, a pool of two threads is made, the task is
  pushed, and the thread this creates runs it and goes to sleep.
\<close>

definition demo_task :: "cvalue \<Rightarrow> task_state \<Rightarrow> thread_task" where
  "demo_task r st = \<lparr>task_function = Suc, arg = 41, result = r, state = st, detachMode = False\<rparr>"

definition demo_queue :: "addr option list" where
  "demo_queue = replicate TPOOL_MAX_TASKS None"

definition demo_pool :: "worker \<Rightarrow> int \<Rightarrow> int \<Rightarrow> nat \<Rightarrow> addr option list \<Rightarrow> thread_pool" where
  "demo_pool w waiting executing r q = \<lparr>max_thread_count = 2, task_waiting = waiting, task_executing = executing,
     created_threads_count = 1, mutex = False, shutdown = False, queue = q, writePtr = 1, readPtr = r,
     threads = [w]\<rparr>"

definition demo_sys :: "thread_pool \<Rightarrow> thread_task \<Rightarrow> system" where
  "demo_sys p t = \<lparr>pool = Some p, tasks = [0 \<mapsto> t], next_addr = 1\<rparr>"

definition demo_pushed :: system where
  "demo_pushed = demo_sys (demo_pool W_Loop 1 0 0 (demo_queue[0 := Some 0])) (demo_task 0 TASK_QUEUED)"

definition demo_done :: system where
  "demo_done = demo_sys (demo_pool W_Loop 0 0 1 (demo_queue[0 := None])) (demo_task 42 TASK_DONE)"

definition demo_asleep :: system where
  "demo_asleep = demo_sys (demo_pool W_Wait 0 0 1 (demo_queue[0 := None])) (demo_task 42 TASK_DONE)"

lemmas demo_defs = demo_task_def demo_queue_def demo_pool_def demo_sys_def

lemma demo_made: "tp_run tp_init [Silent, Silent] (demo_sys (new_pool 2) (demo_task 0 TASK_CREATED))"
proof -
  let ?s = "\<lparr>pool = None, tasks = [0 \<mapsto> demo_task 0 TASK_CREATED], next_addr = 1\<rparr>"
  have "client_moves tp_init Silent ?s"
    by (rule client_moves.new_task[where f = Suc and x = 41 and y = True and a = "Some 0" and r = TPOOL_OK])
      (simp add: thread_task_new_def set_task_def tp_init_def demo_task_def)
  then have "tp_run tp_init ([] @ [Silent]) ?s" by (rule tp_run.client[OF tp_run.start])
  moreover have "client_moves ?s Silent (demo_sys (new_pool 2) (demo_task 0 TASK_CREATED))"
    by (rule client_moves.new_pool[where n = 2 and x = True and y = True and r = TPOOL_OK])
      (simp_all add: thread_pool_new_def set_pool_def demo_sys_def)
  ultimately have "tp_run tp_init (([] @ [Silent]) @ [Silent]) (demo_sys (new_pool 2) (demo_task 0 TASK_CREATED))"
    by (rule tp_run.client)
  then show ?thesis by simp
qed

lemma demo_push:
  "thread_pool_push_task (Some ()) (Some 0) 0 True (demo_sys (new_pool 2) (demo_task 0 TASK_CREATED)) = Some (TPOOL_OK, demo_pushed)"
  by (simp add: thread_pool_push_task_def demo_pushed_def demo_defs new_pool_def set_task_def set_pool_def enqueue_def)

lemma demo_pushed_run: "tp_run tp_init [Silent, Silent, Pushed 0] demo_pushed"
proof -
  have "client_moves (demo_sys (new_pool 2) (demo_task 0 TASK_CREATED)) (push_event 0 TPOOL_OK) demo_pushed"
    by (rule client_moves.push[OF _ _ _ _ _ demo_push])
      (simp add: demo_defs new_pool_def can_push_def)+
  from tp_run.client[OF demo_made this] show ?thesis by (simp add: push_event_def)
qed

lemma demo_worker:
  assumes "worker_enabled w (demo_pool w n e r q)"
    and "worker_step w (demo_pool w n e r q) [0 \<mapsto> t] = Some (w', p', [0 \<mapsto> t'])" "p'\<lparr>threads := [w']\<rparr> = p2" "threads p' = [w]"
    and ev: "(if w = W_Loop then worker_event w' else Silent) = ev"
  shows "worker_moves (demo_sys (demo_pool w n e r q) t) ev (demo_sys p2 t')"
proof -
  have w: "threads (demo_pool w n e r q) ! 0 = w" "threads (demo_pool w n e r q) = [w]" by (simp_all add: demo_pool_def)
  have "worker_moves (demo_sys (demo_pool w n e r q) t) (if threads (demo_pool w n e r q) ! 0 = W_Loop then worker_event w' else Silent)
    ((demo_sys (demo_pool w n e r q) t)\<lparr>pool := Some (p'\<lparr>threads := (threads p')[0 := w']\<rparr>), tasks := [0 \<mapsto> t']\<rparr>)"
    by (rule worker_moves.move) (use assms w in \<open>simp_all add: demo_sys_def\<close>)
  then show ?thesis using assms(3,4) w ev by (simp add: demo_sys_def)
qed

lemmas demo_worker_defs = worker_enabled_def worker_locks_def worker_awake_def worker_step_def worker_take_def
  dequeue_def worker_event_def demo_defs

text \<open>The steps of the worker, the last of which puts it to sleep.\<close>

lemma demo_moves:
  "worker_moves demo_pushed (Taken 0) (demo_sys (demo_pool (W_Got (Some 0)) 0 1 1 (demo_queue[0 := None])) (demo_task 0 TASK_QUEUED))"
  "worker_moves (demo_sys (demo_pool (W_Got (Some 0)) 0 1 1 (demo_queue[0 := None])) (demo_task 0 TASK_QUEUED)) Silent
    (demo_sys (demo_pool (W_Run 0) 0 1 1 (demo_queue[0 := None])) (demo_task 0 TASK_EXECUTING))"
  "worker_moves (demo_sys (demo_pool (W_Run 0) 0 1 1 (demo_queue[0 := None])) (demo_task 0 TASK_EXECUTING)) Silent
    (demo_sys (demo_pool (W_Ran 0) 0 1 1 (demo_queue[0 := None])) (demo_task 42 TASK_EXECUTING))"
  "worker_moves (demo_sys (demo_pool (W_Ran 0) 0 1 1 (demo_queue[0 := None])) (demo_task 42 TASK_EXECUTING)) Silent
    (demo_sys (demo_pool (W_Counted 0) 0 0 1 (demo_queue[0 := None])) (demo_task 42 TASK_EXECUTING))"
  "worker_moves (demo_sys (demo_pool (W_Counted 0) 0 0 1 (demo_queue[0 := None])) (demo_task 42 TASK_EXECUTING)) Silent demo_done"
  "worker_moves demo_done Silent demo_asleep"
  unfolding demo_pushed_def demo_done_def demo_asleep_def
  subgoal by (rule demo_worker) (simp add: demo_worker_defs)+
  subgoal by (rule demo_worker) (simp add: demo_worker_defs)+
  subgoal by (rule demo_worker) (simp add: demo_worker_defs)+
  subgoal by (rule demo_worker) (simp add: demo_worker_defs)+
  subgoal by (rule demo_worker) (simp add: demo_worker_defs)+
  subgoal by (rule demo_worker) (simp add: demo_worker_defs)+
  done

lemma demo_done_run: "tp_run tp_init [Silent, Silent, Pushed 0, Taken 0, Silent, Silent, Silent, Silent] demo_done"
proof -
  have "tp_run tp_init (((([Silent, Silent, Pushed 0] @ [Taken 0]) @ [Silent]) @ [Silent]) @ [Silent] @ [Silent]) demo_done"
    unfolding append_assoc[symmetric] by (blast intro: demo_moves tp_run.worker demo_pushed_run)
  then show ?thesis by simp
qed

lemma demo_asleep_run: "tp_run tp_init [Silent, Silent, Pushed 0, Taken 0, Silent, Silent, Silent, Silent, Silent] demo_asleep"
  using tp_run.worker[OF demo_done_run demo_moves(6)] by simp

lemma demo_workers: "(any_worker ^^ 6) demo_pushed demo_asleep"
proof -
  have step: "any_worker s s'" if "worker_moves s e s'" for s e s'
    using that unfolding any_worker_def by blast
  have six: "6 = Suc (Suc (Suc (Suc (Suc (Suc (0 :: nat))))))" by simp
  show ?thesis unfolding six
    by (blast intro: relpowp_Suc_I relpowp_0_I step[OF demo_moves(1)] step[OF demo_moves(2)] step[OF demo_moves(3)]
      step[OF demo_moves(4)] step[OF demo_moves(5)] step[OF demo_moves(6)])
qed

lemma demo_asleep_stuck: "\<not> any_worker demo_asleep s"
proof
  assume "any_worker demo_asleep s"
  then obtain e where "worker_moves demo_asleep e s" by (auto simp: any_worker_def)
  then show False by cases (auto simp: demo_asleep_def demo_sys_def demo_pool_def worker_enabled_def)
qed

end
