(* ===== verification/Tp_Props.thy ===== *)
theory Tp_Props imports Tp_Demo begin

text \<open>
  Properties of the thread pool of Assignment_4, over all states that workers and clients can reach
  from the start, whatever the interleaving.
\<close>

lemma reachable_ok: "tp_run tp_init es s \<Longrightarrow> sys_ok s"
  using tp_run_ok tp_init_ok by blast

subsection \<open>Safety\<close>

text \<open>
  C4. No worker ever runs into undefined behaviour: in a reachable state each section of a worker
  that can run is defined; no slot of the queue it takes is NULL; the task it holds has not been freed.
\<close>

theorem tp_workers_safe:
  assumes "tp_run tp_init es s" "pool s = Some p" "i < length (threads p)"
  shows "(worker_enabled (threads p ! i) p \<longrightarrow> worker_step (threads p ! i) p (tasks s) \<noteq> None) \<and>
    threads p ! i \<noteq> W_Got None \<and> (\<forall>st a. (st, a) \<in> set (held_by (threads p ! i)) \<longrightarrow> (\<exists>t. tasks s a = Some t \<and> state t = st))"
proof -
  have ok: "sys_ok s" by (rule reachable_ok[OF assms(1)])
  have "threads p ! i \<noteq> W_Got None" using worker_ok_nth[OF ok assms(2,3)] by auto
  moreover have "\<exists>t. tasks s a = Some t \<and> state t = st" if "(st, a) \<in> set (held_by (threads p ! i))" for st a
  proof -
    have "held_by (threads p ! i) = [(st, a)]" using that by (cases "threads p ! i") (auto simp: held_by_def split: option.splits)
    then show ?thesis by (rule held_task[OF ok assms(2,3)])
  qed
  ultimately show ?thesis using worker_step_ok[OF ok assms(2,3)] by auto
qed

theorem tp_workers_safe_witness:
  "pool demo_pushed = Some (demo_pool W_Loop 1 0 0 (demo_queue[0 := Some 0])) \<and>
   worker_step W_Loop (demo_pool W_Loop 1 0 0 (demo_queue[0 := Some 0])) (tasks demo_pushed) \<noteq> None"
proof -
  have p: "pool demo_pushed = Some (demo_pool W_Loop 1 0 0 (demo_queue[0 := Some 0]))"
    by (simp add: demo_pushed_def demo_sys_def)
  from tp_workers_safe[OF demo_pushed_run p, of 0] show ?thesis using p
    by (simp add: demo_pool_def worker_enabled_def worker_locks_def worker_awake_def)
qed

text \<open>
  C19. A task is in the pool at most once: over the queue and the workers together no address occurs
  twice; a task is queued exactly if the queue or a worker that has just taken it holds it, executing
  exactly if a worker holds it as such, and done and detached exactly if a worker is about to free it.
\<close>

theorem tp_task_has_one_owner:
  assumes "tp_run tp_init es s" "pool s = Some p"
  shows "distinct (map snd (queue_refs (queued p) @ concat (map held_by (threads p)))) \<and>
    (\<forall>a t. tasks s a = Some t \<longrightarrow> (state t = TASK_QUEUED \<longleftrightarrow>
      (TASK_QUEUED, a) \<in> set (queue_refs (queued p) @ concat (map held_by (threads p)))) \<and>
      (state t = TASK_EXECUTING \<longleftrightarrow> (TASK_EXECUTING, a) \<in> set (concat (map held_by (threads p)))) \<and>
      (state t = TASK_DONE \<and> detachMode t \<longleftrightarrow> W_Free a \<in> set (threads p)))"
proof -
  have ok: "refs_ok (refs p) (tasks s)"
    using sys_okD(3)[OF reachable_ok[OF assms(1)]] assms(2) by (simp add: sys_refs_def)
  let ?xs = "queue_refs (queued p) @ concat (map held_by (threads p))"
  have xs: "refs p = mset ?xs" by (simp add: refs_def)
  have "distinct (map snd ?xs)"
  proof -
    have "mset (map snd ?xs) = image_mset snd (refs p)" using xs by simp
    then have "count (mset (map snd ?xs)) a \<le> 1" for a using refs_ok_once[OF ok] by metis
    then show ?thesis by (rule distinct_if_count)
  qed
  moreover have "(state t = TASK_QUEUED \<longleftrightarrow> (TASK_QUEUED, a) \<in> set ?xs) \<and>
      (state t = TASK_EXECUTING \<longleftrightarrow> (TASK_EXECUTING, a) \<in> set (concat (map held_by (threads p)))) \<and>
      (state t = TASK_DONE \<and> detachMode t \<longleftrightarrow> W_Free a \<in> set (threads p))" if t: "tasks s a = Some t" for a t
  proof -
    have in_refs: "(st, a) \<in># refs p \<longleftrightarrow> (st, a) \<in> set ?xs" for st using xs by simp
    have sound: "(st, a) \<in> set ?xs \<Longrightarrow> state t = st" for st using refs_ok_sound[OF ok] t in_refs by fastforce
    have complete: "owned t \<Longrightarrow> (state t, a) \<in> set ?xs" using refs_ok_complete[OF ok t] in_refs by simp
    have "(st, a) \<in> set ?xs \<Longrightarrow> st \<noteq> TASK_QUEUED \<Longrightarrow> (st, a) \<in> set (concat (map held_by (threads p)))" for st
      using queue_refs_state by auto
    moreover have "(TASK_DONE, a) \<in> set (concat (map held_by (threads p))) \<Longrightarrow> W_Free a \<in> set (threads p)"
      using held_by_state by fastforce
    moreover have "state t = TASK_DONE \<and> detachMode t" if w: "W_Free a \<in> set (threads p)"
    proof -
      have "worker_ok (tasks s) (W_Free a)"
        using sys_okD(4)[OF reachable_ok[OF assms(1)], of "W_Free a"] assms(2) w by (simp add: sys_workers_def)
      moreover have "(TASK_DONE, a) \<in> set ?xs" using w by (auto intro!: bexI[of _ "W_Free a"])
      ultimately show ?thesis using sound t by auto
    qed
    ultimately show ?thesis using sound complete unfolding owned_def by (metis UnCI set_append task_state.distinct(9,11,15))
  qed
  ultimately show ?thesis by blast
qed

theorem tp_task_has_one_owner_witness:
  "distinct (map snd (queue_refs (queued (the (pool demo_pushed))) @ concat (map held_by (threads (the (pool demo_pushed))))))"
  using tp_task_has_one_owner[OF demo_pushed_run, of "the (pool demo_pushed)"] by (simp add: demo_pushed_def demo_sys_def)

text \<open>
  C29. The bounds of a reachable pool: it has as many threads as \<open>created_threads_count\<close> says, at most
  \<open>max_thread_count\<close> and never more than 20; \<open>task_executing\<close> counts the workers that have a task in hand;
  \<open>task_waiting\<close> is the number of tasks in the queue, which have addresses; together they stay within 100000;
  and unless the mutex is stuck there is a thread whenever a task waits.
\<close>

theorem tp_pool_bounds:
  assumes "tp_run tp_init es s" "pool s = Some p"
  shows "created_threads_count p = int (length (threads p)) \<and> created_threads_count p \<le> max_thread_count p \<and>
    max_thread_count p \<le> TPOOL_MAX_THREADS \<and> task_executing p = int (count_if busy (threads p)) \<and>
    task_waiting p = int (length (queued p)) \<and> None \<notin> set (queued p) \<and>
    task_waiting p + task_executing p \<le> int TPOOL_MAX_TASKS \<and>
    (mutex p \<or> task_waiting p = 0 \<or> threads p \<noteq> [])"
proof -
  have "pool_ok p" by (rule sys_okD(5)[OF reachable_ok[OF assms(1)] assms(2)])
  then show ?thesis using length_queued[of p] unfolding pool_ok_def queue_wf_def by auto
qed

theorem tp_pool_bounds_witness:
  "task_waiting (demo_pool W_Loop 1 0 0 (demo_queue[0 := Some 0])) =
   int (length (queued (demo_pool W_Loop 1 0 0 (demo_queue[0 := Some 0]))))"
  using tp_pool_bounds[OF demo_pushed_run, of "demo_pool W_Loop 1 0 0 (demo_queue[0 := Some 0])"]
  by (simp add: demo_pushed_def demo_sys_def)

text \<open>
  Deleting a task is safe: when \<open>thread_task_delete\<close> frees a task that was not detached, neither the
  queue nor any worker holds its address; a task that is queued or executing is refused with
  \<open>TPOOL_ERR_TASK_IN_POOL\<close> and nothing changes.
\<close>

theorem tp_task_delete_safe:
  assumes "tp_run tp_init es s" "tasks s a = Some t" "\<not> detachMode t" "thread_task_delete (Some a) s = Some (r, s')"
  shows "(if state t = TASK_CREATED \<or> state t = TASK_JOINED
      then r = TPOOL_OK \<and> tasks s' = (tasks s)(a := None) \<and> a \<notin># image_mset snd (sys_refs s')
      else r = TPOOL_ERR_TASK_IN_POOL \<and> s' = s)"
proof (cases "state t = TASK_CREATED \<or> state t = TASK_JOINED")
  case True
  then have "unreferenced a (sys_refs s)" using pool_let_go[OF reachable_ok[OF assms(1)] assms(2)] by blast
  moreover have "r = TPOOL_OK" "s' = s\<lparr>tasks := (tasks s)(a := None)\<rparr>"
    using True assms(2,4) by (auto simp: thread_task_delete_def free_task_def)
  moreover from this have "sys_refs s' = sys_refs s" by (simp add: sys_refs_def)
  ultimately show ?thesis using True by (simp only: unreferenced_def) simp
next
  case False
  then show ?thesis using assms(2,3,4) by (auto simp: thread_task_delete_def)
qed

theorem tp_task_delete_safe_witness:
  "thread_task_delete (Some 0) demo_pushed = Some (TPOOL_ERR_TASK_IN_POOL, demo_pushed) \<and>
   TPOOL_ERR_TASK_IN_POOL \<noteq> TPOOL_OK"
proof -
  have "thread_task_delete (Some 0) demo_pushed = Some (TPOOL_ERR_TASK_IN_POOL, demo_pushed)"
    by (simp add: thread_task_delete_def demo_pushed_def demo_defs)
  from tp_task_delete_safe[OF demo_pushed_run _ _ this, of "demo_task 0 TASK_QUEUED"] this show ?thesis
    by (simp add: demo_pushed_def demo_defs)
qed

subsection \<open>The order of the tasks\<close>

text \<open>
  The array with its two pointers that wrap round is a queue: from any well-formed pool, any mix of
  pushes and takes that never takes from an empty queue and never pushes into a full one is defined,
  and gives out the elements in the order they were put in.
\<close>

theorem tp_ring_is_fifo:
  assumes "queue_wf p" "queue_fits TPOOL_MAX_TASKS as (length (queued p))"
  shows "\<exists>out p'. queue_ops enqueue dequeue as p = Some (out, p') \<and> queue_wf p' \<and> queued p @ puts as = out @ queued p'"
  using assms by (rule ring.ops_fifo)

theorem tp_ring_is_fifo_witness:
  "\<exists>out p'. queue_ops enqueue dequeue [Some (Some 7), Some (Some 8), None] (new_pool 1) = Some (out, p') \<and>
     [Some 7, Some 8] = out @ queued p'"
proof -
  have "queue_wf (new_pool 1)" using new_pool_ok[of 1] by (simp add: pool_ok_def)
  from tp_ring_is_fifo[OF this, of "[Some (Some 7), Some (Some 8), None]"] show ?thesis by auto
qed

text \<open>
  C9. Over any run of clients and workers from the start, the tasks come off the queue in the order in
  which they were pushed: the pushed ones are the taken ones followed by those still waiting.
\<close>

theorem tp_first_in_first_out:
  assumes "tp_run tp_init es s"
  shows "map Some (pushed es) = map Some (taken es) @ pending s"
  using tp_run_queue[OF assms tp_init_ok] by (simp add: pending_def tp_init_def)

theorem tp_first_in_first_out_witness:
  "map Some (pushed [Silent, Silent, Pushed 0]) = map Some (taken [Silent, Silent, Pushed 0]) @ pending demo_pushed"
  using tp_first_in_first_out[OF demo_pushed_run] .

subsection \<open>Pushing\<close>



text \<open>
  A push whose \<open>pthread_create\<close> fails leaves the pool dead: the error is returned with the pool's mutex
  locked, and over every later run the mutex stays locked, no worker at the top of its loop can go on, and
  no task is ever taken off the queue again.
\<close>

theorem tp_push_create_failure:
  assumes "pool s = Some p" "\<not> shutdown p" "thread_pool_push_task (Some ()) (Some a) woken created s = Some (TPOOL_ERR_PTHREAD_ERROR, s1)"
    "tp_run s1 es s2"
  shows "\<exists>p2. pool s2 = Some p2 \<and> mutex p2 \<and> \<not> worker_enabled W_Loop p2 \<and> taken es = []"
proof -
  have "locked s1"
    using assms(1-3) by (auto simp: locked_def thread_pool_push_task_def Let_def enqueue_def set_pool_def set_task_def
      split: if_splits bind_splits)
  then have "locked s2 \<and> taken es = []" using locked_forever[OF assms(4)] by simp
  then show ?thesis by (auto simp: locked_def worker_enabled_def worker_locks_def)
qed

theorem tp_push_create_failure_witness:
  "\<exists>s1 p1. thread_pool_push_task (Some ()) (Some 0) 0 False (demo_sys (new_pool 2) (demo_task 0 TASK_CREATED)) =
      Some (TPOOL_ERR_PTHREAD_ERROR, s1) \<and> pool s1 = Some p1 \<and> mutex p1 \<and> \<not> worker_enabled W_Loop p1"
proof -
  let ?s = "demo_sys (new_pool 2) (demo_task 0 TASK_CREATED)"
  have p: "pool ?s = Some (new_pool 2)" by (simp add: demo_sys_def)
  obtain s1 where run: "thread_pool_push_task (Some ()) (Some 0) 0 False ?s = Some (TPOOL_ERR_PTHREAD_ERROR, s1)"
    by (simp add: thread_pool_push_task_def demo_defs new_pool_def set_task_def set_pool_def enqueue_def)
  from tp_push_create_failure[OF p _ run tp_run.start] run show ?thesis by auto
qed

subsection \<open>Joining\<close>

text \<open>
  C15. What a successful join hands out.  A plain join, and a timed join that finds the task finished at once,
  return the value of the task's function at its argument, and leave the task joined and everything else alone.
  A timed join that had to wait, or whose timeout is shorter than a microsecond, leaves the task joined too, and reads the result after its
  unlock: it hands out the same value if, whatever ran in between, the task has not been freed or pushed again.
\<close>

theorem tp_join_result:
  assumes "tp_run tp_init es s" "tasks s a = Some t" "\<not> detachMode t"
  shows "(thread_task_join (Some a) True s = Some (Some TPOOL_OK, v, s') \<longrightarrow>
      v = Some (task_function t (arg t)) \<and> s' = set_task a (t\<lparr>state := TASK_JOINED\<rparr>) s) \<and>
    (thread_task_timed_join (Some a) timeout True s = Some (J_Returned TPOOL_OK v, s') \<longrightarrow>
      v = Some (task_function t (arg t)) \<and> s' = set_task a (t\<lparr>state := TASK_JOINED\<rparr>) s) \<and>
    (thread_task_timed_join (Some a) timeout True s = Some (J_Joined, s') \<or>
      timed_join_wake a timedout s = Some (J_Joined, s') \<longrightarrow>
      s' = set_task a (t\<lparr>state := TASK_JOINED\<rparr>) s \<and>
      (\<forall>es' s2 t2. tp_run s' es' s2 \<longrightarrow> tasks s2 a = Some t2 \<longrightarrow> finished t2 \<longrightarrow>
        timed_join_read a True s2 = Some (J_Returned TPOOL_OK (Some (task_function t (arg t))))))"
proof -
  have ok: "sys_ok s" by (rule reachable_ok[OF assms(1)])
  have t: "task_ok t" by (rule sys_okD(2)[OF ok assms(2)])
  have late: "s' = set_task a (t\<lparr>state := TASK_JOINED\<rparr>) s \<and>
      (\<forall>es' s2 t2. tp_run s' es' s2 \<longrightarrow> tasks s2 a = Some t2 \<longrightarrow> finished t2 \<longrightarrow>
        timed_join_read a True s2 = Some (J_Returned TPOOL_OK (Some (task_function t (arg t)))))"
    if run: "timed_join_end a s = Some (J_Joined, s')"
  proof (intro conjI allI impI)
    show s': "s' = set_task a (t\<lparr>state := TASK_JOINED\<rparr>) s"
      using run assms(2) by (auto simp: timed_join_end_def split: if_splits)
    have a: "a < next_addr s" using sys_okD(1)[OF ok, of a] assms(2) by (cases "a < next_addr s") auto
    fix es' s2 t2 assume run2: "tp_run s' es' s2" "tasks s2 a = Some t2" "finished t2"
    have "sys_ok s2" by (rule tp_run_ok[OF run2(1) timed_join_end_ok[OF ok assms(2,3) run]])
    then have "task_ok t2" using run2(2) by (rule sys_okD(2))
    moreover have "task_function t2 = task_function t \<and> arg t2 = arg t"
      using run_same_code[OF run2(1)] run2(2) a s' by (auto simp: same_code_def set_task_def)
    ultimately show "timed_join_read a True s2 = Some (J_Returned TPOOL_OK (Some (task_function t (arg t))))"
      using run2(2,3) by (simp add: timed_join_read_def task_ok_def computed_def)
  qed
  have "thread_task_timed_join (Some a) timeout True s = Some (J_Joined, s') \<Longrightarrow> timed_join_end a s = Some (J_Joined, s')"
    "timed_join_wake a timedout s = Some (J_Joined, s') \<Longrightarrow> timed_join_end a s = Some (J_Joined, s')"
    using assms(2) by (auto simp: thread_task_timed_join_def timed_join_wake_def split: if_splits bind_splits)
  moreover have "v = Some (task_function t (arg t)) \<and> s' = set_task a (t\<lparr>state := TASK_JOINED\<rparr>) s"
    if "thread_task_join (Some a) True s = Some (Some TPOOL_OK, v, s') \<or>
      thread_task_timed_join (Some a) timeout True s = Some (J_Returned TPOOL_OK v, s')"
    using that t assms(2)
    by (auto simp: task_ok_def computed_def thread_task_join_def thread_task_timed_join_def timed_join_end_def
      split: if_splits)
  ultimately show ?thesis using late by blast
qed

theorem tp_join_result_witness:
  "thread_task_join (Some 0) True demo_done = Some (Some TPOOL_OK, Some (Suc 41), set_task 0 (demo_task 42 TASK_JOINED) demo_done) \<and>
   (\<exists>s'. timed_join_wake 0 False demo_done = Some (J_Joined, s') \<and>
     timed_join_read 0 True s' = Some (J_Returned TPOOL_OK (Some (Suc 41))))"
proof -
  have t: "tasks demo_done 0 = Some (demo_task 42 TASK_DONE)" by (simp add: demo_done_def demo_sys_def)
  have d: "\<not> detachMode (demo_task 42 TASK_DONE)" by (simp add: demo_task_def)
  obtain v s' where run: "thread_task_join (Some 0) True demo_done = Some (Some TPOOL_OK, v, s')"
    using t by (simp add: thread_task_join_def finished_def demo_task_def)
  let ?s' = "set_task 0 (demo_task 42 TASK_JOINED) demo_done"
  have wake: "timed_join_wake 0 False demo_done = Some (J_Joined, ?s')"
    using t by (simp add: timed_join_wake_def timed_join_end_def finished_def demo_task_def)
  have t': "tasks ?s' 0 = Some (demo_task 42 TASK_JOINED)" "finished (demo_task 42 TASK_JOINED)"
    by (simp_all add: set_task_def finished_def demo_task_def)
  note late = mp[OF conjunct2[OF conjunct2[OF tp_join_result[OF demo_done_run t d]]] disjI2[OF wake]]
  have "timed_join_read 0 True ?s' = Some (J_Returned TPOOL_OK (Some (Suc 41)))"
    using conjunct2[OF late, rule_format, OF tp_run.start t'] by (simp add: demo_task_def)
  moreover have "v = Some (Suc 41) \<and> s' = ?s'"
    using mp[OF conjunct1[OF tp_join_result[OF demo_done_run t d]] run] by (simp add: demo_task_def)
  ultimately show ?thesis using run wake by blast
qed

text \<open>
  The late read of a timed join is a race: after its unlock the task is joined, so another client that
  keeps to the header may delete it, and then the read of the result is of a freed task.
\<close>

theorem tp_timed_join_race:
  assumes "tasks s a = Some t" "\<not> detachMode t" "timed_join_wake a timedout s = Some (J_Joined, s1)"
  shows "\<exists>s2. client_moves s1 Silent s2 \<and> thread_task_delete (Some a) s1 = Some (TPOOL_OK, s2) \<and>
    timed_join_read a True s2 = None"
proof -
  let ?t = "t\<lparr>state := TASK_JOINED\<rparr>" and ?s2 = "s1\<lparr>tasks := (tasks s1)(a := None)\<rparr>"
  have s1: "tasks s1 a = Some ?t"
    using assms(1,3) by (auto simp: timed_join_wake_def timed_join_end_def set_task_def split: if_splits)
  then have "thread_task_delete (Some a) s1 = Some (TPOOL_OK, ?s2)"
    by (simp add: thread_task_delete_def free_task_def)
  moreover from client_moves.delete_task[OF s1 _ this] assms(2) have "client_moves s1 Silent ?s2" by simp
  moreover have "timed_join_read a True ?s2 = None" by (simp add: timed_join_read_def)
  ultimately show ?thesis by blast
qed

text \<open>
  A join that does not succeed does nothing, and the outcome tells why: a task never pushed is
  refused; a join waits exactly while the task is queued or executing; a timed join with less than a
  microsecond does not wait but reports the timeout, as does a wait whose deadline has passed.
\<close>

theorem tp_join_waits:
  assumes "tasks s a = Some t"
  shows "(\<not> finished t \<longrightarrow>
      thread_task_join (Some a) out s =
        Some (if state t = TASK_CREATED then Some TPOOL_ERR_TASK_NOT_PUSHED else None, None, s) \<and>
      thread_task_timed_join (Some a) timeout out s =
        Some (if state t = TASK_CREATED then J_Returned TPOOL_ERR_TASK_NOT_PUSHED None
          else if timeout < 1 / 1000000 then J_Returned TPOOL_ERR_TIMEOUT None else J_Waiting, s) \<and>
      timed_join_wake a timedout s = Some (if timedout then J_Returned TPOOL_ERR_TIMEOUT None else J_Waiting, s)) \<and>
    (finished t \<longrightarrow>
      thread_task_join (Some a) out s \<noteq> None \<and> fst (the (thread_task_join (Some a) out s)) = Some TPOOL_OK \<and>
      thread_task_timed_join (Some a) timeout True s =
        Some (J_Returned TPOOL_OK (Some (result t)), snd (snd (the (thread_task_join (Some a) True s)))) \<and>
      timed_join_wake a timedout s = Some (J_Joined, snd (snd (the (thread_task_join (Some a) out s)))))"
  using assms
  by (auto simp: thread_task_join_def thread_task_timed_join_def timed_join_wake_def timed_join_end_def finished_def)

theorem tp_join_waits_witness:
  "thread_task_timed_join (Some 0) 0 True demo_pushed = Some (J_Returned TPOOL_ERR_TIMEOUT None, demo_pushed) \<and>
   thread_task_join (Some 0) True demo_pushed = Some (None, None, demo_pushed)"
proof -
  have "tasks demo_pushed 0 = Some (demo_task 0 TASK_QUEUED)" by (simp add: demo_pushed_def demo_sys_def)
  from tp_join_waits[OF this, of True 0 False] show ?thesis by (simp add: finished_def demo_task_def)
qed

text \<open>
  The deadline of a timed join is the time of day plus the timeout plus a microsecond, rounded down
  to nanoseconds, and its nanoseconds stay between 0 and \<open>10 ^ 9\<close>; that last value, which is no valid
  number of nanoseconds, does come out, because the carry is taken for greater values only.
\<close>

theorem tp_deadline:
  assumes "0 \<le> now_usec" "now_usec < 1000000" "0 \<le> timeout"
  shows "(let (sec, nsec) = deadline now_sec now_usec timeout in
      sec * 1000000000 + nsec = \<lfloor>of_int (now_sec * 1000000000 + now_usec * 1000) + (timeout + 1 / 1000000) * 1000000000\<rfloor> \<and>
      0 \<le> nsec \<and> nsec \<le> 1000000000) \<and>
    snd (deadline now_sec 500000 (499999 / 1000000)) = 1000000000"
proof -
  define x where "x = timeout + 1 / 1000000"
  define k where "k = \<lfloor>x\<rfloor>"
  define f where "f = x - of_int k"
  have f: "0 \<le> f" "f < 1" by (simp_all add: f_def k_def) linarith
  define n where "n = \<lfloor>of_int (now_usec * 1000) + f * 1000000000\<rfloor>"
  have "of_int (now_usec * 1000) \<le> (999999000 :: real)" using assms(2) by linarith
  then have "of_int (now_usec * 1000) + f * 1000000000 < (2000000000 :: real)" using f by linarith
  moreover have "0 \<le> of_int (now_usec * 1000) + f * 1000000000" using assms(1) f by simp
  ultimately have n: "0 \<le> n" "n < 2000000000" unfolding n_def by linarith+
  have "(of_int (now_sec * 1000000000 + now_usec * 1000) + x * 1000000000 :: real) =
      (of_int (now_usec * 1000) + f * 1000000000) + of_int ((now_sec + k) * 1000000000)"
    by (simp add: f_def algebra_simps)
  then have total: "\<lfloor>of_int (now_sec * 1000000000 + now_usec * 1000) + x * 1000000000\<rfloor> = n + (now_sec + k) * 1000000000"
    by (simp only: floor_add_int n_def)
  have d: "deadline now_sec now_usec timeout =
      (if n > 1000000000 then (now_sec + k + 1, n - 1000000000) else (now_sec + k, n))"
    by (simp add: deadline_def Let_def x_def k_def f_def n_def)
  have "snd (deadline now_sec 500000 (499999 / 1000000)) = 1000000000"
    by (simp add: deadline_def Let_def)
  then show ?thesis using n total by (simp add: d x_def[symmetric] algebra_simps)
qed

theorem tp_deadline_witness:
  "(case deadline 5 0 0 of (sec, nsec) \<Rightarrow> 0 \<le> nsec \<and> nsec \<le> 1000000000)"
  using tp_deadline[of 0 0 5] by (simp add: case_prod_unfold Let_def)

subsection \<open>The workers finish\<close>





text \<open>
  Detaching: a task never pushed is refused; a task still queued or executing is marked, and when the
  workers are through it is freed; but a task that is already done is left as it is, neither freed nor marked.
\<close>

theorem tp_detach:
  assumes "tp_run tp_init es s" "tasks s a = Some t" "\<not> detachMode t"
  shows "(state t = TASK_CREATED \<longrightarrow> thread_task_detach (Some a) s = Some (TPOOL_ERR_TASK_NOT_PUSHED, s)) \<and>
    (state t = TASK_DONE \<longrightarrow> thread_task_detach (Some a) s = Some (TPOOL_OK, s)) \<and>
    ((state t = TASK_QUEUED \<or> state t = TASK_EXECUTING) \<longrightarrow>
      (\<exists>s1. thread_task_detach (Some a) s = Some (TPOOL_OK, s1) \<and>
        (pool_free s \<longrightarrow> (\<forall>n s2. (any_worker ^^ n) s1 s2 \<longrightarrow> (\<nexists>u. any_worker s2 u) \<longrightarrow> tasks s2 a = None))))"
proof -
  have ok: "sys_ok s" by (rule reachable_ok[OF assms(1)])
  let ?t = "t\<lparr>detachMode := True\<rparr>" let ?s1 = "set_task a ?t s"
  have "\<exists>s1. thread_task_detach (Some a) s = Some (TPOOL_OK, s1) \<and>
        (pool_free s \<longrightarrow> (\<forall>n s2. (any_worker ^^ n) s1 s2 \<longrightarrow> (\<nexists>u. any_worker s2 u) \<longrightarrow> tasks s2 a = None))"
    if st: "state t = TASK_QUEUED \<or> state t = TASK_EXECUTING"
  proof -
    have run: "thread_task_detach (Some a) s = Some (TPOOL_OK, ?s1)" using st assms(2) by (auto simp: thread_task_detach_def)
    have s1: "sys_ok ?s1" by (rule client_moves_ok[OF client_moves.detach[OF assms(2,3) run] ok])
    have t1: "tasks ?s1 a = Some ?t" by (simp add: set_task_def)
    have "tasks s2 a = None" if free: "pool_free s" and steps: "(any_worker ^^ n) ?s1 s2" and stuck: "\<nexists>u. any_worker s2 u" for n s2
    proof (cases "tasks s2 a")
      case (Some t2)
      have "pool_free ?s1" using free by (simp add: pool_free_def set_task_def)
      then have s2: "sys_ok s2" "pool_free s2" using any_worker_runs[OF s1 steps] by simp_all
      have "evolves ?t (Some t2)" using any_worker_task[OF s1 steps t1] Some by simp
      moreover have "\<not> owned t2" by (rule stuck_tasks[OF s2 stuck Some])
      ultimately show ?thesis using st by (auto simp: evolves_def pushed_state_def owned_def)
    qed
    then show ?thesis using run by blast
  qed
  then show ?thesis using assms(2) by (auto simp: thread_task_detach_def)
qed

theorem tp_detach_witness:
  "thread_task_detach (Some 0) demo_done = Some (TPOOL_OK, demo_done) \<and> tasks demo_done 0 \<noteq> None"
  using tp_detach[OF demo_done_run, of 0 "demo_task 42 TASK_DONE"]
  by (simp add: demo_done_def demo_sys_def demo_task_def)

end
