(* ===== verification/Sort_Text.thy ===== *)
theory Sort_Text imports Prelude begin

text \<open>
  Text files as Assignment_1 uses them: a stream of characters with a position, reading a number with
  \<open>fscanf("%d")\<close>, writing with \<open>fprintf\<close>, and \<open>count_numbers_in_file\<close> of libsort.c.  The laws say when
  a text holds a list of numbers, and that what is printed is read back.
\<close>

subsection \<open>Streams\<close>

text \<open>The characters before the position, and those from it on.\<close>

record stream =
  before :: string
  after :: string

definition tmpfile :: stream where
  "tmpfile = \<lparr>before = [], after = []\<rparr>"

definition contents :: "stream \<Rightarrow> string" where
  "contents f = before f @ after f"

definition rewind :: "stream \<Rightarrow> stream" where
  "rewind f = \<lparr>before = [], after = contents f\<rparr>"

definition fprintf :: "string \<Rightarrow> stream \<Rightarrow> stream" where
  "fprintf s f = \<lparr>before = before f @ s, after = drop (length s) (after f)\<rparr>"

text \<open>\<open>None\<close> is \<open>EOF\<close>.\<close>

definition fgetc :: "stream \<Rightarrow> char option \<times> stream" where
  "fgetc f = (case after f of [] \<Rightarrow> (None, f) | c # cs \<Rightarrow> (Some c, \<lparr>before = before f @ [c], after = cs\<rparr>))"

lemma stream_simps [simp]:
  "before (rewind f) = []" "after (rewind f) = contents f" "contents (rewind f) = contents f"
  "before tmpfile = []" "after tmpfile = []" "rewind (rewind f) = rewind f"
  by (simp_all add: rewind_def contents_def tmpfile_def)

lemma fprintf_simps [simp]:
  "before (fprintf s f) = before f @ s" "after f = [] \<Longrightarrow> after (fprintf s f) = []"
  "after f = [] \<Longrightarrow> contents (fprintf s f) = before f @ s"
  by (simp_all add: fprintf_def contents_def)

subsection \<open>Numbers in text\<close>

definition isspace :: "char \<Rightarrow> bool" where
  "isspace c \<longleftrightarrow> c \<in> {CHR '' '', CHR 0x09, CHR 0x0A, CHR 0x0B, CHR 0x0C, CHR 0x0D}"

definition isdigit :: "char \<Rightarrow> bool" where
  "isdigit c \<longleftrightarrow> 48 \<le> (of_char c :: nat) \<and> (of_char c :: nat) < 58"

definition digit :: "nat \<Rightarrow> char" where
  "digit d = char_of (48 + d)"

definition digits_val :: "string \<Rightarrow> nat" where
  "digits_val ds = foldl (\<lambda>v c. v * 10 + (of_char c - 48)) 0 ds"

text \<open>The values of the C type \<open>int\<close>.\<close>

definition is_int :: "int \<Rightarrow> bool" where
  "is_int x \<longleftrightarrow> - (2 ^ 31) \<le> x \<and> x < 2 ^ 31"

text \<open>
  What \<open>%d\<close> matches: space, a sign, digits.  The result is the value, if there were digits, then
  what was eaten and what is left.
\<close>

definition scan_int :: "string \<Rightarrow> int option \<times> string \<times> string" where
  "scan_int s =
    (let ws = takeWhile isspace s;
       r = dropWhile isspace s;
       sg = (if r \<noteq> [] \<and> (hd r = CHR ''-'' \<or> hd r = CHR ''+'') then [hd r] else []);
       r = drop (length sg) r;
       ds = takeWhile isdigit r
     in (if ds = [] then None else Some ((if sg = ''-'' then - 1 else 1) * int (digits_val ds)),
         ws @ sg @ ds, dropWhile isdigit r))"

text \<open>
  \<open>fscanf(f, "%d", &v)\<close> leaves \<open>v\<close> alone when nothing matches.  A variable that has not been given a value
  yet is \<open>None\<close>.  A number outside the type is undefined behaviour.
\<close>

definition fscanf :: "stream \<Rightarrow> int option \<Rightarrow> (int option \<times> stream) option" where
  "fscanf f v = (case scan_int (after f) of (x, eaten, rest) \<Rightarrow> do {
     ensure (x = None \<or> is_int (the x));
     Some (if x = None then v else x, \<lparr>before = before f @ eaten, after = rest\<rparr>)
   })"

fun show_nat :: "nat \<Rightarrow> string" where
  "show_nat n = (if n < 10 then [digit n] else show_nat (n div 10) @ [digit (n mod 10)])"

declare show_nat.simps [simp del]

definition show_int :: "int \<Rightarrow> string" where
  "show_int x = (if x < 0 then CHR ''-'' # show_nat (nat (- x)) else show_nat (nat x))"

subsection \<open>Printing and scanning\<close>

lemma of_char_digit: "d < 10 \<Longrightarrow> of_char (digit d) = 48 + d"
  by (simp add: digit_def)

lemma isdigit_digit [simp]: "d < 10 \<Longrightarrow> isdigit (digit d)"
  by (simp add: isdigit_def of_char_digit)

lemma show_nat_digits: "c \<in> set (show_nat n) \<Longrightarrow> isdigit c"
proof (induction n rule: show_nat.induct)
  case (1 n)
  then show ?case by (subst (asm) (2) show_nat.simps) (auto split: if_splits)
qed

lemma show_nat_nonempty [simp]: "show_nat n \<noteq> []"
  by (subst show_nat.simps) simp

lemma digits_val_snoc: "digits_val (ds @ [c]) = digits_val ds * 10 + (of_char c - 48)"
  by (simp add: digits_val_def)

lemma digits_val_show [simp]: "digits_val (show_nat n) = n"
proof (induction n rule: show_nat.induct)
  case (1 n)
  show ?case
  proof (cases "n < 10")
    case True
    then show ?thesis by (subst show_nat.simps) (simp add: digits_val_def of_char_digit)
  next
    case False
    then show ?thesis using 1 by (subst show_nat.simps) (simp add: digits_val_snoc of_char_digit)
  qed
qed

lemma digit_not_space: "isdigit c \<Longrightarrow> \<not> isspace c"
  by (auto simp: isdigit_def isspace_def)

lemma digit_not_sign: "isdigit c \<Longrightarrow> c \<noteq> CHR ''-'' \<and> c \<noteq> CHR ''+''"
  by (auto simp: isdigit_def)

lemma minus_not_space: "\<not> isspace (CHR ''-'')" "\<not> isdigit (CHR ''-'')"
  by (simp_all add: isspace_def isdigit_def)

lemma scan_digits:
  assumes "ds \<noteq> []" "\<And>c. c \<in> set ds \<Longrightarrow> isdigit c" "rest = [] \<or> \<not> isdigit (hd rest)"
  shows "takeWhile isdigit (ds @ rest) = ds" "dropWhile isdigit (ds @ rest) = rest"
  using assms by (cases rest; simp add: takeWhile_append2 dropWhile_append2)+

lemma scan_show:
  assumes "rest = [] \<or> \<not> isdigit (hd rest)"
  shows "scan_int (show_int x @ rest) = (Some x, show_int x, rest)"
proof -
  have ds: "takeWhile isdigit (show_nat n @ rest) = show_nat n" "dropWhile isdigit (show_nat n @ rest) = rest" for n
    by (rule scan_digits[OF show_nat_nonempty show_nat_digits assms]; assumption)+
  show ?thesis
  proof (cases "x < 0")
    case True
    then show ?thesis using ds[of "nat (- x)"] by (simp add: scan_int_def show_int_def minus_not_space)
  next
    case False
    obtain c cs where c: "show_nat (nat x) = c # cs" by (cases "show_nat (nat x)") auto
    then have "isdigit c" using show_nat_digits[of c "nat x"] by simp
    then show ?thesis using False ds[of "nat x"] c digits_val_show[of "nat x"]
      by (simp add: scan_int_def show_int_def digit_not_space digit_not_sign Let_def)
  qed
qed

lemma scan_space: "isspace c \<Longrightarrow> scan_int (c # s) = (case scan_int s of (x, e, r) \<Rightarrow> (x, c # e, r))"
  by (simp add: scan_int_def Let_def)

subsection \<open>Texts that hold numbers\<close>

text \<open>The text \<open>s\<close> holds the numbers \<open>xs\<close> and nothing else that matters.\<close>

fun holds :: "int list \<Rightarrow> string \<Rightarrow> bool" where
  "holds [] s \<longleftrightarrow> list_all isspace s"
| "holds (x # xs) s \<longleftrightarrow> (case scan_int s of (v, e, r) \<Rightarrow> v = Some x \<and> is_int x \<and> holds xs r)"

lemma scan_blank: "list_all isspace s \<Longrightarrow> scan_int s = (None, s, [])"
proof -
  assume s: "list_all isspace s"
  have *: "takeWhile isspace s = s" "dropWhile isspace s = []" using s by (auto simp: list_all_iff)
  show ?thesis unfolding scan_int_def Let_def * by simp
qed

lemma scan_int_parts: "scan_int s = (x, e, r) \<Longrightarrow> e @ r = s"
proof -
  assume scan: "scan_int s = (x, e, r)"
  let ?r = "dropWhile isspace s"
  define sg where "sg = (if ?r \<noteq> [] \<and> (hd ?r = CHR ''-'' \<or> hd ?r = CHR ''+'') then [hd ?r] else [])"
  have "sg @ drop (length sg) ?r = ?r" by (cases ?r) (simp_all add: sg_def)
  moreover have "e = takeWhile isspace s @ sg @ takeWhile isdigit (drop (length sg) ?r)"
    "r = dropWhile isdigit (drop (length sg) ?r)"
    using scan by (simp_all add: scan_int_def Let_def sg_def)
  ultimately show ?thesis by (metis append.assoc takeWhile_dropWhile_id)
qed

lemma holds_int: "holds xs s \<Longrightarrow> x \<in> set xs \<Longrightarrow> is_int x"
  by (induction xs arbitrary: s) (auto split: prod.splits)

text \<open>The next value of a variable that is read from a text that holds \<open>xs\<close>.\<close>

definition scanned :: "int option \<Rightarrow> int list \<Rightarrow> int option" where
  "scanned v xs = (case xs of [] \<Rightarrow> v | x # _ \<Rightarrow> Some x)"

lemma scanned_simps [simp]: "scanned v [] = v" "scanned v (x # xs) = Some x"
  by (simp_all add: scanned_def)

lemma fscanf_holds:
  assumes "holds xs (after f)"
  obtains f' where "fscanf f v = Some (scanned v xs, f')" "holds (tl xs) (after f')" "contents f' = contents f"
proof -
  obtain x e r where scan: "scan_int (after f) = (x, e, r)" by (cases "scan_int (after f)")
  let ?f = "\<lparr>before = before f @ e, after = r\<rparr>"
  have cont: "contents ?f = contents f" using scan_int_parts[OF scan] by (simp add: contents_def)
  show thesis
  proof (cases xs)
    case Nil
    then have "scan_int (after f) = (None, after f, [])" using assms scan_blank by simp
    then show thesis using that[of ?f] cont Nil scan by (simp add: fscanf_def)
  next
    case (Cons y ys)
    then show thesis using that[of ?f] cont scan assms by (simp add: fscanf_def)
  qed
qed

fun print_nums :: "int list \<Rightarrow> string" where
  "print_nums [] = []"
| "print_nums [x] = show_int x"
| "print_nums (x # y # xs) = show_int x @ '' '' @ print_nums (y # xs)"

lemma print_nums_Cons: "xs \<noteq> [] \<Longrightarrow> print_nums (x # xs) = show_int x @ '' '' @ print_nums xs"
  by (cases xs) simp_all

lemma holds_skip: "isspace c \<Longrightarrow> holds xs (c # s) = holds xs s"
  by (cases xs) (simp_all add: scan_space split: prod.splits)

lemma holds_print:
  assumes "list_all is_int xs"
  shows "holds xs (print_nums xs)"
  using assms
proof (induction xs rule: print_nums.induct)
  case (2 x)
  then show ?case using scan_show[of "[]" x] by simp
next
  case (3 x y xs)
  have "scan_int (show_int x @ '' '' @ print_nums (y # xs)) = (Some x, show_int x, '' '' @ print_nums (y # xs))"
    by (rule scan_show) (simp add: isdigit_def)
  moreover have "holds (y # xs) ('' '' @ print_nums (y # xs))" using 3 holds_skip[of "CHR '' ''" "y # xs"]
    by (simp only: append_Cons append_Nil isspace_def) simp
  ultimately show ?case using 3(2) by (simp del: holds.simps(2) add: holds.simps(2)[of x])
qed simp

end
