(* ===== verification/Sort_Merge.thy ===== *)
theory Sort_Merge imports Sort_Text begin

text \<open>
  Counting, copying and merging files of numbers: \<open>count_numbers_in_file\<close>, \<open>transfer_numbers\<close>,
  \<open>print_numbers\<close> and \<open>merge_files\<close> of Assignment_1/src/libsort.c.  The library's \<open>printf\<close> is
  defined away by the code.
\<close>

subsection \<open>Counting\<close>

text \<open>
  The character is kept in a signed \<open>char\<close>, so that the byte \<open>0xFF\<close> is taken for \<open>EOF\<close> too.
\<close>

definition is_EOF :: "char option \<Rightarrow> bool" where
  "is_EOF c \<longleftrightarrow> c = None \<or> c = Some (CHR 0xFF)"

definition ends_number :: "char option \<Rightarrow> bool" where
  "ends_number c \<longleftrightarrow> c = Some (CHR '' '') \<or> c = Some (CHR 0x0A) \<or> c = Some (CHR 0x00) \<or> is_EOF c"

function count_loop :: "stream \<Rightarrow> nat \<Rightarrow> nat \<times> stream" where
  "count_loop f n =
    (let (c, f') = fgetc f;
       n' = (if ends_number c then n + 1 else n)
     in if is_EOF c then (n', f') else count_loop f' n')"
  by auto
termination
  by (relation "measure (\<lambda>(f, n). length (after f))")
    (auto simp: fgetc_def is_EOF_def split: list.splits)

definition count_numbers_in_file :: "stream \<Rightarrow> nat \<times> stream" where
  "count_numbers_in_file f = (let (n, f) = count_loop f 0 in (n, rewind f))"

declare count_loop.simps [simp del]

lemma count_loop_text:
  "CHR 0xFF \<notin> set (after f) \<Longrightarrow>
   count_loop f n = (n + count_if (\<lambda>c. ends_number (Some c)) (after f) + 1, \<lparr>before = contents f, after = []\<rparr>)"
proof (induction "after f" arbitrary: f n)
  case Nil
  then show ?case
    by (subst count_loop.simps) (simp add: fgetc_def is_EOF_def ends_number_def contents_def)
next
  case (Cons c cs)
  let ?f = "\<lparr>before = before f @ [c], after = cs\<rparr>"
  have g: "fgetc f = (Some c, ?f)" unfolding fgetc_def Cons.hyps(2)[symmetric] by simp
  have c: "\<not> is_EOF (Some c)" using Cons.prems by (auto simp: is_EOF_def Cons.hyps(2)[symmetric])
  have "CHR 0xFF \<notin> set (after ?f)" using Cons.hyps(2) Cons.prems by (metis list.set_intros(2) stream.select_convs(2))
  from Cons.hyps(1)[of ?f, OF _ this] show ?case
    using g c Cons.hyps(2)[symmetric] by (subst count_loop.simps) (simp add: contents_def)
qed

text \<open>The number of numbers that the function finds in a text.\<close>

definition number_count :: "string \<Rightarrow> nat" where
  "number_count s = count_if (\<lambda>c. ends_number (Some c)) s + 1"

lemma count_numbers_text:
  "CHR 0xFF \<notin> set (contents f) \<Longrightarrow> before f = [] \<Longrightarrow>
   count_numbers_in_file f = (number_count (contents f), rewind f)"
  by (simp add: count_numbers_in_file_def count_loop_text contents_def number_count_def rewind_def)

lemma digits_no_end: "isdigit c \<Longrightarrow> \<not> ends_number (Some c) \<and> c \<noteq> CHR 0xFF"
  by (auto simp: isdigit_def ends_number_def is_EOF_def)

lemma show_int_chars: "c \<in> set (show_int x) \<Longrightarrow> \<not> ends_number (Some c) \<and> c \<noteq> CHR 0xFF"
  using digits_no_end show_nat_digits by (auto simp: show_int_def ends_number_def is_EOF_def split: if_splits)

lemma filter_show_int [simp]: "filter (\<lambda>c. ends_number (Some c)) (show_int x) = []"
  using show_int_chars by (auto simp: filter_empty_conv)

lemma ends_number_space [simp]: "ends_number (Some (CHR '' ''))" "ends_number (Some (CHR 0x0A))"
  by (simp_all add: ends_number_def)

lemma number_count_print: "xs \<noteq> [] \<Longrightarrow> number_count (print_nums xs) = length xs"
  by (induction xs rule: print_nums.induct) (simp_all add: number_count_def)

lemma print_nums_chars: "CHR 0xFF \<notin> set (print_nums xs)"
  using show_int_chars by (induction xs rule: print_nums.induct) auto

subsection \<open>Copying\<close>

primrec transfer_loop :: "nat \<Rightarrow> stream \<Rightarrow> stream \<Rightarrow> int option \<Rightarrow> (stream \<times> stream \<times> int option) option" where
  "transfer_loop 0 src dst tmp = Some (src, dst, tmp)"
| "transfer_loop (Suc n) src dst tmp = do {
     (tmp, src) \<leftarrow> fscanf src tmp;
     v \<leftarrow> tmp;
     transfer_loop n src (fprintf (show_int v @ '' '') dst) tmp
   }"

text \<open>With a length of 0 the loop would run to the greatest \<open>size_t\<close>; this is left undefined.\<close>

definition transfer_numbers :: "stream \<Rightarrow> stream \<Rightarrow> nat \<Rightarrow> (stream \<times> stream) option" where
  "transfer_numbers src dst len = do {
     ensure (0 < len);
     (src, dst, tmp) \<leftarrow> transfer_loop (len - 1) src dst None;
     (tmp, src) \<leftarrow> fscanf src tmp;
     v \<leftarrow> tmp;
     Some (src, fprintf (show_int v) dst)
   }"

primrec print_loop :: "nat \<Rightarrow> stream \<Rightarrow> int option \<Rightarrow> stream option" where
  "print_loop 0 f tmp = Some f"
| "print_loop (Suc n) f tmp = do { (tmp, f) \<leftarrow> fscanf f tmp; print_loop n f tmp }"

definition print_numbers :: "stream \<Rightarrow> nat \<Rightarrow> stream option" where
  "print_numbers f len = print_loop len f None"

lemma print_numbers_ok:
  assumes "holds xs (after f)"
  obtains f' where "print_numbers f n = Some f'" "contents f' = contents f"
proof -
  have "holds xs (after f) \<Longrightarrow> \<exists>f'. print_loop n f v = Some f' \<and> contents f' = contents f" for v
  proof (induction n arbitrary: f xs v)
    case (Suc n)
    then obtain f1 where "fscanf f v = Some (scanned v xs, f1)" "holds (tl xs) (after f1)" "contents f1 = contents f"
      by (rule_tac fscanf_holds)
    then show ?case using Suc.IH[of "tl xs" f1 "scanned v xs"] by simp
  qed simp
  then show thesis using assms that unfolding print_numbers_def by blast
qed

text \<open>A printed list with a space after each number.\<close>

definition print_open :: "int list \<Rightarrow> string" where
  "print_open xs = concat (map (\<lambda>x. show_int x @ '' '') xs)"

lemma print_open_simps [simp]:
  "print_open [] = []" "print_open (xs @ ys) = print_open xs @ print_open ys" "print_open [x] = show_int x @ '' ''"
  by (simp_all add: print_open_def)

lemma print_open_last: "print_open xs @ show_int x = print_nums (xs @ [x])"
  by (induction xs) (simp_all add: print_open_def print_nums_Cons)

lemma transfer_loop_ok:
  assumes "holds (xs @ ys) (after src)" "after dst = []"
  obtains src' dst' v where "transfer_loop (length xs) src dst tmp = Some (src', dst', v)"
    "holds ys (after src')" "contents src' = contents src" "before dst' = before dst @ print_open xs" "after dst' = []"
proof -
  have "holds (xs @ ys) (after src) \<Longrightarrow> after dst = [] \<Longrightarrow>
      \<exists>src' dst' v. transfer_loop (length xs) src dst tmp = Some (src', dst', v) \<and>
      holds ys (after src') \<and> contents src' = contents src \<and> before dst' = before dst @ print_open xs \<and> after dst' = []"
  proof (induction xs arbitrary: src dst tmp)
    case (Cons x xs)
    from Cons.prems(1) obtain f1 where
      f1: "fscanf src tmp = Some (Some x, f1)" "holds (xs @ ys) (after f1)" "contents f1 = contents src"
      by (rule fscanf_holds[of "(x # xs) @ ys" src tmp]) simp_all
    have "after (fprintf (show_int x @ '' '') dst) = []" using Cons.prems(2) by simp
    from Cons.IH[OF f1(2) this, of "Some x"] f1 show ?case by (auto simp: print_open_def)
  qed simp
  then show thesis using assms that by blast
qed

lemma transfer_numbers_ok:
  assumes "holds (xs @ ys) (after src)" "xs \<noteq> []" "dst = tmpfile"
  obtains src' dst' where "transfer_numbers src dst (length xs) = Some (src', dst')"
    "holds ys (after src')" "contents src' = contents src" "contents dst' = print_nums xs"
proof -
  obtain as x where xs: "xs = as @ [x]" using assms(2) by (cases xs rule: rev_cases) auto
  have "after dst = []" using assms(3) by simp
  obtain src1 dst1 v where 1: "transfer_loop (length as) src dst None = Some (src1, dst1, v)"
    "holds (x # ys) (after src1)" "contents src1 = contents src" "before dst1 = print_open as" "after dst1 = []"
    by (rule transfer_loop_ok[of as "x # ys" src dst None]) (use assms xs in auto)
  obtain src2 where "fscanf src1 v = Some (Some x, src2)" "holds ys (after src2)" "contents src2 = contents src1"
    by (rule fscanf_holds[OF 1(2), of v]) simp
  then show thesis using 1 xs that[of src2 "fprintf (show_int x) dst1"]
    by (simp add: transfer_numbers_def print_open_last)
qed

subsection \<open>Merging\<close>

text \<open>The loop's choice of the next number to print: one file, its number and its count move on.\<close>

record side =
  src :: stream
  num :: "int option"
  cnt :: nat

definition take_num :: "side \<Rightarrow> (int \<times> side) option" where
  "take_num s = do {
     to_print \<leftarrow> num s;
     (v, f) \<leftarrow> fscanf (src s) (num s);
     Some (to_print, \<lparr>src = f, num = v, cnt = cnt s + 1\<rparr>)
   }"

definition merge_pick :: "nat \<Rightarrow> nat \<Rightarrow> side \<Rightarrow> side \<Rightarrow> (int \<times> side \<times> side) option" where
  "merge_pick left_len right_len l r =
    (if cnt l = left_len \<and> cnt r < right_len then do { (x, r) \<leftarrow> take_num r; Some (x, l, r) }
     else if cnt r = right_len \<and> cnt l < left_len then do { (x, l) \<leftarrow> take_num l; Some (x, l, r) }
     else do {
       left_num \<leftarrow> num l;
       right_num \<leftarrow> num r;
       if left_num \<le> right_num \<and> cnt l < left_len then do { (x, l) \<leftarrow> take_num l; Some (x, l, r) }
       else if left_num > right_num \<and> cnt r < right_len then do { (x, r) \<leftarrow> take_num r; Some (x, l, r) }
       else Some (0, l, r)
     })"

partial_function (option) merge_loop :: "nat \<Rightarrow> nat \<Rightarrow> side \<Rightarrow> side \<Rightarrow> stream \<Rightarrow> stream option" where
  "merge_loop left_len right_len l r output =
    (if cnt l < left_len \<or> cnt r < right_len then do {
       (to_print, l, r) \<leftarrow> merge_pick left_len right_len l r;
       merge_loop left_len right_len l r
         (fprintf (show_int to_print @ (if cnt l = left_len \<and> cnt r = right_len then [] else '' '')) output)
     } else Some output)"

text \<open>\<open>None\<close> is a NULL file.\<close>

definition merge_files :: "stream option \<Rightarrow> stream option \<Rightarrow> nat \<Rightarrow> nat \<Rightarrow> stream option" where
  "merge_files file_left file_right left_len right_len = (case (file_left, file_right) of
     (None, None) \<Rightarrow> Some (rewind tmpfile)
   | (None, Some right) \<Rightarrow> do {
       right \<leftarrow> print_numbers right right_len;
       (_, output) \<leftarrow> transfer_numbers (rewind right) tmpfile right_len;
       Some (rewind output)
     }
   | (Some left, None) \<Rightarrow> do {
       left \<leftarrow> print_numbers left left_len;
       (_, output) \<leftarrow> transfer_numbers (rewind left) tmpfile left_len;
       Some (rewind output)
     }
   | (Some left, Some right) \<Rightarrow> do {
       left \<leftarrow> print_numbers left left_len;
       right \<leftarrow> print_numbers right right_len;
       (left_num, left) \<leftarrow> fscanf (rewind left) None;
       (right_num, right) \<leftarrow> fscanf (rewind right) None;
       output \<leftarrow> merge_loop left_len right_len \<lparr>src = left, num = left_num, cnt = 0\<rparr>
         \<lparr>src = right, num = right_num, cnt = 0\<rparr> tmpfile;
       Some (rewind output)
     })"

definition calculate_left_interval :: "nat \<Rightarrow> nat \<Rightarrow> nat \<Rightarrow> nat" where
  "calculate_left_interval start mid end' = mid - start + 1"

definition calculate_right_interval :: "nat \<Rightarrow> nat \<Rightarrow> nat \<Rightarrow> nat" where
  "calculate_right_interval start mid end' = end' - mid"

definition merge :: "stream option \<Rightarrow> stream option \<Rightarrow> nat \<Rightarrow> nat \<Rightarrow> nat \<Rightarrow> stream option" where
  "merge file_left file_right start mid end' =
    (let left_len = calculate_left_interval start mid end';
       right_len = calculate_right_interval start mid end'
     in merge_files file_left file_right left_len right_len)"

subsection \<open>The merge as a function on lists\<close>

fun merge_lists :: "int list \<Rightarrow> int list \<Rightarrow> int list" where
  "merge_lists [] ys = ys"
| "merge_lists xs [] = xs"
| "merge_lists (x # xs) (y # ys) = (if x \<le> y then x # merge_lists xs (y # ys) else y # merge_lists (x # xs) ys)"

lemma merge_lists_Nil [simp]: "merge_lists xs [] = xs"
  by (cases xs) simp_all

lemma mset_merge_lists [simp]: "mset (merge_lists xs ys) = mset xs + mset ys"
  by (induction xs ys rule: merge_lists.induct) (simp_all add: ac_simps)

lemma set_merge_lists [simp]: "set (merge_lists xs ys) = set xs \<union> set ys"
  by (metis mset_merge_lists set_mset_mset set_mset_union)

lemma length_merge_lists [simp]: "length (merge_lists xs ys) = length xs + length ys"
  by (metis mset_merge_lists size_mset size_union)

lemma sorted_merge_lists: "sorted xs \<Longrightarrow> sorted ys \<Longrightarrow> sorted (merge_lists xs ys)"
  by (induction xs ys rule: merge_lists.induct) (auto simp: not_le intro: order_trans less_imp_le)

text \<open>
  A side of the loop stands for the numbers it still has to deliver: the file may run out before the count
  does, and then the last number is delivered again.
\<close>

fun pads :: "int option \<Rightarrow> int list \<Rightarrow> nat \<Rightarrow> int list" where
  "pads v xs 0 = []"
| "pads v xs (Suc n) = the v # pads (scanned v xs) (tl xs) n"

definition side_ok :: "int list \<Rightarrow> nat \<Rightarrow> side \<Rightarrow> bool" where
  "side_ok zs len s \<longleftrightarrow> cnt s \<le> len \<and> (\<exists>xs. holds xs (after (src s)) \<and> zs = pads (num s) xs (len - cnt s)) \<and>
     (cnt s < len \<longrightarrow> num s \<noteq> None)"

lemma side_ok_take:
  assumes "side_ok zs len s" "cnt s < len"
  obtains x zs' s' where "take_num s = Some (x, s')" "zs = x # zs'" "side_ok zs' len s'" "cnt s' = cnt s + 1" "num s = Some x"
proof -
  from assms obtain xs x where xs: "holds xs (after (src s))" "zs = pads (Some x) xs (len - cnt s)" "num s = Some x"
    by (auto simp: side_ok_def)
  obtain f where f: "fscanf (src s) (Some x) = Some (scanned (Some x) xs, f)" "holds (tl xs) (after f)"
    by (rule fscanf_holds[OF xs(1)]) blast
  obtain n where n: "len - cnt s = Suc n" "len - Suc (cnt s) = n" using assms(2) by (metis Suc_diff_Suc)
  have "side_ok (pads (scanned (Some x) xs) (tl xs) n) len \<lparr>src = f, num = scanned (Some x) xs, cnt = cnt s + 1\<rparr>"
    using f(2) n assms(2) by (cases xs) (auto simp: side_ok_def intro!: exI[of _ "tl xs"])
  then show thesis using that f xs n by (simp add: take_num_def)
qed

lemma side_ok_done: "side_ok zs len s \<Longrightarrow> cnt s = len \<longleftrightarrow> zs = []"
  by (cases "len - cnt s") (auto simp: side_ok_def)

lemma merge_pick_ok:
  assumes l: "side_ok xs left_len l" and r: "side_ok ys right_len r" and some: "xs \<noteq> [] \<or> ys \<noteq> []"
  shows "\<exists>z xs' ys' l' r'. merge_pick left_len right_len l r = Some (z, l', r') \<and>
    merge_lists xs ys = z # merge_lists xs' ys' \<and> side_ok xs' left_len l' \<and> side_ok ys' right_len r' \<and>
    length xs' + length ys' < length xs + length ys"
proof -
  have cl: "cnt l = left_len \<longleftrightarrow> xs = []" "cnt l < left_len \<longleftrightarrow> xs \<noteq> []"
    using side_ok_done[OF l] l by (auto simp: side_ok_def)
  have cr: "cnt r = right_len \<longleftrightarrow> ys = []" "cnt r < right_len \<longleftrightarrow> ys \<noteq> []"
    using side_ok_done[OF r] r by (auto simp: side_ok_def)
  have left: "\<exists>x zs s'. take_num l = Some (x, s') \<and> xs = x # zs \<and> side_ok zs left_len s' \<and> num l = Some x" if "xs \<noteq> []"
    by (rule side_ok_take[OF l]) (use that cl in auto)
  have right: "\<exists>y zs s'. take_num r = Some (y, s') \<and> ys = y # zs \<and> side_ok zs right_len s' \<and> num r = Some y" if "ys \<noteq> []"
    by (rule side_ok_take[OF r]) (use that cr in auto)
  show ?thesis
  proof (cases "xs = []")
    case True
    with some right obtain y zs s' where
      "take_num r = Some (y, s')" "ys = y # zs" "side_ok zs right_len s'" by blast
    then show ?thesis using True cl cr l
      by (intro exI[of _ y] exI[of _ xs] exI[of _ zs] exI[of _ l] exI[of _ s']) (simp add: merge_pick_def)
  next
    case nonempty: False
    with left obtain x zs s' where
      x: "take_num l = Some (x, s')" "xs = x # zs" "side_ok zs left_len s'" "num l = Some x" by blast
    show ?thesis
    proof (cases "ys = []")
      case True
      then show ?thesis using x cl cr r
        by (intro exI[of _ x] exI[of _ zs] exI[of _ ys] exI[of _ s'] exI[of _ r]) (simp add: merge_pick_def)
    next
      case False
      with right obtain y us r' where
        y: "take_num r = Some (y, r')" "ys = y # us" "side_ok us right_len r'" "num r = Some y" by blast
      show ?thesis
      proof (cases "x \<le> y")
        case True
        then show ?thesis using x y cl cr r
          by (intro exI[of _ x] exI[of _ zs] exI[of _ ys] exI[of _ s'] exI[of _ r]) (simp add: merge_pick_def)
      next
        case False
        then show ?thesis using x y cl cr l
          by (intro exI[of _ y] exI[of _ xs] exI[of _ us] exI[of _ l] exI[of _ r']) (simp add: merge_pick_def)
      qed
    qed
  qed
qed

text \<open>The loop returns and prints the merge of what the two sides deliver.\<close>

lemma merge_loop_ok:
  "side_ok xs left_len l \<Longrightarrow> side_ok ys right_len r \<Longrightarrow> after outp = [] \<Longrightarrow> xs \<noteq> [] \<or> ys \<noteq> [] \<Longrightarrow>
   \<exists>out. merge_loop left_len right_len l r outp = Some out \<and>
     contents out = before outp @ print_nums (merge_lists xs ys)"
proof (induction "length xs + length ys" arbitrary: xs ys l r outp rule: less_induct)
  case less
  from merge_pick_ok[OF less.prems(1,2,4)] obtain z xs' ys' l' r' where
    pick: "merge_pick left_len right_len l r = Some (z, l', r')" and z: "merge_lists xs ys = z # merge_lists xs' ys'"
    and s: "side_ok xs' left_len l'" "side_ok ys' right_len r'" and less': "length xs' + length ys' < length xs + length ys"
    by blast
  have go: "cnt l < left_len \<or> cnt r < right_len"
    using less.prems side_ok_done[OF less.prems(1)] side_ok_done[OF less.prems(2)] by (auto simp: side_ok_def)
  have fin: "cnt l' = left_len \<and> cnt r' = right_len \<longleftrightarrow> xs' = [] \<and> ys' = []"
    using side_ok_done[OF s(1)] side_ok_done[OF s(2)] by simp
  show ?case
  proof (cases "xs' = [] \<and> ys' = []")
    case True
    let ?out = "fprintf (show_int z) outp"
    have end_loop: "merge_loop left_len right_len l' r' ?out = Some ?out"
      using fin True by (subst merge_loop.simps) simp
    have "merge_loop left_len right_len l r outp = Some ?out"
      using go pick fin True end_loop by (subst merge_loop.simps) simp
    then show ?thesis using z True less.prems(3) by simp
  next
    case False
    let ?out = "fprintf (show_int z @ '' '') outp"
    have "after ?out = []" using less.prems(3) by simp
    from less.hyps[OF less' s this] False obtain out where
      out: "merge_loop left_len right_len l' r' ?out = Some out"
      "contents out = before ?out @ print_nums (merge_lists xs' ys')" by blast
    have "merge_loop left_len right_len l r outp = merge_loop left_len right_len l' r' ?out"
      by (subst merge_loop.simps) (use go pick fin False in auto)
    moreover have "merge_lists xs' ys' \<noteq> []" using False by (metis length_0_conv length_merge_lists add_is_0)
    ultimately show ?thesis using out z by (simp add: print_nums_Cons)
  qed
qed

text \<open>Cutting a list to a length, or repeating its last element up to it.\<close>

definition padded :: "nat \<Rightarrow> int list \<Rightarrow> int list" where
  "padded n xs = take n xs @ replicate (n - length xs) (List.last xs)"

lemma pads_padded: "pads (Some x) xs n = padded n (x # xs)"
proof (induction n arbitrary: x xs)
  case (Suc n)
  show ?case
  proof (cases xs)
    case Nil
    then show ?thesis using Suc[of x "[]"] by (cases n) (simp_all add: padded_def)
  next
    case (Cons y ys)
    then show ?thesis using Suc[of y ys] by (simp add: padded_def)
  qed
qed (simp add: padded_def)

lemma padded_exact [simp]: "length xs = n \<Longrightarrow> padded n xs = xs"
  by (simp add: padded_def)

lemma length_padded [simp]: "length (padded n xs) = n"
  by (simp add: padded_def)

lemma set_padded: "xs \<noteq> [] \<Longrightarrow> set (padded n xs) \<subseteq> set xs"
  by (auto simp: padded_def dest: in_set_takeD)

lemma sorted_padded: "xs \<noteq> [] \<Longrightarrow> sorted xs \<Longrightarrow> sorted (padded n xs)"
proof (cases "length xs \<le> n")
  case True
  assume xs: "xs \<noteq> []" "sorted xs"
  then have "\<forall>x \<in> set xs. x \<le> List.last xs" by (induction xs) auto
  then show ?thesis using True xs(2) by (auto simp: padded_def sorted_append)
next
  case False
  assume "sorted xs"
  then show ?thesis using False by (simp add: padded_def sorted_wrt_take)
qed

lemma merge_files_ok:
  assumes "holds xs (contents f)" "holds ys (contents g)" "xs \<noteq> [] \<or> m = 0" "ys \<noteq> [] \<or> n = 0" "0 < m + n"
    and pos: "before f = []" "before g = []"
  obtains out where "merge_files (Some f) (Some g) m n = Some (rewind out)"
    "contents out = print_nums (merge_lists (padded m xs) (padded n ys))"
proof -
  have fg: "holds xs (after f)" "holds ys (after g)" using assms(1,2) pos by (simp_all add: contents_def)
  obtain f1 where f1: "print_numbers f m = Some f1" "contents f1 = contents f" by (rule print_numbers_ok[OF fg(1)])
  obtain g1 where g1: "print_numbers g n = Some g1" "contents g1 = contents g" by (rule print_numbers_ok[OF fg(2)])
  have side: "\<exists>h. fscanf (rewind k) None = Some (scanned None zs, h) \<and>
      side_ok (padded len zs) len \<lparr>src = h, num = scanned None zs, cnt = 0\<rparr>"
    if zs: "holds zs (contents k)" "zs \<noteq> [] \<or> len = 0" for k zs len
  proof -
    obtain h where h: "fscanf (rewind k) None = Some (scanned None zs, h)" "holds (tl zs) (after h)"
      by (rule fscanf_holds[of zs "rewind k" None]) (use zs(1) in simp_all)
    then show ?thesis using zs(2)
      by (cases zs) (auto simp: side_ok_def pads_padded intro!: exI[of _ "tl zs"])
  qed
  from side[of xs f1 m] side[of ys g1 n] assms f1 g1 obtain f2 g2 where
    f2: "fscanf (rewind f1) None = Some (scanned None xs, f2)" "side_ok (padded m xs) m \<lparr>src = f2, num = scanned None xs, cnt = 0\<rparr>"
    and g2: "fscanf (rewind g1) None = Some (scanned None ys, g2)" "side_ok (padded n ys) n \<lparr>src = g2, num = scanned None ys, cnt = 0\<rparr>"
    by auto
  have "padded m xs \<noteq> [] \<or> padded n ys \<noteq> []" using assms(5) by (metis length_0_conv length_padded add_is_0 less_irrefl)
  from merge_loop_ok[OF f2(2) g2(2) _ this, of tmpfile] obtain out where
    "merge_loop m n \<lparr>src = f2, num = scanned None xs, cnt = 0\<rparr> \<lparr>src = g2, num = scanned None ys, cnt = 0\<rparr> tmpfile = Some out"
    "contents out = print_nums (merge_lists (padded m xs) (padded n ys))" by auto
  then show thesis using that f1 g1 f2(1) g2(1) by (simp add: merge_files_def)
qed

end
