(* ===== verification/Sort_Quick.thy ===== *)
theory Sort_Quick imports Prelude begin

text \<open>
  The quick sort of Assignment_1/src/libsort.c over an array in memory, with the \<open>YIELD\<close> macro that
  accounts for time and gives way to the other coroutines, and its correctness.
\<close>

subsection \<open>Giving way\<close>

text \<open>
  The globals of libsort.c and the counter that \<open>ctx_switch_count\<close> points to.  \<open>clock_reads\<close> numbers
  the readings of the clock.
\<close>

record sort_state =
  trace_id :: nat
  last_yield_time :: "64 word list"
  sum_exec_time :: "64 word list"
  target_latency :: "64 word"
  ctx_switch_count :: "64 word"
  clock_reads :: nat

text \<open>
  What is outside: the readings of the monotonic clock in seconds and nanoseconds, and what the other coroutines do to the globals
  between a \<open>coro_yield\<close> and its return.
\<close>

record environment =
  clock :: "nat \<Rightarrow> 64 word \<times> 64 word"
  coro_yield :: "sort_state \<Rightarrow> sort_state"

abbreviation (input) MAX_SORTING_PROCESSES :: nat where "MAX_SORTING_PROCESSES \<equiv> 10000"

definition microsec :: "64 word \<times> 64 word \<Rightarrow> 64 word" where
  "microsec time = (let (tv_sec, tv_nsec) = time; result = 0; result = result + tv_nsec div 1000
     in result + tv_sec * 1000000)"

definition get_time_in_microsec :: "environment \<Rightarrow> sort_state \<Rightarrow> 64 word \<times> sort_state" where
  "get_time_in_microsec env s = (microsec (clock env (clock_reads s)), s\<lparr>clock_reads := clock_reads s + 1\<rparr>)"

text \<open>
  The macro takes \<open>trace_id\<close> from the scope it is used in, and evaluates it three times: in all functions but one
  it is their parameter; in \<open>sort_file\<close> it is the global variable, which other coroutines raise during the \<open>coro_yield\<close>.
\<close>

definition YIELD_in :: "environment \<Rightarrow> (sort_state \<Rightarrow> nat) \<Rightarrow> sort_state \<Rightarrow> sort_state option" where
  "YIELD_in env tr s = (let (now, s) = get_time_in_microsec env s in do {
     last_time \<leftarrow> slot (last_yield_time s) (tr s);
     let exec_time = now - last_time;
     if exec_time > target_latency s then do {
       let s = s\<lparr>ctx_switch_count := ctx_switch_count s + 1\<rparr>;
       sum_time \<leftarrow> slot (sum_exec_time s) (tr s);
       let s = s\<lparr>sum_exec_time := (sum_exec_time s)[tr s := sum_time + exec_time]\<rparr>;
       let s = coro_yield env s;
       let (now, s) = get_time_in_microsec env s;
       ensure (tr s < length (last_yield_time s));
       Some (s\<lparr>last_yield_time := (last_yield_time s)[tr s := now]\<rparr>)
     } else Some s
   })"

definition YIELD :: "environment \<Rightarrow> nat \<Rightarrow> sort_state \<Rightarrow> sort_state option" where
  "YIELD env i = YIELD_in env (\<lambda>s. i)"

definition YIELD_global :: "environment \<Rightarrow> sort_state \<Rightarrow> sort_state option" where
  "YIELD_global env = YIELD_in env trace_id"

text \<open>The sizes of the two arrays never change.\<close>

definition arrays_ok :: "sort_state \<Rightarrow> bool" where
  "arrays_ok s \<longleftrightarrow> length (last_yield_time s) = MAX_SORTING_PROCESSES \<and> length (sum_exec_time s) = MAX_SORTING_PROCESSES"

definition keeps_arrays :: "environment \<Rightarrow> bool" where
  "keeps_arrays env \<longleftrightarrow> (\<forall>s. arrays_ok s \<longrightarrow> arrays_ok (coro_yield env s))"

text \<open>While a coroutine is away, the others start no sort beyond the \<open>n\<close>-th one.\<close>

definition traces_below :: "environment \<Rightarrow> nat \<Rightarrow> bool" where
  "traces_below env n \<longleftrightarrow> (\<forall>s. trace_id s \<le> n \<longrightarrow> trace_id (coro_yield env s) \<le> n)"

lemma arrays_ok_update [simp]:
  "arrays_ok (s\<lparr>clock_reads := n\<rparr>) = arrays_ok s" "arrays_ok (s\<lparr>ctx_switch_count := w\<rparr>) = arrays_ok s"
  "arrays_ok (s\<lparr>last_yield_time := (last_yield_time s)[i := w]\<rparr>) = arrays_ok s"
  "arrays_ok (s\<lparr>sum_exec_time := (sum_exec_time s)[i := w]\<rparr>) = arrays_ok s"
  "arrays_ok (s\<lparr>trace_id := k\<rparr>) = arrays_ok s" "arrays_ok (s\<lparr>target_latency := w\<rparr>) = arrays_ok s"
  by (simp_all add: arrays_ok_def)

text \<open>The index stays the same under everything but the others' work, during which it stays within the arrays.\<close>

lemma YIELD_in_ok:
  assumes "keeps_arrays env" "arrays_ok s" "tr s < MAX_SORTING_PROCESSES"
    and tr_same: "\<And>s n w xs ys. tr (s\<lparr>clock_reads := n\<rparr>) = tr s \<and> tr (s\<lparr>ctx_switch_count := w\<rparr>) = tr s \<and> tr (s\<lparr>sum_exec_time := xs\<rparr>) = tr s"
    and away: "\<And>t. tr t = tr s \<Longrightarrow> tr (coro_yield env t) < MAX_SORTING_PROCESSES"
  obtains s' where "YIELD_in env tr s = Some s'" "arrays_ok s'"
proof -
  have len: "i < length (last_yield_time t) \<and> i < length (sum_exec_time t)" if "arrays_ok t" "i < MAX_SORTING_PROCESSES" for t i
    using that by (simp add: arrays_ok_def)
  define exec_time where "exec_time = microsec (clock env (clock_reads s)) - last_yield_time s ! tr s"
  let ?s = "s\<lparr>clock_reads := clock_reads s + 1, ctx_switch_count := ctx_switch_count s + 1,
    sum_exec_time := (sum_exec_time s)[tr s := sum_exec_time s ! tr s + exec_time]\<rparr>"
  have "tr ?s = tr s" using tr_same by metis
  then have tr: "tr (coro_yield env ?s) < MAX_SORTING_PROCESSES" by (rule away)
  have "arrays_ok ?s" using assms(2) by (simp add: arrays_ok_def)
  then have returned: "arrays_ok (coro_yield env ?s)" using assms(1) by (simp add: keeps_arrays_def)
  have "\<exists>s'. YIELD_in env tr s = Some s' \<and> arrays_ok s'"
    using len[OF assms(2,3)] len[OF returned tr] returned assms(2) unfolding arrays_ok_def
    by (cases "exec_time > target_latency s")
      (simp_all add: YIELD_in_def Let_def get_time_in_microsec_def exec_time_def tr_same)
  then show thesis using that by blast
qed

lemma YIELD_ok:
  assumes "keeps_arrays env" "arrays_ok s" "i < MAX_SORTING_PROCESSES"
  obtains s' where "YIELD env i s = Some s'" "arrays_ok s'"
  using YIELD_in_ok[of env s "\<lambda>s. i"] assms unfolding YIELD_def by blast

lemma YIELD_global_ok:
  assumes "keeps_arrays env" "arrays_ok s" "traces_below env n" "n < MAX_SORTING_PROCESSES" "trace_id s \<le> n"
  obtains s' where "YIELD_global env s = Some s'" "arrays_ok s'"
proof (rule YIELD_in_ok[of env s trace_id])
  show "trace_id (coro_yield env t) < MAX_SORTING_PROCESSES" if "trace_id t = trace_id s" for t
    using assms(3-5) that unfolding traces_below_def by (metis le_less_trans)
qed (use assms that in \<open>simp_all add: YIELD_global_def\<close>)

lemma YIELD_in_traces:
  assumes "YIELD_in env tr s = Some s'" "traces_below env n" "trace_id s \<le> n"
  shows "trace_id s' \<le> n"
  using assms by (auto simp: YIELD_in_def Let_def get_time_in_microsec_def traces_below_def split: if_splits bind_splits)

subsection \<open>The sort\<close>

text \<open>The two inner loops; an index that would go below the array is caught at the next access.\<close>

partial_function (option) scan_up :: "int list \<Rightarrow> nat \<Rightarrow> nat \<Rightarrow> nat \<Rightarrow> nat option" where
  "scan_up numbers pivot last' i = do {
     x \<leftarrow> slot numbers i;
     p \<leftarrow> slot numbers pivot;
     if x \<le> p \<and> i < last' then scan_up numbers pivot last' (i + 1) else Some i
   }"

partial_function (option) scan_down :: "int list \<Rightarrow> nat \<Rightarrow> nat \<Rightarrow> nat option" where
  "scan_down numbers pivot j = do {
     x \<leftarrow> slot numbers j;
     p \<leftarrow> slot numbers pivot;
     if x > p then do { ensure (0 < j); scan_down numbers pivot (j - 1) } else Some j
   }"

definition swap :: "int list \<Rightarrow> nat \<Rightarrow> nat \<Rightarrow> int list option" where
  "swap numbers i j = do {
     temp \<leftarrow> slot numbers i;
     x \<leftarrow> slot numbers j;
     Some (numbers[i := x, j := temp])
   }"

partial_function (option) partition_loop :: "int list \<Rightarrow> nat \<Rightarrow> nat \<Rightarrow> nat \<Rightarrow> nat \<Rightarrow> (int list \<times> nat) option" where
  "partition_loop numbers pivot last' i j =
    (if i < j then do {
       i \<leftarrow> scan_up numbers pivot last' i;
       j \<leftarrow> scan_down numbers pivot j;
       numbers \<leftarrow> (if i < j then swap numbers i j else Some numbers);
       partition_loop numbers pivot last' i j
     } else Some (numbers, j))"

partial_function (option) quick_sort ::
    "environment \<Rightarrow> nat \<Rightarrow> sort_state \<Rightarrow> int list \<Rightarrow> nat \<Rightarrow> nat \<Rightarrow> (int list \<times> sort_state) option" where
  "quick_sort env tid s numbers first last' =
    (if first \<ge> last' then Some (numbers, s)
     else do {
       (numbers, j) \<leftarrow> partition_loop numbers first last' first last';
       numbers \<leftarrow> swap numbers first j;
       s \<leftarrow> YIELD env tid s;
       (numbers, s) \<leftarrow> (if j \<noteq> 0 then quick_sort env tid s numbers first (j - 1) else Some (numbers, s));
       quick_sort env tid s numbers (j + 1) last'
     })"

text \<open>While an array is sorted, no more sorts are started than the others start.\<close>

lemma quick_sort_traces:
  assumes "quick_sort env tid s numbers first last' = Some (ys, s')" "traces_below env n"
  shows "trace_id s \<le> n \<longrightarrow> trace_id s' \<le> n"
proof -
  have "case r of (ys, s') \<Rightarrow> trace_id s \<le> n \<longrightarrow> trace_id s' \<le> n"
    if "quick_sort env tid s numbers first last' = Some r" for r
  proof (rule quick_sort.raw_induct[of "\<lambda>env' tid s numbers first last' r. env' = env \<longrightarrow>
      (case r of (ys, s') \<Rightarrow> trace_id s \<le> n \<longrightarrow> trace_id s' \<le> n)", rule_format, OF _ that])
    fix qs env' tid s numbers first last' r
    assume IH: "\<And>env' tid s numbers first last' r. qs env' tid s numbers first last' = Some r \<Longrightarrow> env' = env \<Longrightarrow>
        (case r of (ys, s') \<Rightarrow> trace_id s \<le> n \<longrightarrow> trace_id s' \<le> n)"
      and run: "(if last' \<le> first then Some (numbers, s)
       else partition_loop numbers first last' first last' \<bind> (\<lambda>(numbers, j). swap numbers first j \<bind>
         (\<lambda>numbers. YIELD env' tid s \<bind> (\<lambda>s. (if j \<noteq> 0 then qs env' tid s numbers first (j - 1) else Some (numbers, s)) \<bind>
           (\<lambda>(numbers, s). qs env' tid s numbers (j + 1) last'))))) = Some r" and "env' = env"
    show "case r of (ys, s') \<Rightarrow> trace_id s \<le> n \<longrightarrow> trace_id s' \<le> n"
    proof (cases "last' \<le> first")
      case True
      then show ?thesis using run by auto
    next
      case False
      with run \<open>env' = env\<close> obtain xs j ys s1 zs s2 where s1: "YIELD env tid s = Some s1"
        and left: "(if j \<noteq> 0 then qs env tid s1 ys first (j - 1) else Some (ys, s1)) = Some (zs, s2)"
        and right: "qs env tid s2 zs (j + 1) last' = Some r" by (auto split: bind_splits)
      have "trace_id s \<le> n \<Longrightarrow> trace_id s1 \<le> n" using YIELD_in_traces[OF s1[unfolded YIELD_def] assms(2)] .
      moreover have "trace_id s1 \<le> n \<Longrightarrow> trace_id s2 \<le> n" using left IH[of env tid s1 ys first "j - 1" "(zs, s2)"]
        by (auto split: if_splits)
      ultimately show ?thesis using IH[OF right] by auto
    qed
  qed simp
  from this[OF assms(1)] show ?thesis by simp
qed

subsection \<open>Parts of an array\<close>

text \<open>The array is a permutation of the other, and the same outside \<open>first\<close> to \<open>last\<close>.\<close>

definition permutes_in :: "nat \<Rightarrow> nat \<Rightarrow> int list \<Rightarrow> int list \<Rightarrow> bool" where
  "permutes_in a b xs ys \<longleftrightarrow> mset ys = mset xs \<and> take a ys = take a xs \<and> drop (Suc b) ys = drop (Suc b) xs"

lemma permutes_in_refl [simp]: "permutes_in a b xs xs"
  by (simp add: permutes_in_def)

lemma permutes_in_trans: "permutes_in a b xs ys \<Longrightarrow> permutes_in a b ys zs \<Longrightarrow> permutes_in a b xs zs"
  by (simp add: permutes_in_def)

lemma permutes_in_length: "permutes_in a b xs ys \<Longrightarrow> length ys = length xs"
  by (metis permutes_in_def size_mset)

lemma permutes_in_mono:
  assumes "permutes_in a b xs ys" "a' \<le> a" "b \<le> b'"
  shows "permutes_in a' b' xs ys"
proof -
  have "take a' ys = take a' xs" using assms(1,2) by (metis min.absorb1 permutes_in_def take_take)
  moreover have "drop (Suc b') ys = drop (Suc b') xs"
  proof -
    have "drop (b' - b) (drop (Suc b) ys) = drop (b' - b) (drop (Suc b) xs)" using assms(1) by (simp add: permutes_in_def)
    then show ?thesis using assms(3) by simp
  qed
  ultimately show ?thesis using assms(1) by (simp add: permutes_in_def)
qed

lemma permutes_in_before: "permutes_in a b xs ys \<Longrightarrow> k < a \<Longrightarrow> ys ! k = xs ! k"
  by (metis nth_take permutes_in_def)

lemma permutes_in_after:
  assumes "permutes_in a b xs ys" "b < k" "k < length xs"
  shows "ys ! k = xs ! k"
proof -
  have "drop (Suc b) ys ! (k - Suc b) = drop (Suc b) xs ! (k - Suc b)" using assms(1) by (simp add: permutes_in_def)
  then show ?thesis using assms permutes_in_length[OF assms(1)] by simp
qed

lemma permutes_in_swap:
  assumes "a \<le> i" "i \<le> b" "a \<le> j" "j \<le> b" "b < length xs"
  shows "permutes_in a b xs (xs[i := xs ! j, j := xs ! i])"
  using assms by (simp add: permutes_in_def mset_swap)

text \<open>What holds of all elements of a part holds of them in any order.\<close>

lemma permutes_in_all:
  assumes perm: "permutes_in a b xs ys" and b: "b < length xs" and all: "\<forall>k. a \<le> k \<and> k \<le> b \<longrightarrow> P (xs ! k)"
  shows "\<forall>k. a \<le> k \<and> k \<le> b \<longrightarrow> P (ys ! k)"
proof (intro allI impI)
  fix k assume k: "a \<le> k \<and> k \<le> b"
  define part where "part = (\<lambda>zs :: int list. take (Suc b - a) (drop a zs))"
  have split: "zs = take a zs @ part zs @ drop (Suc b) zs" for zs
    using k by (simp add: part_def) (metis append_take_drop_id drop_drop le_Suc_eq le_add_diff_inverse2 le_trans)
  have "mset (part ys) = mset (part xs)"
  proof -
    have "mset (take a ys) + (mset (part ys) + mset (drop (Suc b) ys)) =
        mset (take a xs) + (mset (part xs) + mset (drop (Suc b) xs))"
      using perm split[of xs] split[of ys] by (metis mset_append permutes_in_def)
    then show ?thesis using perm by (simp add: permutes_in_def)
  qed
  then have "set (part ys) = set (part xs)" by (metis set_mset_mset)
  moreover have "ys ! k \<in> set (part ys)"
    using k b permutes_in_length[OF perm] by (auto simp: part_def in_set_conv_nth intro!: exI[of _ "k - a"])
  ultimately obtain m where "m < length (part xs)" "ys ! k = part xs ! m" by (auto simp: in_set_conv_nth)
  then show "P (ys ! k)" using all k b by (simp add: part_def)
qed

subsection \<open>The inner loops\<close>

lemma scan_up_ok:
  assumes "last' < length xs" "pivot < length xs" "i \<le> last'"
  obtains k where "scan_up xs pivot last' i = Some k" "i \<le> k" "k \<le> last'"
    "\<forall>m. i \<le> m \<and> m < k \<longrightarrow> xs ! m \<le> xs ! pivot" "xs ! k \<le> xs ! pivot \<longrightarrow> k = last'"
proof -
  have "i \<le> last' \<Longrightarrow> \<exists>k. scan_up xs pivot last' i = Some k \<and> i \<le> k \<and> k \<le> last' \<and>
      (\<forall>m. i \<le> m \<and> m < k \<longrightarrow> xs ! m \<le> xs ! pivot) \<and> (xs ! k \<le> xs ! pivot \<longrightarrow> k = last')" for i
  proof (induction "last' - i" arbitrary: i rule: less_induct)
    case less
    show ?case
    proof (cases "xs ! i \<le> xs ! pivot \<and> i < last'")
      case True
      then obtain k where k: "scan_up xs pivot last' (i + 1) = Some k" "i + 1 \<le> k" "k \<le> last'"
        "\<forall>m. i + 1 \<le> m \<and> m < k \<longrightarrow> xs ! m \<le> xs ! pivot" "xs ! k \<le> xs ! pivot \<longrightarrow> k = last'"
        using less.hyps[of "i + 1"] by (metis Suc_eq_plus1 Suc_leI diff_less_mono2 lessI)
      have "scan_up xs pivot last' i = Some k" using True k(1) assms(1,2) by (subst scan_up.simps) simp
      moreover have "xs ! m \<le> xs ! pivot" if "i \<le> m" "m < k" for m
        using that k(4) True by (cases "m = i") auto
      ultimately show ?thesis using k by (intro exI[of _ k]) auto
    next
      case False
      then show ?thesis using less.prems assms(1,2) by (intro exI[of _ i]) (subst scan_up.simps; auto)
    qed
  qed
  then show thesis using that assms(3) by blast
qed

lemma scan_down_ok:
  assumes "j < length xs" "pivot \<le> j"
  obtains k where "scan_down xs pivot j = Some k" "pivot \<le> k" "k \<le> j"
    "\<forall>m. k < m \<and> m \<le> j \<longrightarrow> xs ! m > xs ! pivot" "xs ! k \<le> xs ! pivot"
proof -
  have "j < length xs \<Longrightarrow> pivot \<le> j \<Longrightarrow> \<exists>k. scan_down xs pivot j = Some k \<and> pivot \<le> k \<and> k \<le> j \<and>
      (\<forall>m. k < m \<and> m \<le> j \<longrightarrow> xs ! m > xs ! pivot) \<and> xs ! k \<le> xs ! pivot"
  proof (induction j)
    case 0
    then show ?case by (intro exI[of _ 0]) (subst scan_down.simps; auto)
  next
    case (Suc j)
    show ?case
    proof (cases "xs ! Suc j > xs ! pivot")
      case True
      then have "pivot \<noteq> Suc j" by auto
      then obtain k where k: "scan_down xs pivot j = Some k" "pivot \<le> k" "k \<le> j"
        "\<forall>m. k < m \<and> m \<le> j \<longrightarrow> xs ! m > xs ! pivot" "xs ! k \<le> xs ! pivot"
        using Suc by auto
      have "scan_down xs pivot (Suc j) = Some k" using True k(1) Suc.prems by (subst scan_down.simps) simp
      moreover have "xs ! m > xs ! pivot" if "k < m" "m \<le> Suc j" for m
        using that k(4) True by (cases "m = Suc j") auto
      ultimately show ?thesis using k by (intro exI[of _ k]) auto
    next
      case False
      then show ?thesis using Suc.prems by (intro exI[of _ "Suc j"]) (subst scan_down.simps; auto)
    qed
  qed
  then show thesis using that assms by blast
qed

subsection \<open>The partition\<close>

text \<open>
  Between the rounds of the outer loop: what is left of \<open>i\<close> is not above the pivot, what is right of \<open>j\<close> is
  above it.
\<close>

definition parted :: "int list \<Rightarrow> nat \<Rightarrow> nat \<Rightarrow> nat \<Rightarrow> nat \<Rightarrow> bool" where
  "parted xs a b i j \<longleftrightarrow> a \<le> i \<and> a \<le> j \<and> j \<le> b \<and> i \<le> b \<and>
     (\<forall>m. a \<le> m \<and> m < i \<longrightarrow> xs ! m \<le> xs ! a) \<and> (\<forall>m. j < m \<and> m \<le> b \<longrightarrow> xs ! m > xs ! a)"

lemma partition_loop_ok:
  assumes "b < length xs" "parted xs a b i j" "xs ! i \<le> xs ! a" "i < j"
  shows "\<exists>ys k. partition_loop xs a b i j = Some (ys, k) \<and> permutes_in a b xs ys \<and> ys ! a = xs ! a \<and>
    a \<le> k \<and> k \<le> b \<and> (\<forall>m. a \<le> m \<and> m \<le> k \<longrightarrow> ys ! m \<le> ys ! a) \<and> (\<forall>m. k < m \<and> m \<le> b \<longrightarrow> ys ! m > ys ! a)"
  using assms
proof (induction "j - i" arbitrary: xs i j rule: less_induct)
  case less
  have P: "a \<le> i" "a \<le> j" "j \<le> b" "i \<le> b" "\<forall>m. a \<le> m \<and> m < i \<longrightarrow> xs ! m \<le> xs ! a"
    "\<forall>m. j < m \<and> m \<le> b \<longrightarrow> xs ! m > xs ! a"
    using less.prems(2) by (auto simp: parted_def)
  have a: "a < length xs" "j < length xs" using less.prems(1) P by auto
  obtain i' where i': "scan_up xs a b i = Some i'" "i \<le> i'" "i' \<le> b"
    "\<forall>m. i \<le> m \<and> m < i' \<longrightarrow> xs ! m \<le> xs ! a" "xs ! i' \<le> xs ! a \<longrightarrow> i' = b"
    by (rule scan_up_ok[OF less.prems(1) a(1) P(4)])
  obtain j' where j': "scan_down xs a j = Some j'" "a \<le> j'" "j' \<le> j"
    "\<forall>m. j' < m \<and> m \<le> j \<longrightarrow> xs ! m > xs ! a" "xs ! j' \<le> xs ! a"
    by (rule scan_down_ok[OF a(2) P(2)])
  have up: "i < i'" using i'(2,5) less.prems(3,4) P(3) by (cases "i' = i") auto
  have low: "\<forall>m. a \<le> m \<and> m < i' \<longrightarrow> xs ! m \<le> xs ! a" using P(5) i'(4) by (metis not_le)
  have high: "\<forall>m. j' < m \<and> m \<le> b \<longrightarrow> xs ! m > xs ! a" using P(6) j'(4) by (metis not_le)
  show ?case
  proof (cases "i' < j'")
    case True
    then have big: "xs ! i' > xs ! a" using i'(5) j'(3) P(3) by linarith
    let ?xs = "xs[i' := xs ! j', j' := xs ! i']"
    have len: "i' < length xs" "j' < length xs" using True a(2) j'(3) by auto
    have sw: "swap xs i' j' = Some ?xs" using len by (simp add: swap_def)
    have perm: "permutes_in a b xs ?xs" using P(1,3) i' j' True less.prems(1) up
      by (intro permutes_in_swap) auto
    have a': "?xs ! a = xs ! a" using P(1) up True by simp
    have "parted ?xs a b i' j'" unfolding parted_def a'
      using low high P(1,3) i' j' True up by (auto simp: nth_list_update)
    moreover have "?xs ! i' \<le> ?xs ! a" using a' len True big j'(5) by simp_all
    moreover have "j' - i' < j - i" using up j'(3) True by linarith
    ultimately obtain ys k where ys: "partition_loop ?xs a b i' j' = Some (ys, k)" "permutes_in a b ?xs ys" "ys ! a = ?xs ! a"
      "a \<le> k" "k \<le> b" "\<forall>m. a \<le> m \<and> m \<le> k \<longrightarrow> ys ! m \<le> ys ! a" "\<forall>m. k < m \<and> m \<le> b \<longrightarrow> ys ! m > ys ! a"
      using less.hyps[of j' i' ?xs] less.prems(1) True by auto
    have "partition_loop xs a b i j = Some (ys, k)"
      using less.prems(4) i'(1) j'(1) True sw ys(1) by (subst partition_loop.simps) simp
    then show ?thesis using ys a' permutes_in_trans[OF perm ys(2)] by auto
  next
    case False
    have "partition_loop xs a b i' j' = Some (xs, j')" using False by (subst partition_loop.simps) simp
    then have "partition_loop xs a b i j = Some (xs, j')"
      using less.prems(4) i'(1) j'(1) False by (subst partition_loop.simps) simp
    moreover have "\<forall>m. a \<le> m \<and> m \<le> j' \<longrightarrow> xs ! m \<le> xs ! a" using low j'(5) False by (metis le_neq_implies_less not_le order_trans)
    ultimately show ?thesis using high j'(2,3) P(3) by (intro exI[of _ xs] exI[of _ j']) auto
  qed
qed

subsection \<open>The whole sort\<close>

definition sorted_in :: "nat \<Rightarrow> nat \<Rightarrow> int list \<Rightarrow> bool" where
  "sorted_in a b xs \<longleftrightarrow> (\<forall>m n. a \<le> m \<and> m \<le> n \<and> n \<le> b \<longrightarrow> xs ! m \<le> xs ! n)"

text \<open>The partition together with the exchange of the pivot.\<close>

lemma partition_ok:
  assumes "a < b" "b < length xs"
  obtains ys zs j where "partition_loop xs a b a b = Some (ys, j)" "swap ys a j = Some zs" "permutes_in a b xs zs"
    "a \<le> j" "j \<le> b" "\<forall>m. a \<le> m \<and> m < j \<longrightarrow> zs ! m \<le> zs ! j" "\<forall>m. j + 1 \<le> m \<and> m \<le> b \<longrightarrow> zs ! j < zs ! m"
proof -
  have "parted xs a b a b" using assms(1) by (simp add: parted_def)
  from partition_loop_ok[OF assms(2) this _ assms(1)] obtain ys j where
    ys: "partition_loop xs a b a b = Some (ys, j)" "permutes_in a b xs ys" "a \<le> j" "j \<le> b"
    "\<forall>m. a \<le> m \<and> m \<le> j \<longrightarrow> ys ! m \<le> ys ! a" "\<forall>m. j < m \<and> m \<le> b \<longrightarrow> ys ! m > ys ! a" by auto
  have len: "length ys = length xs" by (rule permutes_in_length[OF ys(2)])
  let ?zs = "ys[a := ys ! j, j := ys ! a]"
  have "permutes_in a b ys ?zs" using assms ys(3,4) len by (intro permutes_in_swap) auto
  then have "permutes_in a b xs ?zs" by (rule permutes_in_trans[OF ys(2)])
  moreover have "swap ys a j = Some ?zs" using assms ys(3,4) len by (simp add: swap_def)
  moreover have "?zs ! m \<le> ?zs ! j" if "a \<le> m" "m < j" for m
    using that ys(3-5) assms len by (auto simp: nth_list_update)
  moreover have "?zs ! j < ?zs ! m" if "j + 1 \<le> m" "m \<le> b" for m
    using that ys(3,4,6) assms len by (auto simp: nth_list_update)
  ultimately show thesis using that ys(1,3,4) by blast
qed

lemma quick_sort_ok:
  assumes "keeps_arrays env" "tid < MAX_SORTING_PROCESSES" "arrays_ok s" "a < b \<longrightarrow> b < length xs"
  shows "\<exists>ys s'. quick_sort env tid s xs a b = Some (ys, s') \<and> arrays_ok s' \<and> permutes_in a b xs ys \<and> sorted_in a b ys"
  using assms(3,4)
proof (induction "Suc b - a" arbitrary: s xs a b rule: less_induct)
  case less
  show ?case
  proof (cases "a \<ge> b")
    case True
    then have "m = n" if "a \<le> m \<and> m \<le> n \<and> n \<le> b" for m n using that by linarith
    then have "sorted_in a b xs" unfolding sorted_in_def by blast
    then show ?thesis using True less.prems(1) by (subst quick_sort.simps) simp
  next
    case False
    then have ab: "a < b" "b < length xs" using less.prems(2) by auto
    obtain ys zs j where zs: "partition_loop xs a b a b = Some (ys, j)" "swap ys a j = Some zs" "permutes_in a b xs zs"
      "a \<le> j" "j \<le> b" "\<forall>m. a \<le> m \<and> m < j \<longrightarrow> zs ! m \<le> zs ! j" "\<forall>m. j + 1 \<le> m \<and> m \<le> b \<longrightarrow> zs ! j < zs ! m"
      by (rule partition_ok[OF ab])
    have len: "length zs = length xs" by (rule permutes_in_length[OF zs(3)])
    obtain s1 where s1: "YIELD env tid s = Some s1" "arrays_ok s1" by (rule YIELD_ok[OF assms(1) less.prems(1) assms(2)])
    have "\<exists>us s2. (if j \<noteq> 0 then quick_sort env tid s1 zs a (j - 1) else Some (zs, s1)) = Some (us, s2) \<and> arrays_ok s2 \<and>
        permutes_in a b zs us \<and> (\<forall>m. j \<le> m \<and> m < length xs \<longrightarrow> us ! m = zs ! m) \<and>
        (\<forall>m. a \<le> m \<and> m < j \<longrightarrow> us ! m \<le> zs ! j) \<and> (\<forall>m n. a \<le> m \<and> m \<le> n \<and> n < j \<longrightarrow> us ! m \<le> us ! n)"
    proof (cases "j = 0")
      case True
      then show ?thesis using s1(2) by auto
    next
      case False
      have smaller: "Suc (j - 1) - a < Suc b - a" "a < j - 1 \<longrightarrow> j - 1 < length zs" using False zs(4,5) ab len by auto
      from less.hyps[OF smaller(1) s1(2) smaller(2)] obtain us s2 where
        us: "quick_sort env tid s1 zs a (j - 1) = Some (us, s2)" "arrays_ok s2" "permutes_in a (j - 1) zs us" "sorted_in a (j - 1) us"
        by blast
      have "\<forall>m. a \<le> m \<and> m \<le> j - 1 \<longrightarrow> us ! m \<le> zs ! j"
        by (rule permutes_in_all[OF us(3)]) (use False zs(5,6) ab len in auto)
      moreover have "us ! m = zs ! m" if "j \<le> m" "m < length xs" for m
        using permutes_in_after[OF us(3), of m] that False len by simp
      moreover have "permutes_in a b zs us" using permutes_in_mono[OF us(3)] zs(5) by simp
      ultimately show ?thesis using us(1,2,4) False by (auto simp: sorted_in_def)
    qed
    then obtain us s2 where us: "(if j \<noteq> 0 then quick_sort env tid s1 zs a (j - 1) else Some (zs, s1)) = Some (us, s2)"
      "arrays_ok s2" "permutes_in a b zs us" "\<forall>m. j \<le> m \<and> m < length xs \<longrightarrow> us ! m = zs ! m"
      "\<forall>m. a \<le> m \<and> m < j \<longrightarrow> us ! m \<le> zs ! j" "\<forall>m n. a \<le> m \<and> m \<le> n \<and> n < j \<longrightarrow> us ! m \<le> us ! n" by blast
    have len': "length us = length xs" using permutes_in_length[OF us(3)] len by simp
    have smaller: "Suc b - (j + 1) < Suc b - a" "j + 1 < b \<longrightarrow> b < length us" using zs(4,5) ab len' by auto
    from less.hyps[OF smaller(1) us(2) smaller(2)] obtain vs s3 where
      vs: "quick_sort env tid s2 us (j + 1) b = Some (vs, s3)" "arrays_ok s3" "permutes_in (j + 1) b us vs" "sorted_in (j + 1) b vs"
      by blast
    have right: "\<forall>m. j + 1 \<le> m \<and> m \<le> b \<longrightarrow> zs ! j < vs ! m"
      by (rule permutes_in_all[OF vs(3)]) (use us(4) zs(7) ab len' in auto)
    have left: "vs ! m = us ! m" if "m \<le> j" for m using permutes_in_before[OF vs(3)] that by simp
    have "us ! j = zs ! j" using us(4) zs(5) ab(2) by simp
    then have below: "vs ! m \<le> zs ! j" if "a \<le> m" "m \<le> j" for m using left us(5) that by (cases "m = j") auto
    have above: "zs ! j \<le> vs ! m" if "j \<le> m" "m \<le> b" for m
      using that right left \<open>us ! j = zs ! j\<close> by (cases "m = j") (auto intro: less_imp_le)
    have "sorted_in a b vs" unfolding sorted_in_def
    proof (intro allI impI)
      fix m n assume mn: "a \<le> m \<and> m \<le> n \<and> n \<le> b"
      consider "n < j" | "m \<le> j" "j \<le> n" | "j + 1 \<le> m" by linarith
      then show "vs ! m \<le> vs ! n"
      proof cases
        case 1
        then show ?thesis using us(6) left mn by simp
      next
        case 2
        then show ?thesis using below above mn by (meson order_trans)
      next
        case 3
        then show ?thesis using vs(4) mn by (simp add: sorted_in_def)
      qed
    qed
    moreover have "permutes_in a b xs vs"
      using permutes_in_trans[OF permutes_in_trans[OF zs(3) us(3)] permutes_in_mono[OF vs(3)]] zs(4) by simp
    moreover have "quick_sort env tid s xs a b = Some (vs, s3)"
      using ab(1) zs(1,2) s1(1) us(1) vs(1) by (subst quick_sort.simps) simp
    ultimately show ?thesis using vs(2) by blast
  qed
qed

lemma quick_sort_whole:
  assumes "keeps_arrays env" "tid < MAX_SORTING_PROCESSES" "arrays_ok s" "xs \<noteq> []"
  obtains s' where "quick_sort env tid s xs 0 (length xs - 1) = Some (sort xs, s')" "arrays_ok s'"
proof -
  from quick_sort_ok[OF assms(1-3), of 0 "length xs - 1" xs] assms(4) obtain ys s' where
    ys: "quick_sort env tid s xs 0 (length xs - 1) = Some (ys, s')" "arrays_ok s'"
    "permutes_in 0 (length xs - 1) xs ys" "sorted_in 0 (length xs - 1) ys" by auto
  have "sorted ys" using ys(4) permutes_in_length[OF ys(3)] by (auto simp: sorted_iff_nth_mono sorted_in_def)
  moreover have "mset ys = mset xs" using ys(3) by (simp add: permutes_in_def)
  ultimately have "ys = sort xs" by (metis properties_for_sort)
  then show thesis using that ys by simp
qed

end
