(* ===== verification/Sort_File.thy ===== *)
theory Sort_File imports Sort_Merge Sort_Quick begin

text \<open>
  Sorting a file: \<open>quick_sort_prepare\<close>, \<open>split\<close>, \<open>sort_file\<close> and \<open>merge_sorted_files\<close> of
  Assignment_1/src/libsort.c, and what they do to the numbers of a file.
\<close>

definition MAX_NUMBERS_LOADED :: nat where
  "MAX_NUMBERS_LOADED = drop_bit 2 (push_bit 10 (push_bit 10 2))"

lemma MAX_NUMBERS_LOADED_eq: "MAX_NUMBERS_LOADED = 524288"
  by (simp add: MAX_NUMBERS_LOADED_def drop_bit_eq_div push_bit_eq_mult)

subsection \<open>Through memory\<close>

primrec read_loop :: "nat \<Rightarrow> nat \<Rightarrow> stream \<Rightarrow> int list \<Rightarrow> (int list \<times> stream) option" where
  "read_loop 0 i input numbers = Some (numbers, input)"
| "read_loop (Suc n) i input numbers = do {
     old \<leftarrow> slot numbers i;
     (v, input) \<leftarrow> fscanf input (Some old);
     x \<leftarrow> v;
     read_loop n (i + 1) input (numbers[i := x])
   }"

primrec write_loop :: "nat \<Rightarrow> nat \<Rightarrow> int list \<Rightarrow> stream \<Rightarrow> stream option" where
  "write_loop 0 i numbers output = Some output"
| "write_loop (Suc n) i numbers output = do {
     x \<leftarrow> slot numbers i;
     write_loop n (i + 1) numbers (fprintf (show_int x @ '' '') output)
   }"

text \<open>The result is the file as it is left, with its position at the end.\<close>

definition quick_sort_prepare ::
    "environment \<Rightarrow> nat \<Rightarrow> sort_state \<Rightarrow> stream \<Rightarrow> nat \<Rightarrow> (stream \<times> sort_state) option" where
  "quick_sort_prepare env tid s input len = do {
     (numbers, input) \<leftarrow> read_loop len 0 input (replicate len 0);
     ensure (0 < len);
     (numbers, s) \<leftarrow> quick_sort env tid s numbers 0 (len - 1);
     output \<leftarrow> write_loop (len - 1) 0 numbers tmpfile;
     x \<leftarrow> slot numbers (len - 1);
     Some (fprintf (show_int x) output, s)
   }"

text \<open>What is read into an array of zeros.\<close>

definition zero_filled :: "nat \<Rightarrow> int list \<Rightarrow> int list" where
  "zero_filled n xs = take n xs @ replicate (n - length xs) 0"

lemma length_zero_filled [simp]: "length (zero_filled n xs) = n"
  by (simp add: zero_filled_def)

lemma zero_filled_exact [simp]: "length xs = n \<Longrightarrow> zero_filled n xs = xs"
  by (simp add: zero_filled_def)

lemma read_loop_ok:
  assumes "holds xs (after input)"
  shows "\<exists>input'. read_loop n (length as) input (as @ replicate n 0) = Some (as @ zero_filled n xs, input') \<and>
    contents input' = contents input"
  using assms
proof (induction n arbitrary: as xs input)
  case 0
  then show ?case by (simp add: zero_filled_def)
next
  case (Suc n)
  obtain f where f: "fscanf input (Some 0) = Some (scanned (Some 0) xs, f)" "holds (tl xs) (after f)" "contents f = contents input"
    by (rule fscanf_holds[OF Suc.prems])
  obtain x where x: "scanned (Some 0) xs = Some x" "zero_filled (Suc n) xs = x # zero_filled n (tl xs)"
    by (cases xs) (auto simp: zero_filled_def)
  from Suc.IH[OF f(2), of "as @ [x]"] f x show ?case by (auto simp: nth_append)
qed

lemma write_loop_ok:
  assumes "i + n \<le> length xs" "after outp = []"
  shows "\<exists>out. write_loop n i xs outp = Some out \<and> before out = before outp @ print_open (take n (drop i xs)) \<and> after out = []"
  using assms
proof (induction n arbitrary: i outp)
  case (Suc n)
  let ?out = "fprintf (show_int (xs ! i) @ '' '') outp"
  have "after ?out = []" using Suc.prems(2) by simp
  from Suc.IH[of "i + 1" ?out, OF _ this] Suc.prems(1) have
    "\<exists>out. write_loop n (i + 1) xs ?out = Some out \<and> before out = before ?out @ print_open (take n (drop (i + 1) xs)) \<and> after out = []"
    by simp
  moreover have "drop i xs = xs ! i # drop (i + 1) xs" using Suc.prems(1) by (simp add: Cons_nth_drop_Suc)
  ultimately show ?case using Suc.prems(1) by (auto simp: print_open_def)
qed simp

lemma quick_sort_prepare_ok:
  assumes env: "keeps_arrays env" "tid < MAX_SORTING_PROCESSES" "arrays_ok s"
    and input: "holds xs (after input)" "0 < n"
  obtains out s' where "quick_sort_prepare env tid s input n = Some (out, s')" "arrays_ok s'"
    "contents out = print_nums (sort (zero_filled n xs))" "after out = []"
proof -
  let ?xs = "zero_filled n xs" let ?ys = "sort ?xs"
  obtain input' where r: "read_loop n 0 input (replicate n 0) = Some (?xs, input')"
    using read_loop_ok[OF input(1), of n "[]"] by auto
  have ne: "?xs \<noteq> []" using input(2) by (metis length_0_conv length_zero_filled less_irrefl)
  obtain s' where q: "quick_sort env tid s ?xs 0 (n - 1) = Some (?ys, s')" "arrays_ok s'"
    using quick_sort_whole[OF env ne] by simp blast
  obtain out where w: "write_loop (n - 1) 0 ?ys tmpfile = Some out" "before out = print_open (take (n - 1) ?ys)" "after out = []"
    using write_loop_ok[of 0 "n - 1" ?ys tmpfile] by auto
  have "take (n - 1) ?ys @ [?ys ! (n - 1)] = ?ys" using input(2)
    by (metis Suc_pred' diff_less length_sort length_zero_filled lessI take_Suc_conv_app_nth take_all_iff le_refl)
  then have "contents (fprintf (show_int (?ys ! (n - 1))) out) = print_nums ?ys"
    using w(2,3) by (simp add: print_open_last)
  then show thesis using that r q w(1,3) input(2) by (simp add: quick_sort_prepare_def)
qed

subsection \<open>Through files\<close>

definition split_range :: "nat \<Rightarrow> nat \<Rightarrow> nat" where
  "split_range start end' = start + (end' - start) div 2"

text \<open>An empty or reversed range would make sizes wrap round and is left undefined after its first test.\<close>

partial_function (option) split ::
    "environment \<Rightarrow> nat \<Rightarrow> sort_state \<Rightarrow> stream \<Rightarrow> nat \<Rightarrow> nat \<Rightarrow> (stream \<times> sort_state) option" where
  "split env tid s input start end' =
    (if end' = start then do {
       (_, output) \<leftarrow> transfer_numbers input tmpfile 1;
       Some (rewind output, s)
     } else do {
       ensure (start < end');
       let mid = split_range start (end' - 1);
       let left_len = calculate_left_interval start mid (end' - 1);
       let right_len = calculate_right_interval start mid (end' - 1);
       (input, left) \<leftarrow> transfer_numbers input tmpfile left_len;
       (input, right) \<leftarrow> transfer_numbers input tmpfile right_len;
       (left_output, s) \<leftarrow> (if left_len > MAX_NUMBERS_LOADED
         then split env tid s (rewind left) start mid
         else quick_sort_prepare env tid s (rewind left) left_len);
       s \<leftarrow> YIELD env tid s;
       (right_output, s) \<leftarrow> (if right_len > MAX_NUMBERS_LOADED
         then split env tid s (rewind right) (mid + 1) end'
         else quick_sort_prepare env tid s (rewind right) right_len);
       s \<leftarrow> YIELD env tid s;
       merged_output \<leftarrow> merge (Some (rewind left_output)) (Some (rewind right_output)) start mid (end' - 1);
       merged_output \<leftarrow> print_numbers merged_output (end' - start + 1);
       s \<leftarrow> YIELD env tid s;
       Some (rewind merged_output, s)
     })"

text \<open>
  \<open>files\<close> gives the contents of the files that can be opened.  The results are the sorted file, or
  \<open>None\<close> for NULL, and what is stored through \<open>execTime\<close>.
\<close>

definition sort_file ::
    "environment \<Rightarrow> (string \<Rightarrow> string option) \<Rightarrow> 64 word \<Rightarrow> string \<Rightarrow> sort_state \<Rightarrow>
      (stream option \<times> 64 word option \<times> sort_state) option" where
  "sort_file env files latency name s = do {
     let s = s\<lparr>trace_id := trace_id s + 1\<rparr>;
     let cur_trace_id = trace_id s;
     let (now, s) = get_time_in_microsec env s;
     ensure (cur_trace_id < length (last_yield_time s));
     let s = s\<lparr>last_yield_time := (last_yield_time s)[cur_trace_id := now], target_latency := latency\<rparr>;
     case files name of
       None \<Rightarrow> Some (None, None, s)
     | Some text \<Rightarrow> do {
         let (numbers_in_file, file) = count_numbers_in_file \<lparr>before = [], after = text\<rparr>;
         let file = rewind file;
         (output, s) \<leftarrow> (if numbers_in_file > MAX_NUMBERS_LOADED
           then split env cur_trace_id s file 0 numbers_in_file
           else quick_sort_prepare env (trace_id s) s file numbers_in_file);
         output \<leftarrow> print_numbers output numbers_in_file;
         s \<leftarrow> YIELD_global env s;
         exec \<leftarrow> slot (sum_exec_time s) cur_trace_id;
         Some (Some (rewind output), Some exec, s)
       }
   }"

definition merge_sorted_files :: "stream \<Rightarrow> stream \<Rightarrow> sort_state \<Rightarrow> (stream \<times> sort_state) option" where
  "merge_sorted_files a b s =
    (let s = s\<lparr>trace_id := trace_id s + 1\<rparr>;
       (a_len, a) = count_numbers_in_file a;
       (b_len, b) = count_numbers_in_file b
     in do { output \<leftarrow> merge_files (Some a) (Some b) a_len b_len; Some (output, s) })"

subsection \<open>The trace number while a file is sorted\<close>

lemma quick_sort_prepare_traces:
  assumes "quick_sort_prepare env tid s input len = Some (out, s')" "traces_below env n"
  shows "trace_id s \<le> n \<longrightarrow> trace_id s' \<le> n"
  using assms(1) quick_sort_traces[OF _ assms(2)] by (auto simp: quick_sort_prepare_def split: bind_splits)

lemma split_traces:
  assumes "split env tid s input start end' = Some (out, s')" "traces_below env n"
  shows "trace_id s \<le> n \<longrightarrow> trace_id s' \<le> n"
proof -
  have yield: "trace_id s \<le> n \<Longrightarrow> trace_id s1 \<le> n" if "YIELD env tid s = Some s1" for s s1 tid
    using YIELD_in_traces[OF that[unfolded YIELD_def] assms(2)] .
  have "case r of (out, s') \<Rightarrow> trace_id s \<le> n \<longrightarrow> trace_id s' \<le> n"
    if "split env tid s input start end' = Some r" for r
  proof (rule split.raw_induct[of "\<lambda>env' tid s input start end' r. env' = env \<longrightarrow>
      (case r of (out, s') \<Rightarrow> trace_id s \<le> n \<longrightarrow> trace_id s' \<le> n)", rule_format, OF _ that], goal_cases)
    case (1 sp env' tid s input start end' r)
    note IH = 1(1) and run = 1(2) and env = 1(3)
    have half: "trace_id s \<le> n \<Longrightarrow> trace_id s1 \<le> n"
      if "(if b then sp env tid s f x y else quick_sort_prepare env tid s f m) = Some (o1, s1)" for b s f x y m o1 s1
      using that IH[of env tid s f x y "(o1, s1)"] quick_sort_prepare_traces[OF _ assms(2), of tid s f m o1 s1]
      by (auto split: if_splits)
    show "case r of (out, s') \<Rightarrow> trace_id s \<le> n \<longrightarrow> trace_id s' \<le> n"
    proof (cases "end' = start")
      case True
      then show ?thesis using run by (auto split: bind_splits)
    next
      case False
      with run env show ?thesis by (auto simp: Let_def bind_eq_Some_conv dest!: half yield)
    qed
  qed simp
  from this[OF assms(1)] show ?thesis by simp
qed

subsection \<open>What splitting does\<close>

text \<open>The positions of the split: at most one number more on the left than on the right.\<close>

lemma split_lengths:
  assumes "start + 2 \<le> end'" "mid = split_range start (end' - 1)"
  shows "calculate_left_interval start mid (end' - 1) = (end' - start - 1) div 2 + 1"
    "calculate_right_interval start mid (end' - 1) = end' - (mid + 1)"
    "mid = start + (end' - start - 1) div 2" "mid + 1 < end'" "start \<le> mid"
    "end' - (mid + 1) \<le> (end' - start - 1) div 2 + 1" "(end' - start - 1) div 2 + 1 + (end' - (mid + 1)) = end' - start"
proof -
  define d where "d = end' - start"
  have d: "end' = start + d" "2 \<le> d" using assms(1) by (auto simp: d_def)
  have m: "mid = start + (d - 1) div 2" using assms(2) d by (simp add: split_range_def)
  define h where "h = (d - 1) div 2"
  have half: "2 * h \<le> d - 1" "d - 1 \<le> 2 * h + 1" by (simp_all add: h_def)
  have m': "mid = start + h" using m by (simp add: h_def)
  show "calculate_left_interval start mid (end' - 1) = (end' - start - 1) div 2 + 1"
    using m d by (simp add: calculate_left_interval_def)
  show "calculate_right_interval start mid (end' - 1) = end' - (mid + 1)"
    by (simp add: calculate_right_interval_def)
  show "mid = start + (end' - start - 1) div 2" using m d by simp
  show "mid + 1 < end'" using m' d half by linarith
  show "start \<le> mid" using m by simp
  show "end' - (mid + 1) \<le> (end' - start - 1) div 2 + 1" "(end' - start - 1) div 2 + 1 + (end' - (mid + 1)) = end' - start"
    unfolding d_def[symmetric] h_def[symmetric] using m' d half by linarith+
qed

text \<open>
  The output for \<open>n\<close> numbers \<open>xs\<close>: it is sorted and has the right length and, when both halves fit into memory,
  the right numbers.  When they do not, the number in the middle is lost.
\<close>

definition split_result :: "nat \<Rightarrow> int list \<Rightarrow> int list \<Rightarrow> bool" where
  "split_result n xs ys \<longleftrightarrow> length ys = n \<and> sorted ys \<and> set ys \<subseteq> set (take n xs) \<and>
     (n \<le> 2 * MAX_NUMBERS_LOADED \<longrightarrow> mset ys = mset (take n xs)) \<and>
     (2 * MAX_NUMBERS_LOADED < n \<longrightarrow>
       set ys \<subseteq> set (take ((n - 1) div 2) xs) \<union> set (drop ((n - 1) div 2 + 1) (take n xs)))"

lemma print_holds: "list_all is_int xs \<Longrightarrow> contents f = print_nums xs \<Longrightarrow> holds xs (contents f)"
  by (simp add: holds_print)

lemma holds_take_drop: "holds xs (after f) \<Longrightarrow> list_all is_int (take n xs) \<and> list_all is_int (drop n xs)"
  using holds_int by (meson in_set_dropD in_set_takeD list_all_iff)

text \<open>One half, sorted in memory or by a further split, which on the left drops the last number.\<close>

definition half_result :: "nat \<Rightarrow> int list \<Rightarrow> int list \<Rightarrow> bool" where
  "half_result m xs ys \<longleftrightarrow> sorted ys \<and> ys \<noteq> [] \<and> set ys \<subseteq> set xs \<and>
     (length xs \<le> MAX_NUMBERS_LOADED \<longrightarrow> ys = sort xs) \<and>
     (MAX_NUMBERS_LOADED < length xs \<longrightarrow> length ys = m \<and> set ys \<subseteq> set (take m xs))"

lemma half_ok:
  assumes env: "keeps_arrays env" "tid < MAX_SORTING_PROCESSES" "arrays_ok s"
    and n: "xs \<noteq> []" "length xs = n" "contents f = print_nums xs" "list_all is_int xs" "MAX_NUMBERS_LOADED < n \<longrightarrow> 0 < m"
    and split: "\<And>s f. arrays_ok s \<Longrightarrow> MAX_NUMBERS_LOADED < n \<Longrightarrow> holds xs (after f) \<Longrightarrow>
      \<exists>out s' ys. split env tid s f a b = Some (out, s') \<and> arrays_ok s' \<and>
        contents out = print_nums ys \<and> split_result m xs ys"
  shows "\<exists>out s' ys. (if n > MAX_NUMBERS_LOADED then split env tid s (rewind f) a b
      else quick_sort_prepare env tid s (rewind f) n) = Some (out, s') \<and> arrays_ok s' \<and>
    contents out = print_nums ys \<and> half_result m xs ys"
proof -
  have f: "holds xs (after (rewind f))" using n by (simp add: holds_print)
  show ?thesis
  proof (cases "n > MAX_NUMBERS_LOADED")
    case True
    from split[OF env(3) True f] obtain out s' ys where
      out: "split env tid s (rewind f) a b = Some (out, s')" "arrays_ok s'" "contents out = print_nums ys" "split_result m xs ys"
      by blast
    have "set ys \<subseteq> set xs" using out(4) by (auto simp: split_result_def dest: in_set_takeD)
    then have "half_result m xs ys" using out(4) True n(2,5) by (auto simp: half_result_def split_result_def)
    then show ?thesis using True out by auto
  next
    case False
    have "0 < n" using n by auto
    obtain out s' where
      "quick_sort_prepare env tid s (rewind f) n = Some (out, s')" "arrays_ok s'"
      "contents out = print_nums (sort (zero_filled n xs))" by (rule quick_sort_prepare_ok[OF env f \<open>0 < n\<close>])
    moreover have "half_result m xs (sort xs)"
      unfolding half_result_def using False n(1,2) by (metis length_0_conv length_sort not_le order_refl set_sort sorted_sort)
    ultimately show ?thesis using False n(2) by (intro exI[of _ out] exI[of _ s'] exI[of _ "sort xs"]) simp
  qed
qed

lemma half_padded:
  assumes "half_result m xs ys" "length xs = n"
  shows "sorted (padded n ys)" "set (padded n ys) \<subseteq> set xs" "n \<le> MAX_NUMBERS_LOADED \<Longrightarrow> mset (padded n ys) = mset xs"
    "MAX_NUMBERS_LOADED < n \<Longrightarrow> set (padded n ys) \<subseteq> set (take m xs)"
proof -
  note * = assms[unfolded half_result_def]
  show "sorted (padded n ys)" using * sorted_padded by blast
  show "set (padded n ys) \<subseteq> set xs" using * set_padded[of ys n] by blast
  show "n \<le> MAX_NUMBERS_LOADED \<Longrightarrow> mset (padded n ys) = mset xs" using * by simp
  show "MAX_NUMBERS_LOADED < n \<Longrightarrow> set (padded n ys) \<subseteq> set (take m xs)" using * set_padded[of ys n] by blast
qed

text \<open>What the merge of the two halves is.\<close>

lemma split_result_merge:
  assumes us: "half_result (l - 1) (take l xs) us" and vs: "half_result r (take r (drop l xs)) vs"
    and len: "l = (n - 1) div 2 + 1" "l + r = n" "r \<le> l" "n \<le> length xs"
  shows "split_result n xs (merge_lists (padded l us) (padded r vs))"
proof -
  have tn: "take n xs = take l xs @ take r (drop l xs)" using len(2) by (metis take_add)
  have lr: "length (take l xs) = l" "length (take r (drop l xs)) = r" using len by auto
  note u = half_padded[OF us lr(1)] and v = half_padded[OF vs lr(2)]
  show ?thesis unfolding split_result_def
  proof (intro conjI impI)
    show "length (merge_lists (padded l us) (padded r vs)) = n" using len(2) by simp
    show "sorted (merge_lists (padded l us) (padded r vs))" using u(1) v(1) by (rule sorted_merge_lists)
    show "set (merge_lists (padded l us) (padded r vs)) \<subseteq> set (take n xs)"
      unfolding tn set_merge_lists set_append using u(2) v(2) by blast
    show "mset (merge_lists (padded l us) (padded r vs)) = mset (take n xs)" if small: "n \<le> 2 * MAX_NUMBERS_LOADED"
    proof -
      have "l \<le> MAX_NUMBERS_LOADED" using small len(1,2,3) by (simp add: MAX_NUMBERS_LOADED_eq)
      then show ?thesis unfolding tn mset_merge_lists mset_append using u(3) v(3) len(3) by simp
    qed
    show "set (merge_lists (padded l us) (padded r vs)) \<subseteq>
        set (take ((n - 1) div 2) xs) \<union> set (drop ((n - 1) div 2 + 1) (take n xs))" if big: "2 * MAX_NUMBERS_LOADED < n"
    proof -
      have "MAX_NUMBERS_LOADED < l" using big len(1) by (simp add: MAX_NUMBERS_LOADED_eq)
      then have "set (padded l us) \<subseteq> set (take (l - 1) (take l xs))" by (rule u(4))
      moreover have "take (l - 1) (take l xs) = take ((n - 1) div 2) xs" using len(1) by (simp add: min_def)
      moreover have "take r (drop l xs) = drop l (take n xs)" unfolding tn using lr(1) by simp
      ultimately show ?thesis unfolding set_merge_lists using v(2) len(1) by auto
    qed
  qed
qed

lemma split_ok:
  assumes env: "keeps_arrays env" "tid < MAX_SORTING_PROCESSES"
  shows "arrays_ok s \<Longrightarrow> start + 2 \<le> end' \<Longrightarrow> end' - start \<le> length xs \<Longrightarrow> holds xs (after input) \<Longrightarrow>
    \<exists>out s' ys. split env tid s input start end' = Some (out, s') \<and> arrays_ok s' \<and>
      before out = [] \<and> contents out = print_nums ys \<and> split_result (end' - start) xs ys"
proof (induction "end' - start" arbitrary: s input start end' xs rule: less_induct)
  case less
  define n where "n = end' - start"
  define mid where "mid = split_range start (end' - 1)"
  define l where "l = (n - 1) div 2 + 1"
  define r where "r = end' - (mid + 1)"
  note len = split_lengths[OF less.prems(2) mid_def, folded n_def, folded l_def r_def]
  have lens: "mid - start = l - 1" "0 < r" "0 < l" "l < n"
    using len(3,4,5,7) by (simp_all add: l_def r_def)
  define us vs rest where "us = take l xs" and "vs = take r (drop l xs)" and "rest = drop r (drop l xs)"
  have n: "n \<le> length xs" using less.prems(3) by (simp add: n_def)
  have uv: "length us = l" "length vs = r" using n len(7) lens by (simp_all add: us_def vs_def)
  then have ne: "us \<noteq> []" "vs \<noteq> []" using lens by auto
  have ints: "list_all is_int us" "list_all is_int vs"
    using holds_int[OF less.prems(4)] by (auto simp: list_all_iff us_def vs_def dest: in_set_takeD in_set_dropD)
  have "holds (us @ vs @ rest) (after input)" using less.prems(4)
    by (simp only: us_def vs_def rest_def append_take_drop_id)
  then obtain input1 left where left: "transfer_numbers input tmpfile l = Some (input1, left)"
    "holds (vs @ rest) (after input1)" "contents left = print_nums us"
    by (rule transfer_numbers_ok[OF _ ne(1) refl]) (simp add: uv(1))
  obtain input2 right where right: "transfer_numbers input1 tmpfile r = Some (input2, right)"
    "contents right = print_nums vs"
    by (rule transfer_numbers_ok[OF left(2) ne(2) refl]) (simp add: uv(2))
  have big: "0 < l - 1" "2 \<le> l - 1" if "MAX_NUMBERS_LOADED < l" using that by (simp_all add: MAX_NUMBERS_LOADED_eq)
  let ?left = "if l > MAX_NUMBERS_LOADED then split env tid s (rewind left) start mid
    else quick_sort_prepare env tid s (rewind left) l"
  have "\<exists>out s' ys. ?left = Some (out, s') \<and> arrays_ok s' \<and> contents out = print_nums ys \<and> half_result (l - 1) us ys"
  proof (rule half_ok[OF env less.prems(1) ne(1) uv(1) left(3) ints(1)])
    show "MAX_NUMBERS_LOADED < l \<longrightarrow> 0 < l - 1" using big(1) by blast
    show "\<exists>out s' ys. split env tid s f start mid = Some (out, s') \<and> arrays_ok s' \<and>
        contents out = print_nums ys \<and> split_result (l - 1) us ys"
      if "arrays_ok s" "MAX_NUMBERS_LOADED < l" "holds us (after f)" for s f
    proof -
      have pre: "mid - start < end' - start" "start + 2 \<le> mid" "mid - start \<le> length us"
        using big(2)[OF that(2)] lens uv(1) len(5) by (simp_all add: n_def)
      from less.hyps[OF pre(1) that(1) pre(2,3) that(3)] show ?thesis unfolding lens(1) by blast
    qed
  qed
  then obtain out1 s1 us' where l_out: "?left = Some (out1, s1)" "arrays_ok s1" "contents out1 = print_nums us'"
    "half_result (l - 1) us us'" by blast
  obtain s2 where s2: "YIELD env tid s1 = Some s2" "arrays_ok s2" by (rule YIELD_ok[OF env(1) l_out(2) env(2)])
  let ?right = "if r > MAX_NUMBERS_LOADED then split env tid s2 (rewind right) (mid + 1) end'
    else quick_sort_prepare env tid s2 (rewind right) r"
  have "\<exists>out s' ys. ?right = Some (out, s') \<and> arrays_ok s' \<and> contents out = print_nums ys \<and> half_result r vs ys"
  proof (rule half_ok[OF env s2(2) ne(2) uv(2) right(2) ints(2)])
    show "MAX_NUMBERS_LOADED < r \<longrightarrow> 0 < r" by simp
    show "\<exists>out s' ys. split env tid s f (mid + 1) end' = Some (out, s') \<and> arrays_ok s' \<and>
        contents out = print_nums ys \<and> split_result r vs ys"
      if "arrays_ok s" "MAX_NUMBERS_LOADED < r" "holds vs (after f)" for s f
    proof -
      have "end' - (mid + 1) < end' - start" "mid + 1 + 2 \<le> end'"
        using that(2) len(4,5) by (auto simp: r_def MAX_NUMBERS_LOADED_eq)
      moreover have "end' - (mid + 1) \<le> length vs" using uv(2) by (simp add: r_def)
      ultimately show ?thesis using less.hyps[OF _ that(1) _ _ that(3), of end' "mid + 1"] unfolding r_def by blast
    qed
  qed
  then obtain out2 s3 vs' where r_out: "?right = Some (out2, s3)" "arrays_ok s3" "contents out2 = print_nums vs'"
    "half_result r vs vs'" by blast
  obtain s4 where s4: "YIELD env tid s3 = Some s4" "arrays_ok s4" by (rule YIELD_ok[OF env(1) r_out(2) env(2)])
  let ?ys = "merge_lists (padded l us') (padded r vs')"
  have halves: "us' \<noteq> []" "vs' \<noteq> []" "list_all is_int us'" "list_all is_int vs'"
    using l_out(4) r_out(4) ints by (auto simp: half_result_def list_all_iff)
  obtain m where m: "merge_files (Some (rewind out1)) (Some (rewind out2)) l r = Some (rewind m)"
    "contents m = print_nums ?ys"
    by (rule merge_files_ok[of us' "rewind out1" vs' "rewind out2" l r]) (use halves l_out(3) r_out(3) lens holds_print in auto)
  have result: "split_result n xs ?ys"
    using split_result_merge[OF l_out(4)[unfolded us_def] r_out(4)[unfolded vs_def] l_def len(7,6) n] .
  have "set ?ys \<subseteq> set xs" using result by (auto simp: split_result_def dest: in_set_takeD)
  then have "list_all is_int ?ys" using holds_int[OF less.prems(4)] by (auto simp: list_all_iff)
  then have "holds ?ys (after (rewind m))" using m(2) by (simp add: holds_print)
  then obtain m' where m': "print_numbers (rewind m) (end' - start + 1) = Some m'" "contents m' = contents m"
    by (rule print_numbers_ok) simp
  obtain s5 where s5: "YIELD env tid s4 = Some s5" "arrays_ok s5" by (rule YIELD_ok[OF env(1) s4(2) env(2)])
  have "merge (Some (rewind out1)) (Some (rewind out2)) start mid (end' - 1) = Some (rewind m)"
    using m(1) len(1,2) by (simp add: merge_def Let_def)
  then have "split env tid s input start end' = Some (rewind m', s5)"
    using less.prems(2) len(1,2) left(1) right(1) l_out(1) s2(1) r_out(1) s4(1) m'(1) s5(1)
    by (subst split.simps, unfold mid_def[symmetric] Let_def, unfold len(1,2)) simp
  then show ?case using s5(2) m(2) m'(2) result by (intro exI[of _ "rewind m'"] exI[of _ s5] exI[of _ ?ys]) (simp add: n_def)
qed

subsection \<open>What sorting a file does\<close>

text \<open>What a run of \<open>sort_file\<close> needs: trace numbers within the arrays, also those the others start meanwhile, and the file.\<close>

definition can_sort :: "environment \<Rightarrow> (string \<Rightarrow> string option) \<Rightarrow> string \<Rightarrow> sort_state \<Rightarrow> string \<Rightarrow> bool" where
  "can_sort env files name s chars \<longleftrightarrow> keeps_arrays env \<and> arrays_ok s \<and>
     (\<exists>n. n < MAX_SORTING_PROCESSES \<and> traces_below env n \<and> trace_id s < n) \<and>
     files name = Some chars \<and> CHR 0xFF \<notin> set chars"

lemma sort_file_run:
  assumes can: "can_sort env files name s chars" and xs: "holds xs chars" and n: "n = number_count chars"
    and big: "MAX_NUMBERS_LOADED < n \<longrightarrow> length xs = n"
  shows "\<exists>out ys exec s'. sort_file env files latency name s = Some (Some out, Some exec, s') \<and> arrays_ok s' \<and>
    before out = [] \<and> after out = print_nums ys \<and>
    (if n \<le> MAX_NUMBERS_LOADED then ys = sort (zero_filled n xs) else split_result n xs ys)"
proof -
  define tid where "tid = trace_id s + 1"
  define s1 where "s1 = s\<lparr>trace_id := tid, clock_reads := clock_reads s + 1,
    last_yield_time := (last_yield_time s)[tid := microsec (clock env (clock_reads s))], target_latency := latency\<rparr>"
  obtain k where k: "k < MAX_SORTING_PROCESSES" "traces_below env k" "trace_id s < k" using can by (auto simp: can_sort_def)
  have env: "keeps_arrays env" "tid < MAX_SORTING_PROCESSES" "arrays_ok s1" "trace_id s1 = tid"
    using can k by (simp_all add: can_sort_def tid_def s1_def arrays_ok_def)
  let ?f = "\<lparr>before = [], after = chars\<rparr>"
  have chars: "contents ?f = chars" "before ?f = []" by (simp_all add: contents_def)
  have cnt: "count_numbers_in_file ?f = (n, rewind ?f)"
    using count_numbers_text[of ?f] can chars n by (simp add: can_sort_def)
  have f: "holds xs (after (rewind ?f))" using xs chars by simp
  let ?run = "if n > MAX_NUMBERS_LOADED then split env tid s1 (rewind ?f) 0 n else quick_sort_prepare env tid s1 (rewind ?f) n"
  have "\<exists>out ys zs s'. ?run = Some (out, s') \<and> arrays_ok s' \<and> contents out = print_nums ys \<and> holds zs (after out) \<and>
      (if n \<le> MAX_NUMBERS_LOADED then ys = sort (zero_filled n xs) else split_result n xs ys)"
  proof (cases "n > MAX_NUMBERS_LOADED")
    case True
    then have "0 + 2 \<le> n" "n - 0 \<le> length xs" using big by (simp_all add: MAX_NUMBERS_LOADED_eq)
    from split_ok[OF env(1,2,3) this f] obtain out s' ys where
      out: "split env tid s1 (rewind ?f) 0 n = Some (out, s')" "arrays_ok s'" "before out = []" "contents out = print_nums ys"
      "split_result n xs ys" by auto
    have "list_all is_int ys" using out(5) holds_int[OF xs] by (auto simp: split_result_def list_all_iff dest!: in_set_takeD)
    then have "holds ys (after out)" using out(3,4) holds_print by (metis append_Nil contents_def)
    then show ?thesis using True out by auto
  next
    case False
    have "0 < n" by (simp add: n number_count_def)
    obtain out s' where "quick_sort_prepare env tid s1 (rewind ?f) n = Some (out, s')" "arrays_ok s'"
      "contents out = print_nums (sort (zero_filled n xs))" "after out = []"
      by (rule quick_sort_prepare_ok[OF env(1,2,3) f \<open>0 < n\<close>])
    then show ?thesis using False
      by (intro exI[of _ out] exI[of _ "sort (zero_filled n xs)"] exI[of _ "[]"] exI[of _ s']) simp
  qed
  then obtain out ys zs s2 where out: "?run = Some (out, s2)" "arrays_ok s2" "contents out = print_nums ys" "holds zs (after out)"
    "if n \<le> MAX_NUMBERS_LOADED then ys = sort (zero_filled n xs) else split_result n xs ys" by blast
  obtain out' where out': "print_numbers out n = Some out'" "contents out' = contents out" by (rule print_numbers_ok[OF out(4)])
  have "trace_id s2 \<le> k"
    using out(1) env(4) k(3) tid_def split_traces[OF _ k(2)] quick_sort_prepare_traces[OF _ k(2)]
    by (metis Suc_eq_plus1 Suc_leI)
  then obtain s3 where s3: "YIELD_global env s2 = Some s3" "arrays_ok s3" by (rule YIELD_global_ok[OF env(1) out(2) k(2,1)])
  have "tid < length (sum_exec_time s3)" using s3(2) env(2) by (simp add: arrays_ok_def)
  moreover have "tid < length (last_yield_time s)" using can k by (simp add: can_sort_def tid_def arrays_ok_def)
  ultimately have step: "sort_file env files latency name s = do {
      (output, s) \<leftarrow> ?run;
      output \<leftarrow> print_numbers output n;
      s \<leftarrow> YIELD_global env s;
      exec \<leftarrow> slot (sum_exec_time s) tid;
      Some (Some (rewind output), Some exec, s)
    }" and len: "tid < length (sum_exec_time s3)"
    using cnt can
    by (simp_all add: sort_file_def Let_def get_time_in_microsec_def can_sort_def tid_def s1_def)
  have "sort_file env files latency name s = Some (Some (rewind out'), Some (sum_exec_time s3 ! tid), s3)"
    unfolding step out(1) using out'(1) s3(1) len by simp
  then show ?thesis using s3(2) out(3,5) out'(2) by (intro exI[of _ "rewind out'"] exI[of _ ys]) simp
qed

text \<open>
  A file in good order: its numbers are separated by single spaces, line ends or NULs, with none at the end, and
  they fit into memory in two halves.
\<close>

definition good_file :: "(string \<Rightarrow> string option) \<Rightarrow> string \<Rightarrow> int list \<Rightarrow> bool" where
  "good_file files name xs \<longleftrightarrow> (\<exists>chars. files name = Some chars \<and> CHR 0xFF \<notin> set chars \<and> holds xs chars \<and>
     number_count chars = length xs \<and> length xs \<le> 2 * MAX_NUMBERS_LOADED)"

lemma good_file_ints: "good_file files name xs \<Longrightarrow> list_all is_int xs"
  using holds_int by (auto simp: good_file_def list_all_iff)

lemma good_file_nonempty: "good_file files name xs \<Longrightarrow> xs \<noteq> []"
  by (auto simp: good_file_def number_count_def)

lemma sort_file_good:
  assumes "keeps_arrays env" "arrays_ok s" "traces_below env n" "n < MAX_SORTING_PROCESSES" "trace_id s < n"
    "good_file files name xs"
  shows "\<exists>out exec s'. sort_file env files latency name s = Some (Some out, Some exec, s') \<and> arrays_ok s' \<and>
    before out = [] \<and> after out = print_nums (sort xs)"
proof -
  obtain chars where chars: "files name = Some chars" "CHR 0xFF \<notin> set chars" "holds xs chars"
    "length xs = number_count chars" "length xs \<le> 2 * MAX_NUMBERS_LOADED" using assms(6) by (auto simp: good_file_def)
  have can: "can_sort env files name s chars" using assms(1-5) chars by (auto simp: can_sort_def)
  obtain out ys exec s' where run: "sort_file env files latency name s = Some (Some out, Some exec, s')" "arrays_ok s'"
    "before out = []" "after out = print_nums ys"
    "if length xs \<le> MAX_NUMBERS_LOADED then ys = sort (zero_filled (length xs) xs) else split_result (length xs) xs ys"
    using sort_file_run[OF can chars(3,4)] by blast
  have "ys = sort xs"
  proof (cases "length xs \<le> MAX_NUMBERS_LOADED")
    case False
    then have "sorted ys" "mset ys = mset xs" using run(5) chars(5) by (simp_all add: split_result_def)
    then show ?thesis by (metis properties_for_sort)
  qed (use run(5) in simp)
  then show ?thesis using run by blast
qed

end
