(* ===== verification/Sort_Main.thy ===== *)
theory Sort_Main imports Sort_File begin

text \<open>
  Assignment_1/src/main.c: the list of files, the coroutines that take files from it and sort them, and the
  final merge into \<open>output.txt\<close>.
\<close>

subsection \<open>Reporting times\<close>

text \<open>\<open>print_time_diff\<close> of libutil.c: what it prints; \<open>uint32_t\<close> is a 32-bit word.\<close>

abbreviation (input) MAGNITUDE :: "64 word" where "MAGNITUDE \<equiv> 1000"
abbreviation (input) MICROSEC_IN_SEC :: "64 word" where "MICROSEC_IN_SEC \<equiv> MAGNITUDE * MAGNITUDE"

definition print_time_diff :: "64 word \<Rightarrow> 64 word \<Rightarrow> string option" where
  "print_time_diff start end' = do {
     ensure (start \<le> end');
     let diff = end' - start;
     let seconds = diff div MICROSEC_IN_SEC;
     let milliseconds = (ucast ((diff mod MICROSEC_IN_SEC) div MAGNITUDE) :: 32 word);
     let microseconds = (ucast ((diff mod MICROSEC_IN_SEC) mod MAGNITUDE) :: 32 word);
     Some (show_nat (unat seconds) @ '' seconds, '' @ show_nat (unat milliseconds) @ '' milliseconds, '' @
       show_nat (unat microseconds) @ '' microseconds'')
   }"

lemma print_time_diff_exact:
  assumes "start \<le> end'" "d = unat end' - unat start"
  shows "print_time_diff start end' = Some (show_nat (d div 1000000) @ '' seconds, '' @
    show_nat (d mod 1000000 div 1000) @ '' milliseconds, '' @ show_nat (d mod 1000) @ '' microseconds'')"
proof -
  have d: "unat (end' - start) = d" using assms by (simp add: unat_sub)
  have mil: "d mod 1000000 div 1000 mod 4294967296 = d mod 1000000 div 1000"
    and mic: "d mod 1000000 mod 1000 mod 4294967296 = d mod 1000"
    by (simp_all add: mod_mod_cancel)
  show ?thesis using assms(1) mil mic
    by (simp add: print_time_diff_def Let_def unat_div_distrib unat_mod_distrib d unsigned_ucast_eq take_bit_eq_mod mod_mod_cancel)
qed

subsection \<open>The list of files and the coroutines\<close>

datatype sorting_status = SORTING_WAITING | SORTING_IN_PROGRESS | SORTING_FINISHED

text \<open>One \<open>struct file_list\<close>; the linked list is a list of them.\<close>

record file_list =
  filename :: string
  sorted_output :: "stream option"
  status :: sorting_status

definition new_files :: "string list \<Rightarrow> file_list list" where
  "new_files names = map (\<lambda>n. \<lparr>filename = n, sorted_output = None, status = SORTING_WAITING\<rparr>) names"

text \<open>
  Where a coroutine is in \<open>coroutine_func_f\<close>: at the test of its loop, with \<open>cur\<close> at some place of the list (NULL is
  the end); inside \<open>sort_file\<close>; or returned.
\<close>

datatype place = Testing nat | Sorting nat | Returned

record coroutine =
  place :: place
  cur_trace_id :: nat
  sumExecTime :: "64 word"

text \<open>
  The global \<open>trace_id\<close> of libsort.c: \<open>sort_file\<close> counts it up first of all, without giving way after a file was
  marked, and the program changes it nowhere else, so that it is the number of files that are not waiting any more.
\<close>

definition global_trace_id :: "file_list list \<Rightarrow> nat" where
  "global_trace_id fs = count_if (\<lambda>f. status f \<noteq> SORTING_WAITING) fs"

lemma global_trace_id_update: "k < length fs \<Longrightarrow> int (global_trace_id (fs[k := f])) =
    int (global_trace_id fs) - (if status (fs ! k) \<noteq> SORTING_WAITING then 1 else 0) + (if status f \<noteq> SORTING_WAITING then 1 else 0)"
  unfolding global_trace_id_def by (rule count_if_update)

lemma global_trace_id_le: "global_trace_id fs \<le> length fs"
  by (simp add: global_trace_id_def)

lemma global_trace_id_less:
  assumes "k < length fs" "status (fs ! k) = SORTING_WAITING"
  shows "global_trace_id fs < length fs"
  using global_trace_id_update[OF assms(1), of "(fs ! k)\<lparr>status := SORTING_FINISHED\<rparr>"] assms(2)
    global_trace_id_le[of "fs[k := (fs ! k)\<lparr>status := SORTING_FINISHED\<rparr>]"] by simp

text \<open>
  One round of the loop up to the call of \<open>sort_file\<close> and the trace number that this takes, which must be within
  the arrays of libsort.c; and the rest of the round after the call.
\<close>

definition coroutine_test :: "nat \<Rightarrow> coroutine \<Rightarrow> file_list list \<Rightarrow> (coroutine \<times> file_list list) option" where
  "coroutine_test cur c fs =
    (if length fs \<le> cur then Some (c\<lparr>place := Returned\<rparr>, fs)
     else if status (fs ! cur) \<noteq> SORTING_WAITING then Some (c\<lparr>place := Testing (cur + 1)\<rparr>, fs)
     else do {
       ensure (global_trace_id fs + 1 < MAX_SORTING_PROCESSES);
       Some (c\<lparr>place := Sorting cur, cur_trace_id := global_trace_id fs + 1\<rparr>,
         fs[cur := (fs ! cur)\<lparr>status := SORTING_IN_PROGRESS\<rparr>])
     })"

definition coroutine_sorted ::
    "nat \<Rightarrow> stream option \<Rightarrow> 64 word \<Rightarrow> coroutine \<Rightarrow> file_list list \<Rightarrow> coroutine \<times> file_list list" where
  "coroutine_sorted cur out fileSortTime c fs =
    (c\<lparr>place := Testing cur, sumExecTime := sumExecTime c + fileSortTime\<rparr>,
     fs[cur := (fs ! cur)\<lparr>sorted_output := out, status := SORTING_FINISHED\<rparr>])"

text \<open>
  What \<open>sort_file\<close> may return for a name, and the time it reports, when it took the trace number \<open>tid\<close> and the global
  one is \<open>n\<close> when it returns: the result of a run in some environment, that is for some readings of the clock and some
  work of the other coroutines in between, in which they have started no sort beyond the \<open>n\<close>-th.
\<close>

definition sort_returns ::
    "(string \<Rightarrow> string option) \<Rightarrow> 64 word \<Rightarrow> nat \<Rightarrow> nat \<Rightarrow> string \<Rightarrow> stream option \<Rightarrow> 64 word \<Rightarrow> bool" where
  "sort_returns disk latency tid n name out t \<longleftrightarrow> (\<exists>env s exec s'. keeps_arrays env \<and> traces_below env n \<and> arrays_ok s \<and>
     trace_id s + 1 = tid \<and> sort_file env disk latency name s = Some (out, exec, s') \<and>
     t = (case exec of None \<Rightarrow> 0 | Some e \<Rightarrow> e))"

text \<open>A step of any of the coroutines.\<close>

inductive coro_moves :: "(string \<Rightarrow> string option) \<Rightarrow> 64 word \<Rightarrow> coroutine list \<times> file_list list \<Rightarrow> coroutine list \<times> file_list list \<Rightarrow> bool"
  for disk latency where
  test: "i < length cs \<Longrightarrow> place (cs ! i) = Testing cur \<Longrightarrow> coroutine_test cur (cs ! i) fs = Some (c', fs') \<Longrightarrow>
    coro_moves disk latency (cs, fs) (cs[i := c'], fs')"
| sorted: "i < length cs \<Longrightarrow> place (cs ! i) = Sorting cur \<Longrightarrow>
    sort_returns disk latency (cur_trace_id (cs ! i)) (global_trace_id fs) (filename (fs ! cur)) out t \<Longrightarrow>
    coroutine_sorted cur out t (cs ! i) fs = (c', fs') \<Longrightarrow> coro_moves disk latency (cs, fs) (cs[i := c'], fs')"

definition coro_start :: "nat \<Rightarrow> string list \<Rightarrow> coroutine list \<times> file_list list" where
  "coro_start n names = (replicate n \<lparr>place = Testing 0, cur_trace_id = 0, sumExecTime = 0\<rparr>, new_files names)"

text \<open>
  A file in progress is being sorted by exactly one coroutine; a finished one holds what \<open>sort_file\<close> returned; and
  what a coroutine has passed is not waiting any more.
\<close>

definition passed :: "coroutine \<Rightarrow> nat \<Rightarrow> bool" where
  "passed c k \<longleftrightarrow> (case place c of Testing cur \<Rightarrow> k < cur | Sorting cur \<Rightarrow> k \<le> cur | Returned \<Rightarrow> True)"

definition sorters :: "coroutine list \<Rightarrow> nat \<Rightarrow> nat" where
  "sorters cs k = count_if (\<lambda>c. place c = Sorting k) cs"

definition was_sorted :: "(string \<Rightarrow> string option) \<Rightarrow> 64 word \<Rightarrow> nat \<Rightarrow> string \<Rightarrow> stream option \<Rightarrow> bool" where
  "was_sorted disk latency m name out \<longleftrightarrow> (\<exists>tid n t. tid \<le> n \<and> n \<le> m \<and> sort_returns disk latency tid n name out t)"

definition files_ok :: "(string \<Rightarrow> string option) \<Rightarrow> 64 word \<Rightarrow> string list \<Rightarrow> coroutine list \<Rightarrow> file_list list \<Rightarrow> bool" where
  "files_ok disk latency names cs fs \<longleftrightarrow> map filename fs = names \<and>
     (\<forall>k < length fs. sorters cs k = (if status (fs ! k) = SORTING_IN_PROGRESS then 1 else 0) \<and>
       (status (fs ! k) = SORTING_FINISHED \<longrightarrow> was_sorted disk latency (length names) (names ! k) (sorted_output (fs ! k)))) \<and>
     (\<forall>c \<in> set cs. (\<forall>k. place c = Sorting k \<longrightarrow> k < length fs \<and> 0 < cur_trace_id c \<and> cur_trace_id c \<le> global_trace_id fs) \<and>
       (\<forall>k < length fs. passed c k \<longrightarrow> status (fs ! k) \<noteq> SORTING_WAITING))"

lemma files_ok_start: "files_ok disk latency names (fst (coro_start n names)) (snd (coro_start n names))"
  by (auto simp: files_ok_def coro_start_def new_files_def sorters_def passed_def filter_empty_conv comp_def)

lemma sorters_update:
  "i < length cs \<Longrightarrow> int (sorters (cs[i := c]) k) =
    int (sorters cs k) - (if place (cs ! i) = Sorting k then 1 else 0) + (if place c = Sorting k then 1 else 0)"
  unfolding sorters_def by (rule count_if_update)

text \<open>One coroutine and one file change.\<close>

lemma files_ok_change:
  assumes ok: "files_ok disk latency names cs fs" and i: "i < length cs"
    and len: "length fs' = length fs" and names: "map filename fs' = map filename fs"
    and same: "\<And>k. k < length fs \<Longrightarrow> k \<noteq> m \<Longrightarrow> fs' ! k = fs ! k"
    and m: "m < length fs \<Longrightarrow> sorters (cs[i := c]) m = (if status (fs' ! m) = SORTING_IN_PROGRESS then 1 else 0) \<and>
      (status (fs' ! m) = SORTING_FINISHED \<longrightarrow> was_sorted disk latency (length names) (names ! m) (sorted_output (fs' ! m))) \<and>
      status (fs' ! m) \<noteq> SORTING_WAITING"
    and trace: "global_trace_id fs \<le> global_trace_id fs'"
      "\<And>k. place c = Sorting k \<Longrightarrow> 0 < cur_trace_id c \<and> cur_trace_id c \<le> global_trace_id fs'"
    and place: "\<And>k. k \<noteq> m \<Longrightarrow> place (cs ! i) \<noteq> Sorting k \<and> place c \<noteq> Sorting k" "place c = Sorting m \<Longrightarrow> m < length fs"
    and pass: "\<And>k. k < length fs \<Longrightarrow> passed c k \<Longrightarrow> passed (cs ! i) k \<or> k = m"
  shows "files_ok disk latency names (cs[i := c]) fs'"
proof -
  have old: "\<And>k. k < length fs \<Longrightarrow> sorters cs k = (if status (fs ! k) = SORTING_IN_PROGRESS then 1 else 0)"
    "\<And>k. k < length fs \<Longrightarrow> status (fs ! k) = SORTING_FINISHED \<Longrightarrow> was_sorted disk latency (length names) (names ! k) (sorted_output (fs ! k))"
    "\<And>d k. d \<in> set cs \<Longrightarrow> place d = Sorting k \<Longrightarrow> k < length fs"
    "\<And>d k. d \<in> set cs \<Longrightarrow> place d = Sorting k \<Longrightarrow> 0 < cur_trace_id d \<and> cur_trace_id d \<le> global_trace_id fs"
    "\<And>d k. d \<in> set cs \<Longrightarrow> k < length fs \<Longrightarrow> passed d k \<Longrightarrow> status (fs ! k) \<noteq> SORTING_WAITING"
    using ok by (auto simp: files_ok_def)
  have mem: "d = c \<or> d \<in> set cs" if "d \<in> set (cs[i := c])" for d
    using that set_update_subset_insert[of cs i c] by auto
  have ith: "cs ! i \<in> set cs" using i by simp
  have "sorters (cs[i := c]) k = sorters cs k" if "k \<noteq> m" for k
    using sorters_update[OF i, of c k] place(1)[OF that] by simp
  then have files: "sorters (cs[i := c]) k = (if status (fs' ! k) = SORTING_IN_PROGRESS then 1 else 0) \<and>
      (status (fs' ! k) = SORTING_FINISHED \<longrightarrow> was_sorted disk latency (length names) (names ! k) (sorted_output (fs' ! k)))" if "k < length fs" for k
    using that old(1,2) same m by (cases "k = m") simp_all
  have sorting: "k < length fs" if "d \<in> set (cs[i := c])" "place d = Sorting k" for d k
    using mem[OF that(1)] that(2) old(3) place by (cases "k = m") auto
  have numbered: "0 < cur_trace_id d \<and> cur_trace_id d \<le> global_trace_id fs'"
    if "d \<in> set (cs[i := c])" "place d = Sorting k" for d k
    using mem[OF that(1)] that(2) old(4) trace by (meson order_trans)
  have waiting: "status (fs' ! k) \<noteq> SORTING_WAITING" if "d \<in> set (cs[i := c])" "k < length fs" "passed d k" for d k
  proof (cases "k = m")
    case False
    then have "passed d k \<and> d \<in> set cs \<or> passed (cs ! i) k" using mem[OF that(1)] pass that(2,3) by blast
    then show ?thesis using old(5) ith same False that(2) by metis
  qed (use m that(2) in simp)
  show ?thesis unfolding files_ok_def
    using names len files sorting numbered waiting ok by (auto simp: files_ok_def)
qed

lemma coro_moves_ok:
  assumes "coro_moves disk latency (cs, fs) (cs', fs')" "files_ok disk latency names cs fs"
  shows "files_ok disk latency names cs' fs' \<and> length cs' = length cs"
  using assms(1)
proof cases
  case (test i cur c')
  let ?c = "cs ! i"
  have old: "k < length fs \<Longrightarrow> sorters cs k = (if status (fs ! k) = SORTING_IN_PROGRESS then 1 else 0)" for k
    using assms(2) by (simp add: files_ok_def)
  have fin: "cur < length fs \<Longrightarrow> status (fs ! cur) = SORTING_FINISHED \<Longrightarrow> was_sorted disk latency (length names) (names ! cur) (sorted_output (fs ! cur))"
    using assms(2) by (simp add: files_ok_def)
  have cnt: "int (sorters (cs[i := c']) cur) = int (sorters cs cur) + (if place c' = Sorting cur then 1 else 0)"
    using sorters_update[OF test(2), of c' cur] test(3) by simp
  have "files_ok disk latency names (cs[i := c']) fs'"
  proof (rule files_ok_change[where m = cur, OF assms(2) test(2)])
    show "length fs' = length fs" "map filename fs' = map filename fs" "\<And>k. k < length fs \<Longrightarrow> k \<noteq> cur \<Longrightarrow> fs' ! k = fs ! k"
      using test(4) by (auto simp: coroutine_test_def map_update list_update_same_conv split: if_splits bind_splits)
    show "\<And>k. k \<noteq> cur \<Longrightarrow> place ?c \<noteq> Sorting k \<and> place c' \<noteq> Sorting k" "place c' = Sorting cur \<Longrightarrow> cur < length fs"
      using test(3,4) by (auto simp: coroutine_test_def split: if_splits bind_splits)
    show "\<And>k. k < length fs \<Longrightarrow> passed c' k \<Longrightarrow> passed ?c k \<or> k = cur"
      using test(3,4) by (auto simp: coroutine_test_def passed_def split: if_splits bind_splits)
    have start: "global_trace_id fs' = global_trace_id fs + 1 \<and> cur_trace_id c' = global_trace_id fs + 1" if "place c' = Sorting k" for k
      using test(3,4) that global_trace_id_update[of cur fs "(fs ! cur)\<lparr>status := SORTING_IN_PROGRESS\<rparr>"]
      by (auto simp: coroutine_test_def split: if_splits bind_splits)
    then show "0 < cur_trace_id c' \<and> cur_trace_id c' \<le> global_trace_id fs'" if "place c' = Sorting k" for k using that by simp
    have "fs' = fs \<or> (\<exists>k. place c' = Sorting k)" using test(4) by (auto simp: coroutine_test_def split: if_splits bind_splits)
    then show "global_trace_id fs \<le> global_trace_id fs'" using start by auto
    show "sorters (cs[i := c']) cur = (if status (fs' ! cur) = SORTING_IN_PROGRESS then 1 else 0) \<and>
      (status (fs' ! cur) = SORTING_FINISHED \<longrightarrow> was_sorted disk latency (length names) (names ! cur) (sorted_output (fs' ! cur))) \<and>
      status (fs' ! cur) \<noteq> SORTING_WAITING" if "cur < length fs"
      using that test(3,4) cnt old[OF that] fin by (auto simp: coroutine_test_def split: if_splits bind_splits)
  qed
  then show ?thesis using test(1) by simp
next
  case (sorted i cur out tm c')
  let ?c = "cs ! i"
  have "?c \<in> set cs" using sorted(2) by simp
  then have cur: "cur < length fs" using assms(2) sorted(3) by (auto simp: files_ok_def)
  have old: "sorters cs cur = (if status (fs ! cur) = SORTING_IN_PROGRESS then 1 else 0)" "map filename fs = names"
    using assms(2) cur by (simp_all add: files_ok_def)
  have cnt: "int (sorters (cs[i := c']) cur) = int (sorters cs cur) - 1 + (if place c' = Sorting cur then 1 else 0)"
    using sorters_update[OF sorted(2), of c' cur] sorted(3) by simp
  have fs': "fs' = fs[cur := (fs ! cur)\<lparr>sorted_output := out, status := SORTING_FINISHED\<rparr>]"
    "place c' = Testing cur" using sorted(5) by (auto simp: coroutine_sorted_def)
  have name: "names ! cur = filename (fs ! cur)" using old(2) cur by auto
  have "sorters cs cur \<noteq> 0" using \<open>?c \<in> set cs\<close> sorted(3) by (auto simp: sorters_def filter_empty_conv)
  then have "status (fs ! cur) = SORTING_IN_PROGRESS" using old(1) by (simp split: if_splits)
  then have trace: "global_trace_id fs' = global_trace_id fs"
    using global_trace_id_update[OF cur, of "(fs ! cur)\<lparr>sorted_output := out, status := SORTING_FINISHED\<rparr>"] fs'(1) by simp
  have "cur_trace_id ?c \<le> global_trace_id fs" using assms(2) \<open>?c \<in> set cs\<close> sorted(3) by (auto simp: files_ok_def)
  moreover have "global_trace_id fs \<le> length names" using global_trace_id_le[of fs] old(2) by auto
  ultimately have was: "was_sorted disk latency (length names) (names ! cur) out"
    using sorted(4) name unfolding was_sorted_def by metis
  have "files_ok disk latency names (cs[i := c']) fs'"
  proof (rule files_ok_change[where m = cur, OF assms(2) sorted(2)])
    show "length fs' = length fs" "\<And>k. k < length fs \<Longrightarrow> k \<noteq> cur \<Longrightarrow> fs' ! k = fs ! k" using fs' by auto
    show "map filename fs' = map filename fs" using fs' cur by (simp add: map_update list_update_same_conv)
    show "\<And>k. k \<noteq> cur \<Longrightarrow> place ?c \<noteq> Sorting k \<and> place c' \<noteq> Sorting k" "place c' = Sorting cur \<Longrightarrow> cur < length fs"
      using sorted(3) fs' by auto
    show "\<And>k. k < length fs \<Longrightarrow> passed c' k \<Longrightarrow> passed ?c k \<or> k = cur"
      using sorted(3) fs' by (auto simp: passed_def)
    show "sorters (cs[i := c']) cur = (if status (fs' ! cur) = SORTING_IN_PROGRESS then 1 else 0) \<and>
      (status (fs' ! cur) = SORTING_FINISHED \<longrightarrow> was_sorted disk latency (length names) (names ! cur) (sorted_output (fs' ! cur))) \<and>
      status (fs' ! cur) \<noteq> SORTING_WAITING"
      using cnt old cur fs' was by (auto split: if_splits)
    show "global_trace_id fs \<le> global_trace_id fs'" using trace by simp
    show "0 < cur_trace_id c' \<and> cur_trace_id c' \<le> global_trace_id fs'" if "place c' = Sorting k" for k using that fs' by simp
  qed
  then show ?thesis using sorted(1) by simp
qed

definition all_returned :: "coroutine list \<Rightarrow> bool" where
  "all_returned cs \<longleftrightarrow> (\<forall>c \<in> set cs. place c = Returned)"

lemma all_returned_finished:
  assumes ok: "files_ok disk latency names cs fs" and cs: "cs \<noteq> []" "all_returned cs" and k: "k < length fs"
  shows "status (fs ! k) = SORTING_FINISHED \<and> was_sorted disk latency (length names) (names ! k) (sorted_output (fs ! k))"
proof -
  have "sorters cs k = 0" using cs(2) by (auto simp: all_returned_def sorters_def filter_empty_conv)
  moreover have "status (fs ! k) \<noteq> SORTING_WAITING"
    using ok cs k by (cases cs) (auto simp: files_ok_def all_returned_def passed_def)
  ultimately show ?thesis using ok k by (cases "status (fs ! k)") (auto simp: files_ok_def)
qed

text \<open>Each step of a coroutine makes progress.\<close>

definition place_weight :: "nat \<Rightarrow> coroutine \<Rightarrow> nat" where
  "place_weight n c = (case place c of Testing cur \<Rightarrow> 2 * (n - cur) + 1 | Sorting cur \<Rightarrow> 2 * (n - cur) + 2 | Returned \<Rightarrow> 0)"

definition coro_work :: "coroutine list \<Rightarrow> file_list list \<Rightarrow> nat" where
  "coro_work cs fs = sum_list (map (place_weight (length fs)) cs) + 2 * count_if (\<lambda>f. status f = SORTING_WAITING) fs"

lemma coro_moves_work:
  assumes "coro_moves disk latency (cs, fs) (cs', fs')" "files_ok disk latency names cs fs"
  shows "coro_work cs' fs' < coro_work cs fs"
  using assms(1)
proof cases
  case (test i cur c')
  have sum_w: "sum_list (map (place_weight (length fs)) (cs[i := c'])) + place_weight (length fs) (cs ! i) =
      sum_list (map (place_weight (length fs)) cs) + place_weight (length fs) c'"
    by (rule sum_list_upd[OF test(2)])
  have w: "place_weight (length fs) (cs ! i) = 2 * (length fs - cur) + 1" using test(3) by (simp add: place_weight_def)
  consider "length fs \<le> cur" | "cur < length fs" "status (fs ! cur) \<noteq> SORTING_WAITING"
    | "cur < length fs" "status (fs ! cur) = SORTING_WAITING" by linarith
  then show ?thesis
  proof cases
    case 1
    then show ?thesis using test sum_w w by (auto simp: coro_work_def coroutine_test_def place_weight_def)
  next
    case 2
    then show ?thesis using test sum_w w by (auto simp: coro_work_def coroutine_test_def place_weight_def)
  next
    case 3
    then have c': "place c' = Sorting cur" "fs' = fs[cur := (fs ! cur)\<lparr>status := SORTING_IN_PROGRESS\<rparr>]"
      using test(4) by (auto simp: coroutine_test_def split: bind_splits)
    have "int (count_if (\<lambda>f. status f = SORTING_WAITING) fs') = int (count_if (\<lambda>f. status f = SORTING_WAITING) fs) - 1"
      using count_if_update[OF 3(1), of "\<lambda>f. status f = SORTING_WAITING"] 3(2) by (simp add: c'(2))
    then show ?thesis using sum_w w test(1) c' by (simp add: coro_work_def place_weight_def)
  qed
next
  case (sorted i cur out tm c')
  have sum_w: "sum_list (map (place_weight (length fs)) (cs[i := c'])) + place_weight (length fs) (cs ! i) =
      sum_list (map (place_weight (length fs)) cs) + place_weight (length fs) c'"
    by (rule sum_list_upd[OF sorted(2)])
  have "cs ! i \<in> set cs" using sorted(2) by simp
  then have cur: "cur < length fs" using assms(2) sorted(3) by (auto simp: files_ok_def)
  have c': "c' = (cs ! i)\<lparr>place := Testing cur, sumExecTime := sumExecTime (cs ! i) + tm\<rparr>"
    "fs' = fs[cur := (fs ! cur)\<lparr>sorted_output := out, status := SORTING_FINISHED\<rparr>]"
    using sorted(5) by (auto simp: coroutine_sorted_def)
  have "sorters cs cur \<noteq> 0" using \<open>cs ! i \<in> set cs\<close> sorted(3) by (auto simp: sorters_def filter_empty_conv)
  then have "status (fs ! cur) = SORTING_IN_PROGRESS" using assms(2) cur by (auto simp: files_ok_def split: if_splits)
  then have "int (count_if (\<lambda>f. status f = SORTING_WAITING) fs') = int (count_if (\<lambda>f. status f = SORTING_WAITING) fs)"
    using count_if_update[OF cur, of "\<lambda>f. status f = SORTING_WAITING"] by (simp add: c'(2))
  then show ?thesis using sum_w sorted(1,3) c' by (simp add: coro_work_def place_weight_def)
qed

lemma coro_run_ok:
  assumes "(coro_moves disk latency ^^ n) (cs, fs) (cs', fs')" "files_ok disk latency names cs fs"
  shows "files_ok disk latency names cs' fs' \<and> length cs' = length cs \<and> coro_work cs' fs' + n \<le> coro_work cs fs"
  using assms(1)
proof (induction n arbitrary: cs' fs')
  case (Suc n)
  then obtain cs1 fs1 where s1: "(coro_moves disk latency ^^ n) (cs, fs) (cs1, fs1)" "coro_moves disk latency (cs1, fs1) (cs', fs')" by auto
  from Suc.IH[OF s1(1)] have ih: "files_ok disk latency names cs1 fs1" "length cs1 = length cs" "coro_work cs1 fs1 + n \<le> coro_work cs fs"
    by auto
  then show ?case using coro_moves_ok[OF s1(2) ih(1)] coro_moves_work[OF s1(2) ih(1)] by simp
qed (simp add: assms(2))

text \<open>No two sorts that are under way have the same trace number, so that none touches another's times.\<close>

definition traces_distinct :: "coroutine list \<Rightarrow> bool" where
  "traces_distinct cs \<longleftrightarrow> (\<forall>i < length cs. \<forall>j < length cs. \<forall>k m. i \<noteq> j \<longrightarrow> place (cs ! i) = Sorting k \<longrightarrow>
     place (cs ! j) = Sorting m \<longrightarrow> cur_trace_id (cs ! i) \<noteq> cur_trace_id (cs ! j))"

lemma traces_distinct_update:
  assumes "traces_distinct cs" "\<And>c k m. c \<in> set cs \<Longrightarrow> place c = Sorting k \<Longrightarrow> place c' = Sorting m \<Longrightarrow> cur_trace_id c \<noteq> cur_trace_id c'"
  shows "traces_distinct (cs[i := c'])"
  unfolding traces_distinct_def
proof (intro allI impI)
  fix a b k m assume "a < length (cs[i := c'])" "b < length (cs[i := c'])" "a \<noteq> b"
    "place (cs[i := c'] ! a) = Sorting k" "place (cs[i := c'] ! b) = Sorting m"
  then show "cur_trace_id (cs[i := c'] ! a) \<noteq> cur_trace_id (cs[i := c'] ! b)"
    using assms(1) assms(2)[OF nth_mem, of a k m] assms(2)[OF nth_mem, of b m k]
    by (cases "a = i"; cases "b = i") (auto simp: traces_distinct_def)
qed

lemma coro_moves_traces:
  assumes "coro_moves disk latency (cs, fs) (cs', fs')" "files_ok disk latency names cs fs" "traces_distinct cs"
  shows "traces_distinct cs'"
  using assms(1)
proof cases
  case (test i cur c')
  have "cur_trace_id c \<noteq> cur_trace_id c'" if "c \<in> set cs" "place c = Sorting k" "place c' = Sorting m" for c k m
  proof -
    have "cur_trace_id c \<le> global_trace_id fs" using assms(2) that(1,2) by (auto simp: files_ok_def)
    moreover have "cur_trace_id c' = global_trace_id fs + 1"
      using test(3,4) that(3) by (auto simp: coroutine_test_def split: if_splits bind_splits)
    ultimately show ?thesis by simp
  qed
  then show ?thesis using traces_distinct_update[OF assms(3), of c' i] test(1) by blast
next
  case (sorted i cur out tm c')
  then have "place c' = Testing cur" by (auto simp: coroutine_sorted_def)
  then show ?thesis using traces_distinct_update[OF assms(3), of c' i] sorted(1) by simp
qed

lemma coro_run_traces:
  assumes "(coro_moves disk latency ^^ n) (cs, fs) (cs', fs')" "files_ok disk latency names cs fs"
  shows "traces_distinct cs \<longrightarrow> traces_distinct cs'"
  using assms(1)
proof (induction n arbitrary: cs' fs')
  case (Suc n)
  then obtain cs1 fs1 where s1: "(coro_moves disk latency ^^ n) (cs, fs) (cs1, fs1)" "coro_moves disk latency (cs1, fs1) (cs', fs')" by auto
  from coro_run_ok[OF s1(1) assms(2)] have "files_ok disk latency names cs1 fs1" by simp
  then show ?case using Suc.IH[OF s1(1)] coro_moves_traces[OF s1(2)] by blast
qed simp

subsection \<open>The merge into output.txt\<close>

record merge_state =
  files :: "stream list"
  file_lens :: "nat list"
  cur_value :: "int list"

text \<open>The file that supplies the next number: the first one with the least current number.\<close>

primrec pick_loop :: "nat \<Rightarrow> nat \<Rightarrow> merge_state \<Rightarrow> int \<times> nat \<Rightarrow> (int \<times> nat) option" where
  "pick_loop 0 i m best = Some best"
| "pick_loop (Suc n) i m best = do {
     len \<leftarrow> slot (file_lens m) i;
     if len = 0 then pick_loop n (i + 1) m best
     else do {
       v \<leftarrow> slot (cur_value m) i;
       pick_loop n (i + 1) m
         (if snd best = length (files m) + 1 \<or> v < fst best then (v, i) else best)
     }
   }"

definition merge_round :: "merge_state \<Rightarrow> stream \<Rightarrow> (merge_state \<times> stream) option" where
  "merge_round m output = do {
     (to_write, idx) \<leftarrow> pick_loop (length (files m)) 0 m (2 ^ 31 - 1, length (files m) + 1);
     let output = fprintf (show_int to_write @ '' '') output;
     f \<leftarrow> slot (files m) idx;
     old \<leftarrow> slot (cur_value m) idx;
     (v, f) \<leftarrow> fscanf f (Some old);
     v \<leftarrow> v;
     len \<leftarrow> slot (file_lens m) idx;
     Some (m\<lparr>files := (files m)[idx := f], cur_value := (cur_value m)[idx := v],
       file_lens := (file_lens m)[idx := len - 1]\<rparr>, output)
   }"

partial_function (option) merge_rounds :: "merge_state \<Rightarrow> stream \<Rightarrow> stream option" where
  "merge_rounds m output = do {
     (m, output) \<leftarrow> merge_round m output;
     if \<forall>len \<in> set (file_lens m). len = 0 then Some output else merge_rounds m output
   }"

text \<open>Taking the files off the list: each must be finished, and there.\<close>

primrec collect_files :: "file_list list \<Rightarrow> (stream list \<times> nat list) option" where
  "collect_files [] = Some ([], [])"
| "collect_files (cur # rest) = do {
     ensure (status cur = SORTING_FINISHED);
     f \<leftarrow> sorted_output cur;
     let (n, f) = count_numbers_in_file (rewind f);
     (fs, lens) \<leftarrow> collect_files rest;
     Some (rewind f # fs, n # lens)
   }"

primrec first_values :: "stream list \<Rightarrow> (stream list \<times> int list) option" where
  "first_values [] = Some ([], [])"
| "first_values (f # rest) = do {
     (v, f) \<leftarrow> fscanf f (Some 0);
     v \<leftarrow> v;
     (fs, vs) \<leftarrow> first_values rest;
     Some (f # fs, v # vs)
   }"

text \<open>\<open>main\<close> after the coroutines: the result is the text of \<open>output.txt\<close>.\<close>

definition merge_outputs :: "file_list list \<Rightarrow> stream option" where
  "merge_outputs fs = do {
     (files, lens) \<leftarrow> collect_files fs;
     (files, vals) \<leftarrow> first_values files;
     merge_rounds \<lparr>files = files, file_lens = lens, cur_value = vals\<rparr> tmpfile
   }"

subsection \<open>The merge is a merge\<close>

text \<open>The numbers that the files still have to supply.\<close>

definition supplies :: "merge_state \<Rightarrow> int list list \<Rightarrow> bool" where
  "supplies m zss \<longleftrightarrow> length (files m) = length zss \<and> file_lens m = map length zss \<and> length (cur_value m) = length zss \<and>
     (\<forall>i < length zss. holds (tl (zss ! i)) (after (files m ! i)) \<and> sorted (zss ! i) \<and>
       (zss ! i \<noteq> [] \<longrightarrow> cur_value m ! i = hd (zss ! i)))"

definition best_of :: "int list list \<Rightarrow> nat \<Rightarrow> int \<times> nat \<Rightarrow> bool" where
  "best_of zss i best \<longleftrightarrow> (case best of (v, k) \<Rightarrow>
     (k = length zss + 1 \<and> (\<forall>j < i. zss ! j = [])) \<or>
     (k < length zss \<and> zss ! k \<noteq> [] \<and> v = hd (zss ! k) \<and> (\<forall>j < i. zss ! j \<noteq> [] \<longrightarrow> v \<le> hd (zss ! j))))"

lemma pick_loop_ok:
  assumes sup: "supplies m zss"
  shows "i + n = length zss \<Longrightarrow> best_of zss i best \<Longrightarrow>
    \<exists>best'. pick_loop n i m best = Some best' \<and> best_of zss (length zss) best'"
proof (induction n arbitrary: i best)
  case (Suc n)
  have i: "i < length zss" using Suc.prems(1) by simp
  have m: "slot (file_lens m) i = Some (length (zss ! i))" "slot (cur_value m) i = Some (cur_value m ! i)"
    "length (files m) = length zss" "zss ! i \<noteq> [] \<Longrightarrow> cur_value m ! i = hd (zss ! i)"
    using sup i by (auto simp: supplies_def)
  have step: "best_of zss (i + 1) (if zss ! i = [] then best
      else if snd best = length (files m) + 1 \<or> hd (zss ! i) < fst best then (hd (zss ! i), i) else best)"
    using Suc.prems(2) i m(3) by (auto simp: best_of_def less_Suc_eq split: prod.splits intro: order_trans)
  show ?case
  proof (cases "zss ! i = []")
    case True
    then show ?thesis using Suc.IH[OF _ step] Suc.prems(1) m by simp
  next
    case False
    then show ?thesis using Suc.IH[OF _ step] Suc.prems(1) m by (auto simp: m(4))
  qed
qed simp

text \<open>One round prints the least number and takes it off its file.\<close>

lemma merge_round_ok:
  assumes sup: "supplies m zss" and some: "\<exists>zs \<in> set zss. zs \<noteq> []"
  shows "\<exists>m' k z zs. merge_round m outp = Some (m', fprintf (show_int z @ '' '') outp) \<and>
    k < length zss \<and> zss ! k = z # zs \<and> supplies m' (zss[k := zs]) \<and> (\<forall>xs \<in> set zss. \<forall>x \<in> set xs. z \<le> x)"
proof -
  have len: "length (files m) = length zss" using sup by (simp add: supplies_def)
  have "best_of zss 0 (2 ^ 31 - 1, length zss + 1)" by (simp add: best_of_def)
  from pick_loop_ok[OF sup _ this, of "length zss"] obtain v k where
    pick: "pick_loop (length (files m)) 0 m (2 ^ 31 - 1, length (files m) + 1) = Some (v, k)"
    and best: "best_of zss (length zss) (v, k)" by (auto simp: len)
  have k: "k < length zss" "zss ! k \<noteq> []" "v = hd (zss ! k)" "\<And>j. j < length zss \<Longrightarrow> zss ! j \<noteq> [] \<Longrightarrow> v \<le> hd (zss ! j)"
    using best some by (auto simp: best_of_def in_set_conv_nth)
  define zs where "zs = tl (zss ! k)"
  have zk: "zss ! k = v # zs" using k(2,3) by (simp add: zs_def)
  have m: "holds zs (after (files m ! k))" "file_lens m = map length zss" "cur_value m ! k = v" "length (cur_value m) = length zss"
    using sup k by (auto simp: supplies_def zs_def)
  obtain f where f: "fscanf (files m ! k) (Some v) = Some (scanned (Some v) zs, f)" "holds (tl zs) (after f)"
    by (rule fscanf_holds[OF m(1)])
  obtain w where w: "scanned (Some v) zs = Some w" "zs \<noteq> [] \<longrightarrow> w = hd zs" by (cases zs) auto
  let ?m = "m\<lparr>files := (files m)[k := f], cur_value := (cur_value m)[k := w], file_lens := (file_lens m)[k := length (zss ! k) - 1]\<rparr>"
  have "merge_round m outp = Some (?m, fprintf (show_int v @ '' '') outp)"
    using pick f(1) w(1) m k len by (simp add: merge_round_def)
  moreover have "supplies ?m (zss[k := zs])"
  proof -
    have "sorted zs" using sup k(1) zk by (metis sorted_simps(2) supplies_def)
    then have at_k: "holds (tl zs) (after f) \<and> sorted zs \<and> (zs \<noteq> [] \<longrightarrow> w = hd zs)" using f(2) w(2) by simp
    have old: "\<forall>i < length zss. holds (tl (zss ! i)) (after (files m ! i)) \<and> sorted (zss ! i) \<and>
        (zss ! i \<noteq> [] \<longrightarrow> cur_value m ! i = hd (zss ! i))" using sup by (simp add: supplies_def)
    have "holds (tl (zss[k := zs] ! i)) (after ((files m)[k := f] ! i)) \<and> sorted (zss[k := zs] ! i) \<and>
        (zss[k := zs] ! i \<noteq> [] \<longrightarrow> (cur_value m)[k := w] ! i = hd (zss[k := zs] ! i))" if "i < length zss" for i
      using that at_k old len m(4) by (cases "i = k") simp_all
    then show ?thesis using len m(2,4) zk by (simp add: supplies_def map_update)
  qed
  moreover have "v \<le> x" if "xs \<in> set zss" "x \<in> set xs" for xs x
  proof -
    obtain j where j: "j < length zss" "zss ! j = xs" using \<open>xs \<in> set zss\<close> by (auto simp: in_set_conv_nth)
    have "xs \<noteq> []" "sorted xs" using that(2) sup j by (auto simp: supplies_def)
    then have "hd xs \<le> x" using that(2) by (cases xs) auto
    then show ?thesis using k(4)[OF j(1)] j(2) \<open>xs \<noteq> []\<close> by simp
  qed
  ultimately show ?thesis using k(1) zk by blast
qed

lemma sum_mset_update:
  "k < length zss \<Longrightarrow> zss ! k = z # zs \<Longrightarrow>
   sum_list (map mset zss) = add_mset z (sum_list (map mset (zss[k := zs])))"
proof (induction zss arbitrary: k)
  case (Cons ys zss)
  then show ?case by (cases k) simp_all
qed simp

lemma sum_mset_empty: "\<forall>zs \<in> set zss. zs = [] \<Longrightarrow> sum_list (map mset zss) = {#}"
  by (induction zss) auto

lemma merge_rounds_ok:
  assumes "supplies m zss" "\<exists>zs \<in> set zss. zs \<noteq> []" "after outp = []"
  shows "\<exists>out zs. merge_rounds m outp = Some out \<and> before out = before outp @ print_open zs \<and> after out = [] \<and>
    sorted zs \<and> mset zs = sum_list (map mset zss)"
  using assms
proof (induction "sum_list (map length zss)" arbitrary: m zss outp rule: less_induct)
  case less
  from merge_round_ok[OF less.prems(1,2), of outp] obtain m' k z zs where
    round: "merge_round m outp = Some (m', fprintf (show_int z @ '' '') outp)" and k: "k < length zss" "zss ! k = z # zs"
    and sup: "supplies m' (zss[k := zs])" and least: "\<forall>xs \<in> set zss. \<forall>x \<in> set xs. z \<le> x" by blast
  let ?zss = "zss[k := zs]" let ?out = "fprintf (show_int z @ '' '') outp"
  have total: "sum_list (map mset zss) = add_mset z (sum_list (map mset ?zss))" by (rule sum_mset_update[OF k])
  have lens: "file_lens m' = map length ?zss" using sup by (simp add: supplies_def)
  have out: "after ?out = []" "before ?out = before outp @ print_open [z]" using less.prems(3) by simp_all
  have fin: "(\<forall>len \<in> set (file_lens m'). len = 0) \<longleftrightarrow> \<not> (\<exists>zs \<in> set ?zss. zs \<noteq> [])" unfolding lens by auto
  show ?case
  proof (cases "\<exists>zs \<in> set ?zss. zs \<noteq> []")
    case False
    have run: "merge_rounds m outp = Some ?out" using round fin False by (subst merge_rounds.simps) simp
    have "sum_list (map mset ?zss) = {#}" using False by (intro sum_mset_empty) blast
    then show ?thesis using run total out by (intro exI[of _ ?out] exI[of _ "[z]"]) simp
  next
    case True
    have "sum_list (map length ?zss) < sum_list (map length zss)"
      using sum_list_upd[OF k(1), of length zs] k(2) by simp
    from less.hyps[OF this sup True out(1)] obtain out' ys where
      ys: "merge_rounds m' ?out = Some out'" "before out' = before ?out @ print_open ys" "after out' = []"
      "sorted ys" "mset ys = sum_list (map mset ?zss)" by blast
    have run: "merge_rounds m outp = Some out'" using round fin True ys(1) by (subst merge_rounds.simps) auto
    have "z \<le> y" if "y \<in> set ys" for y
    proof -
      have "y \<in># sum_list (map mset ?zss)" using that ys(5) by (metis set_mset_mset)
      then have "y \<in># sum_list (map mset zss)" using total by simp
      then obtain xs where "xs \<in> set zss" "y \<in> set xs" by auto
      then show ?thesis using least by blast
    qed
    then show ?thesis using run ys total out(2)
      by (intro exI[of _ out'] exI[of _ "z # ys"]) (simp add: print_open_def)
  qed
qed

subsection \<open>The whole program\<close>

definition sorted_entry :: "file_list \<Rightarrow> int list \<Rightarrow> bool" where
  "sorted_entry f zs \<longleftrightarrow> status f = SORTING_FINISHED \<and> zs \<noteq> [] \<and> sorted zs \<and> list_all is_int zs \<and>
     (\<exists>out. sorted_output f = Some out \<and> contents out = print_nums zs)"

lemma collect_files_ok:
  "list_all2 sorted_entry fs zss \<Longrightarrow> \<exists>ss. collect_files fs = Some (ss, map length zss) \<and>
     list_all2 (\<lambda>s zs. holds zs (after s) \<and> zs \<noteq> [] \<and> sorted zs) ss zss"
proof (induction rule: list_all2_induct)
  case (Cons f fs zs zss)
  then obtain ss out where ss: "collect_files fs = Some (ss, map length zss)"
    "list_all2 (\<lambda>s zs. holds zs (after s) \<and> zs \<noteq> [] \<and> sorted zs) ss zss"
    and f: "sorted_output f = Some out" "contents out = print_nums zs" "status f = SORTING_FINISHED" "zs \<noteq> []" "sorted zs" "list_all is_int zs"
    by (auto simp: sorted_entry_def)
  have "count_numbers_in_file (rewind out) = (length zs, rewind out)"
    using count_numbers_text[of "rewind out"] f(2,4) print_nums_chars number_count_print by simp
  then show ?case using ss f holds_print[OF f(6)] by simp
qed simp

lemma first_values_ok:
  "list_all2 (\<lambda>s zs. holds zs (after s) \<and> zs \<noteq> [] \<and> sorted zs) ss zss \<Longrightarrow>
   \<exists>ss' vals. first_values ss = Some (ss', vals) \<and> supplies \<lparr>files = ss', file_lens = map length zss, cur_value = vals\<rparr> zss"
proof (induction rule: list_all2_induct)
  case (Cons s ss zs zss)
  then obtain ss' vals where ih: "first_values ss = Some (ss', vals)"
    "supplies \<lparr>files = ss', file_lens = map length zss, cur_value = vals\<rparr> zss" by blast
  obtain z ys where zs: "zs = z # ys" using Cons.hyps(1) by (cases zs) auto
  obtain s' where s': "fscanf s (Some 0) = Some (Some z, s')" "holds ys (after s')"
    by (rule fscanf_holds[of zs s "Some 0"]) (use Cons.hyps(1) zs in auto)
  have "supplies \<lparr>files = s' # ss', file_lens = map length (zs # zss), cur_value = z # vals\<rparr> (zs # zss)"
    using ih(2) s'(2) zs Cons.hyps(1) by (auto simp: supplies_def less_Suc_eq_0_disj)
  then show ?case using ih(1) s'(1) by simp
qed (simp add: supplies_def)

lemma merge_outputs_ok:
  assumes "list_all2 sorted_entry fs zss" "fs \<noteq> []"
  shows "\<exists>out zs. merge_outputs fs = Some out \<and> contents out = print_open zs \<and> sorted zs \<and> mset zs = sum_list (map mset zss)"
proof -
  obtain ss where ss: "collect_files fs = Some (ss, map length zss)"
    "list_all2 (\<lambda>s zs. holds zs (after s) \<and> zs \<noteq> [] \<and> sorted zs) ss zss" using collect_files_ok[OF assms(1)] by blast
  obtain ss' vals where vals: "first_values ss = Some (ss', vals)"
    "supplies \<lparr>files = ss', file_lens = map length zss, cur_value = vals\<rparr> zss" using first_values_ok[OF ss(2)] by blast
  obtain f fs' zs zss' where "fs = f # fs'" "zss = zs # zss'" "zs \<noteq> []"
    using assms by (cases fs; cases zss) (auto simp: sorted_entry_def)
  then have "\<exists>zs \<in> set zss. zs \<noteq> []" by simp
  from merge_rounds_ok[OF vals(2) this, of tmpfile] obtain out ys where
    "merge_rounds \<lparr>files = ss', file_lens = map length zss, cur_value = vals\<rparr> tmpfile = Some out"
    "before out = print_open ys" "after out = []" "sorted ys" "mset ys = sum_list (map mset zss)" by auto
  then show ?thesis using ss(1) vals(1) by (intro exI[of _ out] exI[of _ ys]) (simp add: merge_outputs_def contents_def)
qed

lemma sort_returns_good:
  assumes "was_sorted disk latency m name out" "m < MAX_SORTING_PROCESSES" "good_file disk name xs"
    "status f = SORTING_FINISHED" "sorted_output f = out"
  shows "sorted_entry f (sort xs)"
proof -
  from assms(1) obtain tid n t env s exec s' where env: "keeps_arrays env" "arrays_ok s" "traces_below env n" "n \<le> m"
    "trace_id s + 1 = tid" "tid \<le> n" "sort_file env disk latency name s = Some (out, exec, s')"
    by (auto simp: was_sorted_def sort_returns_def)
  have "n < MAX_SORTING_PROCESSES" "trace_id s < n" using env(4-6) assms(2) by simp_all
  from sort_file_good[OF env(1-3) this assms(3), of latency] env(7) obtain g where
    "out = Some g" "before g = []" "after g = print_nums (sort xs)" by auto
  moreover have "sort xs \<noteq> []" using good_file_nonempty[OF assms(3)] by (metis length_0_conv length_sort)
  ultimately show ?thesis using assms(4,5) good_file_ints[OF assms(3)]
    by (auto simp: sorted_entry_def contents_def list_all_iff)
qed

lemma coro_run_end:
  assumes run: "(coro_moves disk latency ^^ n) (coro_start pool names) (cs, fs)" and pool: "0 < pool" and fin: "all_returned cs"
    and few: "length names < MAX_SORTING_PROCESSES" and good: "list_all2 (good_file disk) names xss"
  shows "list_all2 sorted_entry fs (map sort xss)"
proof -
  obtain cs0 fs0 where start: "coro_start pool names = (cs0, fs0)" by (cases "coro_start pool names")
  have ok0: "files_ok disk latency names cs0 fs0" using files_ok_start[of disk latency names pool] start by simp
  have "length cs0 = pool" using start by (auto simp: coro_start_def)
  with coro_run_ok[OF run[unfolded start] ok0] pool have ok: "files_ok disk latency names cs fs" and cs: "cs \<noteq> []" by auto
  have len: "length fs = length names" using ok by (auto simp: files_ok_def)
  have lenx: "length xss = length names" using good by (metis list_all2_lengthD)
  have "sorted_entry (fs ! k) (map sort xss ! k)" if k: "k < length fs" for k
  proof -
    have "status (fs ! k) = SORTING_FINISHED" "was_sorted disk latency (length names) (names ! k) (sorted_output (fs ! k))"
      using all_returned_finished[OF ok cs fin k] by simp_all
    moreover have "good_file disk (names ! k) (xss ! k)" using good k len by (simp add: list_all2_conv_all_nth)
    ultimately show ?thesis using sort_returns_good[OF _ few, of disk latency "names ! k" _ "xss ! k" "fs ! k"] k len lenx by simp
  qed
  then show ?thesis using len lenx by (simp add: list_all2_conv_all_nth)
qed

lemma good_file_returns:
  assumes "good_file disk name xs" "0 < tid" "tid \<le> n" "n < MAX_SORTING_PROCESSES"
  shows "\<exists>out t. sort_returns disk latency tid n name out t"
proof -
  define env where "env = \<lparr>clock = (\<lambda>n. (0, 0)), coro_yield = (\<lambda>s. s)\<rparr>"
  define s where "s = \<lparr>trace_id = tid - 1, last_yield_time = replicate MAX_SORTING_PROCESSES 0,
    sum_exec_time = replicate MAX_SORTING_PROCESSES 0, target_latency = 0, ctx_switch_count = 0, clock_reads = 0\<rparr>"
  have pre: "keeps_arrays env" "arrays_ok s" "traces_below env n" "n < MAX_SORTING_PROCESSES" "trace_id s < n"
    using assms(2-4) by (simp_all add: keeps_arrays_def traces_below_def env_def arrays_ok_def s_def)
  have "trace_id s + 1 = tid" using assms(2) by (simp add: s_def)
  then show ?thesis using sort_file_good[OF pre assms(1), of latency] pre unfolding sort_returns_def by blast
qed

lemma coroutine_test_runs: "length fs < MAX_SORTING_PROCESSES \<Longrightarrow> \<exists>c' fs'. coroutine_test cur c fs = Some (c', fs')"
  using global_trace_id_less[of cur fs] by (auto simp: coroutine_test_def)

text \<open>A coroutine that has not returned can go on, if the files can be sorted.\<close>

lemma coro_can_move:
  assumes ok: "files_ok disk latency names cs fs" and going: "\<not> all_returned cs" and few: "length names < MAX_SORTING_PROCESSES"
    and good: "list_all2 (good_file disk) names xss"
  shows "\<exists>st. coro_moves disk latency (cs, fs) st"
proof -
  obtain i where i: "i < length cs" "place (cs ! i) \<noteq> Returned" using going by (auto simp: all_returned_def in_set_conv_nth)
  show ?thesis
  proof (cases "place (cs ! i)")
    case (Testing cur)
    have "length fs = length names" using ok by (auto simp: files_ok_def)
    from coroutine_test_runs[of fs cur "cs ! i"] this few obtain c' fs' where
      "coroutine_test cur (cs ! i) fs = Some (c', fs')" by auto
    then show ?thesis using coro_moves.test[OF i(1) Testing] by blast
  next
    case (Sorting cur)
    have cur: "cur < length fs" "map filename fs = names" "0 < cur_trace_id (cs ! i)" "cur_trace_id (cs ! i) \<le> global_trace_id fs"
      using ok i(1) Sorting by (auto simp: files_ok_def)
    then have good_cur: "good_file disk (filename (fs ! cur)) (xss ! cur)" using good by (auto simp: list_all2_conv_all_nth)
    have "global_trace_id fs < MAX_SORTING_PROCESSES" using global_trace_id_le[of fs] cur(2) few by auto
    from good_file_returns[OF good_cur cur(3,4) this] obtain out t where
      out: "sort_returns disk latency (cur_trace_id (cs ! i)) (global_trace_id fs) (filename (fs ! cur)) out t" by blast
    obtain c' fs' where "coroutine_sorted cur out t (cs ! i) fs = (c', fs')" by (cases "coroutine_sorted cur out t (cs ! i) fs")
    then show ?thesis using coro_moves.sorted[OF i(1) Sorting out] by blast
  qed (use i(2) in simp)
qed

lemma coro_start_work: "coro_work (fst (coro_start pool names)) (snd (coro_start pool names)) =
    pool * (2 * length names + 1) + 2 * length names"
  by (simp add: coro_work_def coro_start_def new_files_def place_weight_def sum_list_replicate filter_map comp_def)

end
