(* ===== verification/Sort_Props.thy ===== *)
theory Sort_Props imports Sort_Main begin

text \<open>
  Properties of Assignment_1: what the sort of one file and the whole program put out, and where the
  code goes wrong.
\<close>

subsection \<open>Small values for the witnesses\<close>

definition demo_env :: environment where
  "demo_env = \<lparr>clock = (\<lambda>n. (0, 5000 * of_nat n)), coro_yield = (\<lambda>s. s)\<rparr>"

definition demo_state :: sort_state where
  "demo_state = \<lparr>trace_id = 0, last_yield_time = replicate MAX_SORTING_PROCESSES 0,
     sum_exec_time = replicate MAX_SORTING_PROCESSES 0, target_latency = 0, ctx_switch_count = 0, clock_reads = 0\<rparr>"

definition demo_disk :: "int list \<Rightarrow> string \<Rightarrow> string option" where
  "demo_disk xs = [''a'' \<mapsto> print_nums xs]"

lemma demo_env_ok: "keeps_arrays demo_env" "arrays_ok demo_state" "trace_id demo_state + 1 < MAX_SORTING_PROCESSES"
  by (simp_all add: keeps_arrays_def demo_env_def arrays_ok_def demo_state_def)

lemma demo_env_traces: "traces_below demo_env n"
  by (simp add: traces_below_def demo_env_def)

lemma demo_good:
  "list_all is_int xs \<Longrightarrow> xs \<noteq> [] \<Longrightarrow> length xs \<le> 2 * MAX_NUMBERS_LOADED \<Longrightarrow> good_file (demo_disk xs) ''a'' xs"
  by (simp add: good_file_def demo_disk_def print_nums_chars holds_print number_count_print)

subsection \<open>Numbers in files\<close>

text \<open>
  C33. What is printed is read back: when the code's loop has written the numbers of an array to a new file, all but the
  last with a space after it, and the last one by itself, then \<open>count_numbers_in_file\<close> counts as many numbers as the array has,
  reading the file into an array gives the same numbers, and copying it with \<open>transfer_numbers\<close> gives the same file.
\<close>

theorem numbers_roundtrip:
  assumes "list_all is_int xs" "xs \<noteq> []"
  shows "\<exists>out f. write_loop (length xs - 1) 0 xs tmpfile = Some out \<and> f = fprintf (show_int (xs ! (length xs - 1))) out \<and>
    count_numbers_in_file (rewind f) = (length xs, rewind f) \<and>
    (\<exists>f'. read_loop (length xs) 0 (rewind f) (replicate (length xs) 0) = Some (xs, f')) \<and>
    (\<exists>f' g. transfer_numbers (rewind f) tmpfile (length xs) = Some (f', g) \<and> contents g = contents f)"
proof -
  have len: "0 + (length xs - 1) \<le> length xs" "length xs - 1 < length xs" using assms(2) by simp_all
  obtain out where out: "write_loop (length xs - 1) 0 xs tmpfile = Some out" "before out = print_open (take (length xs - 1) xs)"
    "after out = []" using write_loop_ok[OF len(1), of tmpfile] by auto
  define f where "f = fprintf (show_int (xs ! (length xs - 1))) out"
  have "take (length xs - 1) xs @ [xs ! (length xs - 1)] = xs"
    using assms(2) len(2) by (metis Suc_pred' length_greater_0_conv take_Suc_conv_app_nth take_all_iff le_refl)
  then have f: "contents f = print_nums xs" "before f = print_nums xs" "after f = []"
    using out(2,3) by (simp_all add: f_def print_open_last contents_def)
  have holds: "holds xs (after (rewind f))" using assms(1) f(1) holds_print by simp
  obtain f' g where "transfer_numbers (rewind f) tmpfile (length xs) = Some (f', g)" "contents g = print_nums xs"
    by (rule transfer_numbers_ok[of xs "[]" "rewind f" tmpfile]) (use holds assms(2) in simp_all)
  moreover have "count_numbers_in_file (rewind f) = (length xs, rewind f)"
    using count_numbers_text[of "rewind f"] f assms(2) print_nums_chars number_count_print by simp
  ultimately show ?thesis using read_loop_ok[OF holds, of "length xs" "[]"] out(1) f(1) f_def by auto
qed

theorem numbers_roundtrip_witness:
  "\<exists>out f'. write_loop 2 0 [7, - 12, 0] tmpfile = Some out \<and>
     read_loop 3 0 (rewind (fprintf (show_int 0) out)) (replicate 3 0) = Some ([7, - 12, 0], f')"
  using numbers_roundtrip[of "[7, - 12, 0]"]
  by (simp add: is_int_def eval_nat_numeral)

text \<open>
  C11. The quick sort returns for every array and every range inside it, whatever the clock and the other coroutines
  do: the range is sorted, the array is a permutation of the old one, and nothing outside the range moved.
\<close>

theorem quick_sort_sorts:
  assumes "keeps_arrays env" "tid < MAX_SORTING_PROCESSES" "arrays_ok s" "first' < last' \<longrightarrow> last' < length numbers"
  shows "\<exists>ys s'. quick_sort env tid s numbers first' last' = Some (ys, s') \<and> mset ys = mset numbers \<and>
    (\<forall>m n. first' \<le> m \<and> m \<le> n \<and> n \<le> last' \<longrightarrow> ys ! m \<le> ys ! n) \<and>
    (\<forall>k < length numbers. k < first' \<or> last' < k \<longrightarrow> ys ! k = numbers ! k)"
proof -
  from quick_sort_ok[OF assms] obtain ys s' where
    ys: "quick_sort env tid s numbers first' last' = Some (ys, s')" "permutes_in first' last' numbers ys" "sorted_in first' last' ys"
    by blast
  then show ?thesis using permutes_in_before[OF ys(2)] permutes_in_after[OF ys(2)]
    by (auto simp: permutes_in_def sorted_in_def)
qed

theorem quick_sort_sorts_witness:
  "\<exists>ys s'. quick_sort demo_env 1 demo_state [9, 4, 7, 4, 1] 1 3 = Some (ys, s') \<and> mset ys = {#9, 4, 7, 4, 1#} \<and>
     ys ! 0 = 9 \<and> ys ! 4 = 1"
  using quick_sort_sorts[OF demo_env_ok(1) _ demo_env_ok(2), of 1 1 3 "[9, 4, 7, 4, 1]"]
  by (fastforce simp: add_mset_commute)

text \<open>
  C32. Merging two files of numbers delivers the merge of their numbers, each number once, in order if both files are
  in order.
\<close>

theorem merge_sorted_files_merges:
  assumes "list_all is_int xs" "list_all is_int ys" "xs \<noteq> []" "ys \<noteq> []"
    "contents a = print_nums xs" "contents b = print_nums ys" "before a = []" "before b = []"
  shows "\<exists>out s'. merge_sorted_files a b s = Some (rewind out, s') \<and> contents out = print_nums (merge_lists xs ys) \<and>
    (sorted xs \<and> sorted ys \<longrightarrow> merge_lists xs ys = sort (xs @ ys))"
proof -
  have cnt: "count_numbers_in_file a = (length xs, rewind a)" "count_numbers_in_file b = (length ys, rewind b)"
    using count_numbers_text assms print_nums_chars number_count_print by simp_all
  obtain out where "merge_files (Some (rewind a)) (Some (rewind b)) (length xs) (length ys) = Some (rewind out)"
    "contents out = print_nums (merge_lists (padded (length xs) xs) (padded (length ys) ys))"
    by (rule merge_files_ok[of xs "rewind a" ys "rewind b" "length xs" "length ys"]) (use assms holds_print in simp_all)
  moreover have "merge_lists xs ys = sort (xs @ ys)" if "sorted xs" "sorted ys"
    using sorted_merge_lists[OF that] by (metis mset_append mset_merge_lists properties_for_sort)
  ultimately show ?thesis using cnt by (intro exI[of _ out]) (simp add: merge_sorted_files_def)
qed

theorem merge_sorted_files_merges_witness:
  "\<exists>out s'. merge_sorted_files (rewind (fprintf (print_nums [1, 5]) tmpfile)) (rewind (fprintf (print_nums [2]) tmpfile)) demo_state =
     Some (rewind out, s') \<and> contents out = print_nums [1, 2, 5]"
  using merge_sorted_files_merges[of "[1, 5]" "[2]" "rewind (fprintf (print_nums [1, 5]) tmpfile)"
    "rewind (fprintf (print_nums [2]) tmpfile)" demo_state]
  by (auto simp: is_int_def)

subsection \<open>Sorting a file\<close>

text \<open>
  C5. A file of up to 1048576 numbers, separated by single separators with none at the end, is sorted: the result is a
  file at its start that holds its numbers in order, whatever the clock shows and whatever the other coroutines do to the
  globals, as long as the sizes of the arrays stay and the sorts started by the end, this one and those of the others, are \<open>n < 10000\<close>.
\<close>

theorem sort_file_sorts:
  assumes "keeps_arrays env" "arrays_ok s" "traces_below env n" "n < MAX_SORTING_PROCESSES" "trace_id s < n"
    "good_file disk name xs"
  shows "\<exists>out exec s'. sort_file env disk latency name s = Some (Some out, Some exec, s') \<and>
    before out = [] \<and> after out = print_nums (sort xs)"
  using sort_file_good[OF assms] by blast

theorem sort_file_sorts_witness:
  "\<exists>out exec s'. sort_file demo_env (demo_disk [3, - 1, 2]) 0 ''a'' demo_state = Some (Some out, Some exec, s') \<and>
     after out = print_nums [- 1, 2, 3]"
  using sort_file_sorts[OF demo_env_ok(1,2) demo_env_traces _ _ demo_good, of 3 "[3, - 1, 2]" 0]
  by (auto simp: is_int_def MAX_NUMBERS_LOADED_eq demo_state_def)

text \<open>
  How the separators count: in a file that fits into memory every space, line end or NUL counts as the end of a
  number.  The result holds as many numbers as were counted: numbers beyond the count are dropped, and for each
  number that is missing, as after a line end at the end of the file, a zero is added.
\<close>

theorem sort_file_counts_separators:
  assumes "can_sort env disk name s chars" "holds xs chars" "number_count chars \<le> MAX_NUMBERS_LOADED"
  shows "\<exists>out exec s'. sort_file env disk latency name s = Some (Some out, Some exec, s') \<and>
    after out = print_nums (sort (take (number_count chars) xs @ replicate (number_count chars - length xs) 0))"
  using sort_file_run[OF assms(1,2) refl, of latency] assms(3) by (auto simp: zero_filled_def)

theorem sort_file_counts_separators_witness:
  "\<exists>out exec s'. sort_file demo_env [''a'' \<mapsto> ''3 1'' @ [CHR 0x0A]] 0 ''a'' demo_state = Some (Some out, Some exec, s') \<and>
     after out = print_nums [0, 1, 3]"
proof -
  have c: "can_sort demo_env [''a'' \<mapsto> ''3 1'' @ [CHR 0x0A]] ''a'' demo_state (''3 1'' @ [CHR 0x0A])"
    using demo_env_ok demo_env_traces by (auto simp: can_sort_def intro!: exI[of _ 1] simp: demo_state_def)
  have h: "holds [3, 1] (''3 1'' @ [CHR 0x0A])"
    by (simp add: scan_int_def isspace_def isdigit_def digits_val_def is_int_def Let_def)
  have n: "number_count (''3 1'' @ [CHR 0x0A]) = 3" by (simp add: number_count_def ends_number_def is_EOF_def)
  show ?thesis using sort_file_counts_separators[OF c h, of 0] unfolding n
    by (auto simp: MAX_NUMBERS_LOADED_eq)
qed

text \<open>
  C39. A file of more than 1048576 numbers, separated by single separators with none at the end, is not sorted correctly: the call
  of \<open>split\<close> for the left half gives it one number too few, so that \<open>sort_file\<close> returns as many numbers in order, but
  the number in the middle is not among them, whatever the clock shows and whatever the other coroutines do,
  within the bounds of \<open>sort_file_sorts\<close>.
\<close>

theorem sort_file_loses_middle:
  assumes "can_sort env disk name s chars" "holds xs chars" "number_count chars = length xs"
    "2 * MAX_NUMBERS_LOADED < length xs"
  shows "\<exists>out exec s' ys. sort_file env disk latency name s = Some (Some out, Some exec, s') \<and> after out = print_nums ys \<and>
    sorted ys \<and> length ys = length xs \<and>
    set ys \<subseteq> set (take ((length xs - 1) div 2) xs) \<union> set (drop ((length xs - 1) div 2 + 1) xs)"
proof -
  have big: "\<not> length xs \<le> MAX_NUMBERS_LOADED" using assms(4) by simp
  from sort_file_run[OF assms(1,2) refl, of latency] big assms(3) obtain out ys exec s' where
    "sort_file env disk latency name s = Some (Some out, Some exec, s')" "after out = print_nums ys" "split_result (length xs) xs ys"
    by auto
  then show ?thesis using assms(4) by (auto simp: split_result_def)
qed

theorem sort_file_loses_middle_witness:
  "\<exists>out exec s' ys. sort_file demo_env (demo_disk (replicate 524288 0 @ 1 # replicate 524288 2)) 0 ''a'' demo_state =
       Some (Some out, Some exec, s') \<and> after out = print_nums ys \<and> 1 \<notin> set ys"
proof -
  let ?xs = "replicate 524288 0 @ 1 # replicate 524288 (2 :: int)"
  have xs: "list_all is_int ?xs" "?xs \<noteq> []" "length ?xs = 1048577" by (simp_all add: list_all_iff is_int_def)
  have c: "can_sort demo_env (demo_disk ?xs) ''a'' demo_state (print_nums ?xs)"
    using demo_env_ok demo_env_traces print_nums_chars
    by (auto simp: can_sort_def demo_disk_def intro!: exI[of _ 1] simp: demo_state_def)
  have n: "number_count (print_nums ?xs) = length ?xs" by (rule number_count_print[OF xs(2)])
  have big: "2 * MAX_NUMBERS_LOADED < length ?xs" unfolding xs(3) MAX_NUMBERS_LOADED_eq by simp
  have parts: "(length ?xs - 1) div 2 = 524288" unfolding xs(3) by simp
  have "1 \<notin> set (take 524288 ?xs) \<union> set (drop (524288 + 1) ?xs)" by simp
  with sort_file_loses_middle[OF c holds_print[OF xs(1)] n big, of 0] show ?thesis unfolding parts by blast
qed

text \<open>
  Sorting a file that cannot be opened returns NULL, with nothing stored as its time, and the program then
  runs into undefined behaviour: it rewinds the NULL file when it collects the outputs.
\<close>

theorem missing_file:
  assumes "arrays_ok s" "trace_id s + 1 < MAX_SORTING_PROCESSES" "disk name = None"
    "f \<in> set fs" "sorted_output f = None"
  shows "(\<exists>s'. sort_file env disk latency name s = Some (None, None, s')) \<and> merge_outputs fs = None"
proof -
  have "collect_files fs = None"
    using assms(4)
  proof (induction fs)
    case (Cons g fs)
    then show ?case using assms(5) by (cases "f = g") (auto simp: bind_eq_None_conv split: prod.splits)
  qed simp
  then show ?thesis using assms(1-3) by (simp add: sort_file_def Let_def get_time_in_microsec_def arrays_ok_def merge_outputs_def)
qed

theorem missing_file_witness:
  "(\<exists>s'. sort_file demo_env Map.empty 0 ''b'' demo_state = Some (None, None, s')) \<and>
   merge_outputs [\<lparr>filename = ''b'', sorted_output = None, status = SORTING_FINISHED\<rparr>] = None"
  by (rule missing_file[OF demo_env_ok(2,3), where f = "\<lparr>filename = ''b'', sorted_output = None, status = SORTING_FINISHED\<rparr>"])
    simp_all

subsection \<open>The program\<close>

text \<open>
  C20. However the coroutines interleave, no file is sorted by two of them at a time, and no two sorts that are under way have the same
  trace number; a finished file holds what \<open>sort_file\<close> returned for its name under a trace number that is not above the
  number of files; and when there was a coroutine and all have returned, all files are finished, as \<open>main\<close> asserts.
\<close>

theorem coroutines_share_files:
  assumes "(coro_moves disk latency ^^ n) (coro_start pool names) (cs, fs)" "k < length fs"
  shows "sorters cs k \<le> 1 \<and> traces_distinct cs \<and> map filename fs = names \<and>
    (status (fs ! k) = SORTING_FINISHED \<longrightarrow> was_sorted disk latency (length names) (names ! k) (sorted_output (fs ! k))) \<and>
    (0 < pool \<and> all_returned cs \<longrightarrow> status (fs ! k) = SORTING_FINISHED)"
proof -
  obtain cs0 fs0 where start: "coro_start pool names = (cs0, fs0)" by (cases "coro_start pool names")
  have ok0: "files_ok disk latency names cs0 fs0" using files_ok_start[of disk latency names pool] start by simp
  have "length cs0 = pool" using start by (auto simp: coro_start_def)
  with coro_run_ok[OF assms(1)[unfolded start] ok0] have ok: "files_ok disk latency names cs fs" "length cs = pool" by auto
  have "status (fs ! k) = SORTING_FINISHED" if "0 < pool" "all_returned cs"
    using all_returned_finished[OF ok(1) _ that(2) assms(2)] that(1) ok(2) by fastforce
  moreover have "traces_distinct cs"
    using coro_run_traces[OF assms(1)[unfolded start] ok0] start by (auto simp: coro_start_def traces_distinct_def)
  ultimately show ?thesis using ok(1) assms(2) by (auto simp: files_ok_def)
qed

text \<open>A run of two coroutines on one file: while the first one sorts it the second one finds nothing to do and returns.\<close>

definition demo_coro :: "place \<Rightarrow> nat \<Rightarrow> 64 word \<Rightarrow> coroutine" where
  "demo_coro pl i t = \<lparr>place = pl, cur_trace_id = i, sumExecTime = t\<rparr>"

definition demo_file :: "stream option \<Rightarrow> sorting_status \<Rightarrow> file_list list" where
  "demo_file out st = [\<lparr>filename = ''a'', sorted_output = out, status = st\<rparr>]"

lemma demo_coro_run:
  assumes "good_file disk ''a'' xs"
  shows "\<exists>out t. (coro_moves disk 0 ^^ 6) (coro_start 2 [''a''])
    ([demo_coro place.Returned 1 t, demo_coro place.Returned 0 0], demo_file out SORTING_FINISHED)"
proof -
  obtain out t where out: "sort_returns disk 0 1 1 ''a'' out t" using good_file_returns[OF assms, of 1 1 0] by auto
  let ?f0 = "demo_file None SORTING_WAITING" and ?f1 = "demo_file None SORTING_IN_PROGRESS" and ?f2 = "demo_file out SORTING_FINISHED"
  let ?a = "\<lambda>pl. demo_coro pl 1 t" and ?b = "\<lambda>pl. demo_coro pl 0 0"
  note defs = demo_coro_def demo_file_def coroutine_test_def coroutine_sorted_def global_trace_id_def
  have "coro_moves disk 0 ([?b (Testing 0), ?b (Testing 0)], ?f0) ([demo_coro (Sorting 0) 1 0, ?b (Testing 0)], ?f1)"
    using coro_moves.test[of 0 "[?b (Testing 0), ?b (Testing 0)]" 0 ?f0] by (simp add: defs)
  moreover have "coro_moves disk 0 ([demo_coro (Sorting 0) 1 0, ?b (Testing 0)], ?f1) ([demo_coro (Sorting 0) 1 0, ?b (Testing 1)], ?f1)"
    using coro_moves.test[of 1 "[demo_coro (Sorting 0) 1 0, ?b (Testing 0)]" 0 ?f1] by (simp add: defs)
  moreover have "coro_moves disk 0 ([demo_coro (Sorting 0) 1 0, ?b (Testing 1)], ?f1) ([demo_coro (Sorting 0) 1 0, ?b place.Returned], ?f1)"
    using coro_moves.test[of 1 "[demo_coro (Sorting 0) 1 0, ?b (Testing 1)]" 1 ?f1] by (simp add: defs)
  moreover have "coro_moves disk 0 ([demo_coro (Sorting 0) 1 0, ?b place.Returned], ?f1) ([?a (Testing 0), ?b place.Returned], ?f2)"
    using coro_moves.sorted[of 0 "[demo_coro (Sorting 0) 1 0, ?b place.Returned]" 0 disk 0 ?f1 out t] out by (simp add: defs)
  moreover have "coro_moves disk 0 ([?a (Testing 0), ?b place.Returned], ?f2) ([?a (Testing 1), ?b place.Returned], ?f2)"
    using coro_moves.test[of 0 "[?a (Testing 0), ?b place.Returned]" 0 ?f2] by (simp add: defs)
  moreover have "coro_moves disk 0 ([?a (Testing 1), ?b place.Returned], ?f2) ([?a place.Returned, ?b place.Returned], ?f2)"
    using coro_moves.test[of 0 "[?a (Testing 1), ?b place.Returned]" 1 ?f2] by (simp add: defs)
  ultimately have "(coro_moves disk 0 ^^ Suc (Suc (Suc (Suc (Suc (Suc 0)))))) ([?b (Testing 0), ?b (Testing 0)], ?f0)
      ([?a place.Returned, ?b place.Returned], ?f2)"
    by (blast intro: relpowp_Suc_I relpowp_0_I)
  moreover have "coro_start 2 [''a''] = ([?b (Testing 0), ?b (Testing 0)], ?f0)"
    by (simp add: coro_start_def new_files_def defs numeral_2_eq_2)
  moreover have "6 = Suc (Suc (Suc (Suc (Suc (Suc (0 :: nat))))))" by simp
  ultimately have "(coro_moves disk 0 ^^ 6) (coro_start 2 [''a'']) ([?a place.Returned, ?b place.Returned], ?f2)" by (simp only:)
  then show ?thesis by blast
qed

theorem coroutines_share_files_witness:
  "\<exists>cs fs. (coro_moves (demo_disk [3, 1, 2]) 0 ^^ 6) (coro_start 2 [''a'']) (cs, fs) \<and> status (fs ! 0) = SORTING_FINISHED \<and>
     was_sorted (demo_disk [3, 1, 2]) 0 1 ''a'' (sorted_output (fs ! 0))"
proof -
  have good: "good_file (demo_disk [3, 1, 2]) ''a'' [3, 1, 2]" by (rule demo_good) (simp_all add: is_int_def MAX_NUMBERS_LOADED_eq)
  from demo_coro_run[OF this] obtain out t where
    run: "(coro_moves (demo_disk [3, 1, 2]) 0 ^^ 6) (coro_start 2 [''a''])
      ([demo_coro place.Returned 1 t, demo_coro place.Returned 0 0], demo_file out SORTING_FINISHED)" by blast
  from coroutines_share_files[OF run, of 0] have "was_sorted (demo_disk [3, 1, 2]) 0 1 ''a'' out" by (simp add: demo_file_def)
  then have "status (demo_file out SORTING_FINISHED ! 0) = SORTING_FINISHED \<and>
      was_sorted (demo_disk [3, 1, 2]) 0 1 ''a'' (sorted_output (demo_file out SORTING_FINISHED ! 0))" by (simp add: demo_file_def)
  with run show ?thesis by blast
qed

text \<open>
  The coroutines finish: a run of any schedule has a bounded number of steps, and as long as some coroutine has
  not returned, there is a next step.
\<close>

theorem coroutines_finish:
  assumes "(coro_moves disk latency ^^ n) (coro_start pool names) (cs, fs)" "list_all2 (good_file disk) names xss"
    "length names < MAX_SORTING_PROCESSES"
  shows "n \<le> pool * (2 * length names + 1) + 2 * length names \<and> (all_returned cs \<or> (\<exists>st. coro_moves disk latency (cs, fs) st))"
proof -
  obtain cs0 fs0 where start: "coro_start pool names = (cs0, fs0)" by (cases "coro_start pool names")
  have ok0: "files_ok disk latency names cs0 fs0" using files_ok_start[of disk latency names pool] start by simp
  from coro_run_ok[OF assms(1)[unfolded start] ok0] have "files_ok disk latency names cs fs" "n \<le> coro_work cs0 fs0" by auto
  then show ?thesis using coro_can_move[OF _ _ assms(3,2)] coro_start_work[of pool names] start by auto
qed

theorem coroutines_finish_witness:
  "\<exists>st. coro_moves (demo_disk [2, 1]) 0 (coro_start 2 [''a'']) st"
  using coroutines_finish[of 0 "demo_disk [2, 1]" 0 2 "[''a'']" "fst (coro_start 2 [''a''])" "snd (coro_start 2 [''a''])" "[[2, 1]]"]
    demo_good[of "[2, 1]"]
  by (simp add: is_int_def MAX_NUMBERS_LOADED_eq coro_start_def all_returned_def)

text \<open>
  The whole program: when the coroutines have returned, for files in good order of up to 1048576 numbers each, the
  final merge returns and \<open>output.txt\<close> holds all numbers of all files in order.
\<close>

theorem program_sorts:
  assumes "(coro_moves disk latency ^^ n) (coro_start pool names) (cs, fs)" "0 < pool" "all_returned cs"
    "length names < MAX_SORTING_PROCESSES" "list_all2 (good_file disk) names xss" "names \<noteq> []"
  shows "\<exists>out. merge_outputs fs = Some out \<and> contents out = print_open (sort (concat xss))"
proof -
  have entries: "list_all2 sorted_entry fs (map sort xss)" by (rule coro_run_end[OF assms(1-5)])
  have "xss \<noteq> []" using assms(5,6) by auto
  then have "fs \<noteq> []" using entries by auto
  from merge_outputs_ok[OF entries this] obtain out zs where
    out: "merge_outputs fs = Some out" "contents out = print_open zs" "sorted zs" "mset zs = sum_list (map mset (map sort xss))"
    by blast
  have "sum_list (map mset (map sort xss)) = mset (concat xss)" by (induction xss) simp_all
  then have "zs = sort (concat xss)" using out(3,4) by (metis properties_for_sort)
  then show ?thesis using out(1,2) by blast
qed

theorem program_sorts_witness:
  "\<exists>cs fs out. (coro_moves (demo_disk [3, 1, 2]) 0 ^^ 6) (coro_start 2 [''a'']) (cs, fs) \<and>
     merge_outputs fs = Some out \<and> contents out = print_open [1, 2, 3]"
proof -
  have good: "good_file (demo_disk [3, 1, 2]) ''a'' [3, 1, 2]" by (rule demo_good) (simp_all add: is_int_def MAX_NUMBERS_LOADED_eq)
  from demo_coro_run[OF this] obtain out t where
    run: "(coro_moves (demo_disk [3, 1, 2]) 0 ^^ 6) (coro_start 2 [''a''])
      ([demo_coro place.Returned 1 t, demo_coro place.Returned 0 0], demo_file out SORTING_FINISHED)" by blast
  show ?thesis using program_sorts[OF run, of "[[3, 1, 2]]"] good run by (fastforce simp: all_returned_def demo_coro_def)
qed

text \<open>
  Times are reported exactly: the seconds, milliseconds and microseconds that are printed are those of the
  difference; the narrowing to 32 bits loses nothing.
\<close>

theorem time_report_exact:
  assumes "start \<le> end'" "d = unat end' - unat start"
  shows "print_time_diff start end' = Some (show_nat (d div 1000000) @ '' seconds, '' @
      show_nat (d div 1000 mod 1000) @ '' milliseconds, '' @ show_nat (d mod 1000) @ '' microseconds'') \<and>
    d = d div 1000000 * 1000000 + d div 1000 mod 1000 * 1000 + d mod 1000"
proof -
  have "d mod (1000 * 1000) = 1000 * (d div 1000 mod 1000) + d mod 1000" by (rule mod_mult2_eq)
  then have "d mod 1000000 div 1000 = d div 1000 mod 1000" "d mod 1000000 = 1000 * (d div 1000 mod 1000) + d mod 1000" by simp_all
  then show ?thesis using print_time_diff_exact[OF assms] div_mult_mod_eq[of d 1000000] by simp
qed

theorem time_report_exact_witness:
  "print_time_diff 5 1002008 = Some (show_nat 1 @ '' seconds, '' @ show_nat 2 @ '' milliseconds, '' @ show_nat 3 @ '' microseconds'')"
  using time_report_exact[of 5 1002008 1002003] by simp

end
