(* ===== verification/Coro.thy ===== *)
theory Coro imports Dll begin

text \<open>
  The scheduler of Assignment_1/src/libcoro.c: the list of coroutines, the switches between them, and
  \<open>coro_sched_wait\<close>.  A switch of stacks with \<open>siglongjmp\<close> is a change of \<open>coro_this_ptr\<close>, and what a
  coroutine's function does between two calls of the library is left open.
\<close>

subsection \<open>Coroutines and the scheduler\<close>

record coro =
  ret :: int
  is_finished :: bool
  switch_count :: nat
  next_coro :: "addr option"
  prev_coro :: "addr option"

text \<open>\<open>coro_sched\<close> is a coroutine of its own; of its fields only \<open>switch_count\<close> is used.\<close>

datatype who = Sched | Co addr

record scheduler =
  coros :: "addr \<rightharpoonup> coro"
  coro_list :: "addr option"
  coro_this_ptr :: who
  is_sched_waiting :: bool
  sched_switches :: nat

definition coro_sched_init :: scheduler where
  "coro_sched_init = \<lparr>coros = Map.empty, coro_list = None, coro_this_ptr = Sched, is_sched_waiting = False,
     sched_switches = 0\<rparr>"

definition put :: "addr \<Rightarrow> coro \<Rightarrow> scheduler \<Rightarrow> scheduler" where
  "put a c s = s\<lparr>coros := (coros s)(a \<mapsto> c)\<rparr>"

definition coro_list_add :: "addr \<Rightarrow> scheduler \<Rightarrow> scheduler option" where
  "coro_list_add a s = do {
     c \<leftarrow> coros s a;
     let s = put a (c\<lparr>next_coro := coro_list s, prev_coro := None\<rparr>) s;
     s \<leftarrow> (case coro_list s of None \<Rightarrow> Some s | Some l \<Rightarrow> do {
            d \<leftarrow> coros s l;
            Some (put l (d\<lparr>prev_coro := Some a\<rparr>) s)
          });
     Some (s\<lparr>coro_list := Some a\<rparr>)
   }"

definition coro_list_delete :: "addr \<Rightarrow> scheduler \<Rightarrow> scheduler option" where
  "coro_list_delete a s = do {
     c \<leftarrow> coros s a;
     s \<leftarrow> (case prev_coro c of None \<Rightarrow> Some s | Some p \<Rightarrow> do {
            d \<leftarrow> coros s p;
            Some (put p (d\<lparr>next_coro := next_coro c\<rparr>) s)
          });
     s \<leftarrow> (case next_coro c of None \<Rightarrow> Some s | Some n \<Rightarrow> do {
            d \<leftarrow> coros s n;
            Some (put n (d\<lparr>prev_coro := prev_coro c\<rparr>) s)
          });
     Some (if prev_coro c = None then s\<lparr>coro_list := next_coro c\<rparr> else s)
   }"

definition coro_status :: "addr \<Rightarrow> scheduler \<Rightarrow> int option" where
  "coro_status a s = map_option ret (coros s a)"

definition coro_switch_count :: "addr \<Rightarrow> scheduler \<Rightarrow> nat option" where
  "coro_switch_count a s = map_option switch_count (coros s a)"

definition coro_is_finished :: "addr \<Rightarrow> scheduler \<Rightarrow> bool option" where
  "coro_is_finished a s = map_option is_finished (coros s a)"

definition coro_delete :: "addr \<Rightarrow> scheduler \<Rightarrow> scheduler option" where
  "coro_delete a s = do {
     _ \<leftarrow> coros s a;
     Some (s\<lparr>coros := (coros s)(a := None)\<rparr>)
   }"

text \<open>The coroutine is made at the address \<open>a\<close>; what prepares its stack has no effect on the scheduler.\<close>

definition coro_new :: "addr \<Rightarrow> scheduler \<Rightarrow> scheduler option" where
  "coro_new a s = coro_list_add a (put a
     \<lparr>ret = 0, is_finished = False, switch_count = 0, next_coro = None, prev_coro = None\<rparr> s)"

subsection \<open>Switching\<close>

text \<open>\<open>siglongjmp(to->ctx)\<close>: the context of a freed coroutine is gone.\<close>

definition jump :: "who \<Rightarrow> scheduler \<Rightarrow> scheduler option" where
  "jump to s = do {
     ensure (case to of Sched \<Rightarrow> True | Co a \<Rightarrow> coros s a \<noteq> None);
     Some (s\<lparr>coro_this_ptr := to\<rparr>)
   }"

definition coro_yield_to :: "who \<Rightarrow> scheduler \<Rightarrow> scheduler option" where
  "coro_yield_to to s = do {
     s \<leftarrow> (case coro_this_ptr s of
            Sched \<Rightarrow> Some (s\<lparr>sched_switches := sched_switches s + 1\<rparr>)
          | Co a \<Rightarrow> do {
              c \<leftarrow> coros s a;
              Some (put a (c\<lparr>switch_count := switch_count c + 1\<rparr>) s)
            });
     jump to s
   }"

definition coro_yield :: "scheduler \<Rightarrow> scheduler option" where
  "coro_yield s = do {
     to \<leftarrow> (case coro_this_ptr s of
             Sched \<Rightarrow> Some Sched
           | Co a \<Rightarrow> do {
               c \<leftarrow> coros s a;
               Some (case next_coro c of None \<Rightarrow> Sched | Some n \<Rightarrow> Co n)
             });
     coro_yield_to to s
   }"

text \<open>
  The end of \<open>coro_body\<close>, when the coroutine's function has returned \<open>r\<close>; \<open>Inl\<close> is the exit with a critical
  error.
\<close>

definition coro_body_end :: "int \<Rightarrow> scheduler \<Rightarrow> (unit + scheduler) option" where
  "coro_body_end r s = (case coro_this_ptr s of Sched \<Rightarrow> None | Co a \<Rightarrow> do {
     c \<leftarrow> coros s a;
     let s = put a (c\<lparr>ret := r, is_finished := True\<rparr>) s;
     if \<not> is_sched_waiting s then Some (Inl ())
     else do {
       s \<leftarrow> jump Sched s;
       Some (Inr s)
     }
   })"

subsection \<open>Waiting for a coroutine\<close>

partial_function (option) find_finished :: "(addr \<rightharpoonup> coro) \<Rightarrow> addr option \<Rightarrow> addr option option" where
  "find_finished h p = (case p of None \<Rightarrow> Some None | Some a \<Rightarrow> do {
     c \<leftarrow> h a;
     if is_finished c then Some (Some a) else find_finished h (next_coro c)
   })"

declare find_finished.simps [code]

text \<open>
  One round of the loop of \<open>coro_sched_wait\<close>: it returns (\<open>Inl\<close>), or the first coroutine runs (\<open>Inr\<close>).
\<close>

definition sched_round :: "scheduler \<Rightarrow> ((addr option + unit) \<times> scheduler) option" where
  "sched_round s = (case coro_list s of
     None \<Rightarrow> Some (Inl None, s)
   | Some l \<Rightarrow> do {
       f \<leftarrow> find_finished (coros s) (Some l);
       (case f of
          Some a \<Rightarrow> do {
            s' \<leftarrow> coro_list_delete a s;
            Some (Inl (Some a), s')
          }
        | None \<Rightarrow> do {
            s' \<leftarrow> coro_yield_to (Co l) (s\<lparr>is_sched_waiting := True\<rparr>);
            Some (Inr (), s')
          })
     })"

text \<open>The scheduler goes on after its \<open>coro_yield_to\<close>.\<close>

definition woken :: "scheduler \<Rightarrow> scheduler" where
  "woken s = s\<lparr>is_sched_waiting := False\<rparr>"

subsection \<open>Runs\<close>

text \<open>
  Where the program is: in the code that uses the scheduler, at the head of the loop of \<open>coro_sched_wait\<close>,
  in a coroutine, or ended with a critical error.
\<close>

datatype control = User | Looping | Running | Exited

datatype event = Created addr | Called | Switched who | Finished addr int | Returned "addr option" | Freed addr

definition at_scheduler :: "scheduler \<Rightarrow> control \<times> scheduler" where
  "at_scheduler s = (if coro_this_ptr s = Sched then (Looping, woken s) else (Running, s))"

text \<open>
  The user and the coroutines make new coroutines at fresh addresses; the user frees only what is finished and was returned.
\<close>

inductive coro_step :: "control \<times> scheduler \<Rightarrow> event \<Rightarrow> control \<times> scheduler \<Rightarrow> bool" where
  create: "k = User \<or> k = Running \<Longrightarrow> coros s a = None \<Longrightarrow> coro_new a s = Some s' \<Longrightarrow>
    coro_step (k, s) (Created a) (k, s')"
| call: "coro_step (User, s) Called (Looping, s)"
| return: "sched_round s = Some (Inl r, s') \<Longrightarrow> coro_step (Looping, s) (Returned r) (User, s')"
| enter: "sched_round s = Some (Inr u, s') \<Longrightarrow> coro_step (Looping, s) (Switched (coro_this_ptr s')) (Running, s')"
| yield: "coro_yield s = Some s' \<Longrightarrow> coro_step (Running, s) (Switched (coro_this_ptr s')) (at_scheduler s')"
| finish: "coro_this_ptr s = Co a \<Longrightarrow> coro_body_end r s = Some (Inr s') \<Longrightarrow>
    coro_step (Running, s) (Finished a r) (at_scheduler s')"
| critical: "coro_this_ptr s = Co a \<Longrightarrow> coro_body_end r s = Some (Inl u) \<Longrightarrow>
    coro_step (Running, s) (Finished a r) (Exited, s)"
| free: "coro_is_finished a s = Some True \<Longrightarrow> coro_delete a s = Some s' \<Longrightarrow> coro_step (User, s) (Freed a) (User, s')"

inductive coro_run :: "control \<times> scheduler \<Rightarrow> event list \<Rightarrow> control \<times> scheduler \<Rightarrow> bool" where
  stop: "coro_run st [] st"
| more: "coro_run st es st' \<Longrightarrow> coro_step st' e st'' \<Longrightarrow> coro_run st (es @ [e]) st''"

inductive_cases coro_stepE: "coro_step (k, s) e st"


subsection \<open>The list\<close>

interpretation coro_links: linked next_coro prev_coro "\<lambda>x. next_coro_update (\<lambda>_. x)" "\<lambda>x. prev_coro_update (\<lambda>_. x)"
  by unfold_locales simp_all

definition listed :: "scheduler \<Rightarrow> addr list \<Rightarrow> bool" where
  "listed s as \<longleftrightarrow> (\<exists>l. dlist next_coro prev_coro (coros s) (coro_list s) as l)"

text \<open>What is not a link.\<close>

definition view :: "coro \<Rightarrow> int \<times> bool \<times> nat" where
  "view c = (ret c, is_finished c, switch_count c)"

definition views :: "scheduler \<Rightarrow> addr \<Rightarrow> (int \<times> bool \<times> nat) option" where
  "views s a = map_option view (coros s a)"

lemma put_simps [simp]:
  "coros (put a c s) = (coros s)(a \<mapsto> c)" "coro_list (put a c s) = coro_list s"
  "coro_this_ptr (put a c s) = coro_this_ptr s" "is_sched_waiting (put a c s) = is_sched_waiting s"
  "sched_switches (put a c s) = sched_switches s"
  by (simp_all add: put_def)

lemma listed_put:
  assumes "listed s as" "coros s a = Some c" "next_coro c' = next_coro c" "prev_coro c' = prev_coro c"
  shows "listed (put a c' s) as"
proof -
  from assms(1) obtain l where "dlist next_coro prev_coro (coros s) (coro_list s) as l" by (auto simp: listed_def)
  then have "dlist next_coro prev_coro ((coros s)(a \<mapsto> c')) (coro_list s) as l"
    by (subst dseg_frame[where h = "coros s"]) (use assms in auto)
  then show ?thesis by (auto simp: listed_def)
qed

lemma listed_cong: "coros s' = coros s \<Longrightarrow> coro_list s' = coro_list s \<Longrightarrow> listed s' as = listed s as"
  by (simp add: listed_def)

lemma listed_cell: "listed s as \<Longrightarrow> a \<in> set as \<Longrightarrow> \<exists>c. coros s a = Some c"
  by (auto simp: listed_def dest: dseg_cells)

lemma listed_distinct: "listed s as \<Longrightarrow> distinct as"
  by (auto simp: listed_def dest: dseg_distinct)

lemma listed_first: "listed s as \<Longrightarrow> coro_list s = (if as = [] then None else Some (hd as))"
  by (auto simp: listed_def dest: dseg_first)

lemma listed_next:
  assumes "listed s as" "i < length as" "coros s (as ! i) = Some c"
  shows "next_coro c = (if Suc i < length as then Some (as ! Suc i) else None)"
  using assms by (auto simp: listed_def elim!: dseg_nth)

lemma coro_new_listed:
  assumes "listed s as" "coros s a = None"
  shows "\<exists>s'. coro_new a s = Some s' \<and> listed s' (a # as) \<and> views s' = (views s)(a \<mapsto> (0, False, 0)) \<and>
    coro_this_ptr s' = coro_this_ptr s \<and> is_sched_waiting s' = is_sched_waiting s"
proof (cases as)
  case Nil
  then have "coro_list s = None" using listed_first[OF assms(1)] by simp
  then show ?thesis using Nil by (auto simp: coro_new_def coro_list_add_def listed_def views_def view_def fun_eq_iff)
next
  case (Cons l bs)
  then have l: "coro_list s = Some l" using listed_first[OF assms(1)] by simp
  from assms(1) Cons obtain d e where d: "coros s l = Some d" "prev_coro d = None"
    "dseg next_coro prev_coro (coros s) (Some l) (next_coro d) bs e None"
    by (auto simp: listed_def split: option.splits)
  have "a \<notin> set as" using listed_cell[OF assms(1), of a] assms(2) by auto
  then have ne: "a \<noteq> l" "a \<notin> set bs" "l \<notin> set bs" using Cons listed_distinct[OF assms(1)] by auto
  let ?h = "(coros s)(a \<mapsto> \<lparr>ret = 0, is_finished = False, switch_count = 0, next_coro = Some l, prev_coro = None\<rparr>,
      l \<mapsto> d\<lparr>prev_coro := Some a\<rparr>)"
  have "dseg next_coro prev_coro ?h (Some l) (next_coro d) bs e None"
    using d(3) ne by (subst dseg_cong[where h = "coros s"]) auto
  then have "dlist next_coro prev_coro ?h (Some a) (a # l # bs) e" using ne by simp
  then show ?thesis
    using l d ne Cons by (auto simp: coro_new_def coro_list_add_def listed_def views_def view_def fun_eq_iff)
qed

lemma coro_list_delete_listed:
  assumes "listed s (us @ a # vs)"
  shows "\<exists>s'. coro_list_delete a s = Some s' \<and> listed s' (us @ vs) \<and> views s' = views s \<and>
    coro_this_ptr s' = coro_this_ptr s \<and> is_sched_waiting s' = is_sched_waiting s"
proof -
  from assms obtain l where d: "dlist next_coro prev_coro (coros s) (coro_list s) (us @ a # vs) l" by (auto simp: listed_def)
  obtain c where c: "coros s a = Some c" using listed_cell[OF assms, of a] by auto
  from d c have A: "dseg next_coro prev_coro (coros s) None (coro_list s) us (prev_coro c) (Some a)"
    and B: "dseg next_coro prev_coro (coros s) (Some a) (next_coro c) vs l None"
    by (auto simp: dseg_append)
  have p: "\<exists>d. coros s p = Some d" if "prev_coro c = Some p" for p
    using dseg_last[OF A] that listed_cell[OF assms, of p] by (auto split: if_splits)
  have n: "\<exists>d. coros s n = Some d" if "next_coro c = Some n" for n
    using dseg_first[OF B] that listed_cell[OF assms, of n] by (auto split: if_splits)
  have list: "(prev_coro c = None) = (coro_list s = Some a)"
    using dseg_last[OF A] dseg_first[OF d] listed_distinct[OF assms] by (cases us) auto
  define h1 where "h1 = (case prev_coro c of None \<Rightarrow> coros s
    | Some p \<Rightarrow> (coros s)(p \<mapsto> (the (coros s p))\<lparr>next_coro := next_coro c\<rparr>))"
  define h2 where "h2 = (case next_coro c of None \<Rightarrow> h1 | Some n \<Rightarrow> h1(n \<mapsto> (the (h1 n))\<lparr>prev_coro := prev_coro c\<rparr>))"
  have "dlist next_coro prev_coro (h2(a := None)) (if coro_list s = Some a then next_coro c else coro_list s) (us @ vs)
      (if l = Some a then prev_coro c else l)"
    by (rule coro_links.dlist_unlink[OF d c]) (simp_all add: h1_def h2_def)
  then have seg: "dlist next_coro prev_coro h2 (if coro_list s = Some a then next_coro c else coro_list s) (us @ vs)
      (if l = Some a then prev_coro c else l)"
    using listed_distinct[OF assms] by (subst dseg_cong[where h = "h2(a := None)"]) auto
  have run: "coro_list_delete a s = Some (s\<lparr>coros := h2, coro_list := (if coro_list s = Some a then next_coro c else coro_list s)\<rparr>)"
    using c p n list
    by (cases "prev_coro c"; cases "next_coro c")
      (auto simp: coro_list_delete_def h1_def h2_def put_def split: if_splits)
  have "map_option view (h2 b) = map_option view (coros s b)" for b
    using p n by (cases "prev_coro c"; cases "next_coro c") (auto simp: h1_def h2_def view_def)
  with run seg show ?thesis by (auto simp: listed_def views_def)
qed

end
