(* ===== verification/Coro_Props.thy ===== *)
theory Coro_Props imports Coro begin

text \<open>
  The invariant of the coroutine scheduler, that its runs keep it, and its properties: no run is stuck or jumps to
  a coroutine that has ended, the coroutines take turns, and each is handed out once, in the order in which they end.
\<close>

subsection \<open>The invariant\<close>

definition finished :: "scheduler \<Rightarrow> addr \<Rightarrow> bool" where
  "finished s a \<longleftrightarrow> (\<exists>r n. views s a = Some (r, True, n))"

definition alive :: "scheduler \<Rightarrow> addr \<Rightarrow> bool" where
  "alive s a \<longleftrightarrow> (\<exists>r n. views s a = Some (r, False, n))"

text \<open>
  All coroutines that have not finished are in the list; one that has is there only until the scheduler looks,
  and then it is the only one.
\<close>

definition coro_ok :: "control \<Rightarrow> scheduler \<Rightarrow> addr list \<Rightarrow> bool" where
  "coro_ok k s as \<longleftrightarrow> listed s as \<and> (\<forall>a. alive s a \<longrightarrow> a \<in> set as) \<and>
     (case k of
        User \<Rightarrow> coro_this_ptr s = Sched \<and> \<not> is_sched_waiting s \<and> filter (finished s) as = []
      | Looping \<Rightarrow> coro_this_ptr s = Sched \<and> \<not> is_sched_waiting s \<and> length (filter (finished s) as) \<le> 1
      | Running \<Rightarrow> is_sched_waiting s \<and> filter (finished s) as = [] \<and> (\<exists>a \<in> set as. coro_this_ptr s = Co a)
      | Exited \<Rightarrow> False)"

lemma views_cong: "views s' = views s \<Longrightarrow> finished s' = finished s" "views s' = views s \<Longrightarrow> alive s' = alive s"
  by (simp_all add: finished_def alive_def fun_eq_iff)

lemma finished_cell: "coros s a = Some c \<Longrightarrow> finished s a = is_finished c" "coros s a = Some c \<Longrightarrow> alive s a = (\<not> is_finished c)"
  by (auto simp: finished_def alive_def views_def view_def)

lemma alive_or_finished: "listed s as \<Longrightarrow> a \<in> set as \<Longrightarrow> alive s a \<or> finished s a"
  using finished_cell listed_cell by blast

lemma views_put: "views (put a c s) = (views s)(a \<mapsto> view c)"
  by (auto simp: views_def fun_eq_iff)

lemma views_upd [simp]:
  "views (s\<lparr>coro_this_ptr := x\<rparr>) = views s" "views (s\<lparr>is_sched_waiting := b\<rparr>) = views s"
  "views (s\<lparr>sched_switches := n\<rparr>) = views s" "views (s\<lparr>coro_list := p\<rparr>) = views s"
  by (simp_all add: views_def fun_eq_iff)

lemma listed_upd [simp]:
  "listed (s\<lparr>coro_this_ptr := x\<rparr>) as = listed s as" "listed (s\<lparr>is_sched_waiting := b\<rparr>) as = listed s as"
  "listed (s\<lparr>sched_switches := n\<rparr>) as = listed s as"
  by (rule listed_cong; simp)+

subsection \<open>The operations keep it\<close>

lemma find_finished_find:
  assumes "dseg next_coro prev_coro h p x as l None"
  shows "find_finished h x = Some (find (\<lambda>a. \<exists>c. h a = Some c \<and> is_finished c) as)"
  using assms
proof (induction as arbitrary: p x)
  case Nil
  then show ?case by (subst find_finished.simps) simp
next
  case (Cons a as)
  then obtain c where "x = Some a" "h a = Some c" "dseg next_coro prev_coro h (Some a) (next_coro c) as l None"
    by (auto split: option.splits)
  with Cons.IH show ?case by (subst find_finished.simps) simp
qed

lemma find_finished_list:
  assumes "listed s as"
  shows "find_finished (coros s) (coro_list s) = Some (find (finished s) as)"
proof -
  have "(\<lambda>a. \<exists>c. coros s a = Some c \<and> is_finished c) = finished s"
    by (auto simp: fun_eq_iff finished_def views_def view_def)
  then show ?thesis using assms by (auto simp: listed_def dest: find_finished_find)
qed

lemma find_none: "filter P xs = [] \<Longrightarrow> find P xs = None"
  by (simp add: find_None_iff filter_empty_conv)

lemma find_split:
  "find P xs = Some x \<Longrightarrow> \<exists>us vs. xs = us @ x # vs \<and> P x \<and> filter P us = []"
proof (induction xs)
  case (Cons y ys)
  then show ?case
  proof (cases "P y")
    case False
    with Cons obtain us vs where "ys = us @ x # vs" "P x" "filter P us = []" by auto
    with False show ?thesis by (intro exI[of _ "y # us"] exI[of _ vs]) simp
  qed (auto intro: exI[of _ "[]"])
qed simp

lemma jump_to:
  assumes "case to of Sched \<Rightarrow> True | Co a \<Rightarrow> coros s a \<noteq> None"
  shows "jump to s = Some (s\<lparr>coro_this_ptr := to\<rparr>)"
  using assms by (simp add: jump_def)

lemma round_ok:
  assumes "coro_ok Looping s as"
  shows "(as = [] \<and> sched_round s = Some (Inl None, s) \<and> coro_ok User s []) \<or>
    (\<exists>a us vs s'. as = us @ a # vs \<and> finished s a \<and> filter (finished s) as = [a] \<and>
       sched_round s = Some (Inl (Some a), s') \<and> views s' = views s \<and> coro_ok User s' (us @ vs)) \<or>
    (\<exists>s'. as \<noteq> [] \<and> filter (finished s) as = [] \<and> sched_round s = Some (Inr (), s') \<and> views s' = views s \<and>
       coro_this_ptr s' = Co (hd as) \<and> coro_ok Running s' as)"
proof -
  from assms have l: "listed s as" and al: "\<And>a. alive s a \<Longrightarrow> a \<in> set as"
    and ptr: "coro_this_ptr s = Sched" "\<not> is_sched_waiting s" and fin: "length (filter (finished s) as) \<le> 1"
    by (auto simp: coro_ok_def)
  show ?thesis
  proof (cases as)
    case Nil
    then show ?thesis using listed_first[OF l] assms by (auto simp: sched_round_def coro_ok_def)
  next
    case (Cons b bs)
    then have b: "coro_list s = Some b" using listed_first[OF l] by simp
    have find: "find_finished (coros s) (Some b) = Some (find (finished s) as)"
      using find_finished_list[OF l] b by simp
    show ?thesis
    proof (cases "find (finished s) as")
      case (Some a)
      then obtain us vs where a: "as = us @ a # vs" "finished s a" "filter (finished s) us = []" by (blast dest: find_split)
      with fin have vs: "filter (finished s) vs = []" by auto
      obtain s' where s': "coro_list_delete a s = Some s'" "listed s' (us @ vs)" "views s' = views s"
        "coro_this_ptr s' = coro_this_ptr s" "is_sched_waiting s' = is_sched_waiting s"
        using coro_list_delete_listed[OF l[unfolded a(1)]] by blast
      have "a \<noteq> x" if "alive s x" for x using that a(2) by (auto simp: alive_def finished_def)
      then have "coro_ok User s' (us @ vs)"
        using s' ptr al a vs views_cong[OF s'(3)] by (auto simp: coro_ok_def)
      moreover have "sched_round s = Some (Inl (Some a), s')" using b find Some s'(1) by (simp add: sched_round_def)
      ultimately show ?thesis using a vs s'(3) by auto
    next
      case None
      then have none: "filter (finished s) as = []" by (auto simp: find_None_iff filter_empty_conv)
      let ?s = "s\<lparr>is_sched_waiting := True, sched_switches := sched_switches s + 1, coro_this_ptr := Co b\<rparr>"
      have "coros s b \<noteq> None" using listed_cell[OF l, of b] Cons by auto
      then have "sched_round s = Some (Inr (), ?s)"
        using b find None ptr by (simp add: sched_round_def coro_yield_to_def jump_to)
      moreover have "views ?s = views s" by simp
      moreover from views_cong[OF this] have "coro_ok Running ?s as" using l al none Cons by (auto simp: coro_ok_def)
      ultimately show ?thesis using none Cons by auto
    qed
  qed
qed

lemma yield_ok:
  assumes "coro_ok Running s as" "i < length as" "coro_this_ptr s = Co (as ! i)"
  shows "\<exists>s' r n. coro_yield s = Some s' \<and> listed s' as \<and> views s (as ! i) = Some (r, False, n) \<and>
    views s' = (views s)(as ! i \<mapsto> (r, False, n + 1)) \<and>
    coro_this_ptr s' = (if Suc i < length as then Co (as ! Suc i) else Sched) \<and> is_sched_waiting s'"
proof -
  from assms(1) have l: "listed s as" and w: "is_sched_waiting s" and none: "filter (finished s) as = []" by (auto simp: coro_ok_def)
  obtain c where c: "coros s (as ! i) = Some c" using listed_cell[OF l, of "as ! i"] assms(2) by auto
  have fin: "\<not> is_finished c" using none assms(2) finished_cell(1)[OF c] by (auto simp: filter_empty_conv)
  let ?s = "put (as ! i) (c\<lparr>switch_count := switch_count c + 1\<rparr>) s"
  let ?to = "if Suc i < length as then Co (as ! Suc i) else Sched"
  have to: "(case next_coro c of None \<Rightarrow> Sched | Some n \<Rightarrow> Co n) = ?to" using listed_next[OF l assms(2) c] by simp
  have "coros ?s (as ! Suc i) \<noteq> None" if "Suc i < length as" using listed_cell[OF l, of "as ! Suc i"] that by auto
  then have "jump ?to ?s = Some (?s\<lparr>coro_this_ptr := ?to\<rparr>)" by (intro jump_to) simp
  then have run: "coro_yield s = Some (?s\<lparr>coro_this_ptr := ?to\<rparr>)"
    using assms(3) c to by (simp add: coro_yield_def coro_yield_to_def)
  have "listed ?s as" by (rule listed_put[OF l c]) simp_all
  with run c fin w show ?thesis by (auto simp: views_put views_def view_def)
qed

lemma at_scheduler_views: "views (snd (at_scheduler s)) = views s"
  by (simp add: at_scheduler_def woken_def)

lemma at_scheduler_ok:
  assumes "listed s as" "\<And>a. alive s a \<Longrightarrow> a \<in> set as" "is_sched_waiting s"
    "length (filter (finished s) as) \<le> 1" "coro_this_ptr s \<noteq> Sched \<Longrightarrow> filter (finished s) as = []"
    "coro_this_ptr s \<in> insert Sched (Co ` set as)"
  shows "coro_ok (fst (at_scheduler s)) (snd (at_scheduler s)) as"
proof -
  have v: "views (woken s) = views s" by (simp add: woken_def)
  show "coro_ok (fst (at_scheduler s)) (snd (at_scheduler s)) as"
    using assms views_cong[OF v] by (cases "coro_this_ptr s") (auto simp: at_scheduler_def coro_ok_def woken_def)
qed

lemma end_ok:
  assumes "coro_ok Running s as"
  shows "\<exists>s' a m n. coro_this_ptr s = Co a \<and> a \<in> set as \<and> coro_body_end r s = Some (Inr s') \<and> listed s' as \<and>
    views s a = Some (m, False, n) \<and> views s' = (views s)(a \<mapsto> (r, True, n)) \<and> coro_this_ptr s' = Sched \<and> is_sched_waiting s'"
proof -
  from assms obtain a where l: "listed s as" and w: "is_sched_waiting s" and none: "filter (finished s) as = []"
    and a: "a \<in> set as" "coro_this_ptr s = Co a" by (auto simp: coro_ok_def)
  obtain c where c: "coros s a = Some c" using listed_cell[OF l a(1)] by auto
  have fin: "\<not> is_finished c" using none a(1) finished_cell(1)[OF c] by (auto simp: filter_empty_conv)
  have "listed (put a (c\<lparr>ret := r, is_finished := True\<rparr>) s) as" by (rule listed_put[OF l c]) simp_all
  then show ?thesis using a c w fin
    by (auto simp: coro_body_end_def jump_to views_put views_def view_def)
qed


subsection \<open>Runs\<close>

text \<open>The coroutines that have ended and those that were handed out, in order, and the values they returned.\<close>

fun finishes :: "event list \<Rightarrow> addr list" where
  "finishes [] = []"
| "finishes (Finished a r # es) = a # finishes es"
| "finishes (_ # es) = finishes es"

fun handed :: "event list \<Rightarrow> addr list" where
  "handed [] = []"
| "handed (Returned (Some a) # es) = a # handed es"
| "handed (_ # es) = handed es"

definition log_status :: "(addr \<rightharpoonup> int) \<Rightarrow> event \<Rightarrow> (addr \<rightharpoonup> int)" where
  "log_status m e = (case e of Finished a r \<Rightarrow> m(a \<mapsto> r) | _ \<Rightarrow> m)"

definition status_log :: "event list \<Rightarrow> (addr \<rightharpoonup> int)" where
  "status_log es = foldl log_status Map.empty es"

lemma finishes_append: "finishes (es @ fs) = finishes es @ finishes fs"
  by (induction es rule: finishes.induct) auto

lemma handed_append: "handed (es @ fs) = handed es @ handed fs"
  by (induction es rule: handed.induct) auto

text \<open>What a step does to the list, and to what is known of the finished ones.\<close>

definition step_effect :: "scheduler \<Rightarrow> addr list \<Rightarrow> event \<Rightarrow> scheduler \<Rightarrow> addr list \<Rightarrow> bool" where
  "step_effect s as e s' as' \<longleftrightarrow>
     filter (finished s) as @ finishes [e] = handed [e] @ filter (finished s') as' \<and>
     (\<forall>x r n. views s' x = Some (r, True, n) \<longrightarrow>
        e = Finished x r \<or> views s x = Some (r, True, n) \<and> (\<forall>r'. e \<noteq> Finished x r'))"

lemma create_ok:
  assumes "coro_ok k s as" "k = User \<or> k = Running" "coros s a = None" "coro_new a s = Some s'"
  shows "coro_ok k s' (a # as)" "step_effect s as (Created a) s' (a # as)"
proof -
  from assms(1) have l: "listed s as" and al: "\<And>a. alive s a \<Longrightarrow> a \<in> set as" by (auto simp: coro_ok_def)
  from coro_new_listed[OF l assms(3)] assms(4) have s': "listed s' (a # as)" "views s' = (views s)(a \<mapsto> (0, False, 0))"
    "coro_this_ptr s' = coro_this_ptr s" "is_sched_waiting s' = is_sched_waiting s" by auto
  have fin: "finished s' x = (x \<noteq> a \<and> finished s x)" "alive s' x = (x = a \<or> alive s x)" for x
    by (auto simp: finished_def alive_def s'(2))
  have "a \<notin> set as" using listed_cell[OF l, of a] assms(3) by auto
  then have flt: "filter (finished s') (a # as) = filter (finished s) as" by (auto simp: fin intro: filter_cong)
  show "coro_ok k s' (a # as)" using s' al flt assms(1,2) by (auto simp: coro_ok_def fin)
  show "step_effect s as (Created a) s' (a # as)" unfolding step_effect_def flt by (auto simp: s'(2) split: if_splits)
qed

lemma free_ok:
  assumes "coro_ok User s as" "coro_is_finished a s = Some True" "coro_delete a s = Some s'"
  shows "coro_ok User s' as" "step_effect s as (Freed a) s' as"
proof -
  from assms(1) have l: "listed s as" and al: "\<And>a. alive s a \<Longrightarrow> a \<in> set as" and none: "filter (finished s) as = []"
    by (auto simp: coro_ok_def)
  from assms(3) have s': "s' = s\<lparr>coros := (coros s)(a := None)\<rparr>" by (auto simp: coro_delete_def split: Option.bind_splits)
  have "finished s a" using assms(2) by (auto simp: coro_is_finished_def finished_cell)
  then have a: "a \<notin> set as" using none by (auto simp: filter_empty_conv)
  have v: "views s' = (views s)(a := None)" by (auto simp: s' views_def fun_eq_iff)
  from l obtain e where "dlist next_coro prev_coro (coros s) (coro_list s) as e" by (auto simp: listed_def)
  then have "dlist next_coro prev_coro ((coros s)(a := None)) (coro_list s) as e"
    using a by (subst dseg_cong[where h = "coros s"]) auto
  then have "listed s' as" by (auto simp: listed_def s')
  moreover have fin: "finished s' x = (x \<noteq> a \<and> finished s x)" "alive s' x = (x \<noteq> a \<and> alive s x)" for x
    by (auto simp: finished_def alive_def v)
  moreover have flt: "filter (finished s') as = []" using none by (auto simp: fin filter_empty_conv)
  ultimately show "coro_ok User s' as" using al assms(1) by (auto simp: coro_ok_def s')
  show "step_effect s as (Freed a) s' as" unfolding step_effect_def flt none by (auto simp: v split: if_splits)
qed

lemma filter_single: "distinct xs \<Longrightarrow> a \<in> set xs \<Longrightarrow> (\<And>x. x \<in> set xs \<Longrightarrow> P x = (x = a)) \<Longrightarrow> filter P xs = [a]"
proof (induction xs)
  case (Cons x xs)
  then show ?case by (cases "x = a") (auto simp: filter_empty_conv)
qed simp

lemma finish_step_ok:
  assumes "coro_ok Running s as" "coro_this_ptr s = Co a" "coro_body_end r s = Some res"
  shows "\<exists>s'. res = Inr s' \<and> coro_ok (fst (at_scheduler s')) (snd (at_scheduler s')) as \<and>
    step_effect s as (Finished a r) (snd (at_scheduler s')) as"
proof -
  from end_ok[OF assms(1), of r] assms(2,3) obtain s' m n where s': "res = Inr s'" "a \<in> set as" "listed s' as"
    "views s a = Some (m, False, n)" "views s' = (views s)(a \<mapsto> (r, True, n))" "coro_this_ptr s' = Sched" "is_sched_waiting s'"
    by auto
  from assms(1) have l: "listed s as" and al: "\<And>a. alive s a \<Longrightarrow> a \<in> set as" and none: "filter (finished s) as = []"
    by (auto simp: coro_ok_def)
  have fin: "finished s' x = (x = a \<or> finished s x)" "alive s' x = (x \<noteq> a \<and> alive s x)" for x
    by (auto simp: finished_def alive_def s'(5))
  have flt: "filter (finished s') as = [a]"
    using none by (intro filter_single[OF listed_distinct[OF l] s'(2)]) (auto simp: fin filter_empty_conv)
  note v = at_scheduler_views[of s']
  have "coro_ok (fst (at_scheduler s')) (snd (at_scheduler s')) as"
    using al flt s' by (auto intro!: at_scheduler_ok simp: fin)
  moreover have "step_effect s as (Finished a r) (snd (at_scheduler s')) as"
    unfolding step_effect_def views_cong[OF v] v flt none by (auto simp: s'(5) split: if_splits)
  ultimately show ?thesis using s'(1) by blast
qed

lemma yield_step_ok:
  assumes "coro_ok Running s as" "coro_yield s = Some s'"
  shows "coro_ok (fst (at_scheduler s')) (snd (at_scheduler s')) as" "step_effect s as (Switched x) (snd (at_scheduler s')) as"
proof -
  from assms(1) have l: "listed s as" and al: "\<And>a. alive s a \<Longrightarrow> a \<in> set as" and none: "filter (finished s) as = []"
    and "\<exists>a \<in> set as. coro_this_ptr s = Co a" by (auto simp: coro_ok_def)
  then obtain i where i: "i < length as" "coro_this_ptr s = Co (as ! i)" by (metis in_set_conv_nth)
  from yield_ok[OF assms(1) i] assms(2) obtain r n where s': "listed s' as" "views s (as ! i) = Some (r, False, n)"
    "views s' = (views s)(as ! i \<mapsto> (r, False, n + 1))" "coro_this_ptr s' = (if Suc i < length as then Co (as ! Suc i) else Sched)"
    "is_sched_waiting s'" by auto
  have fin: "finished s' = finished s" "alive s' = alive s"
    using s'(2) by (auto simp: finished_def alive_def s'(3) fun_eq_iff)
  note v = at_scheduler_views[of s']
  have "coro_ok (fst (at_scheduler s')) (snd (at_scheduler s')) as"
    using al none s' by (auto intro!: at_scheduler_ok simp: fin)
  then show "coro_ok (fst (at_scheduler s')) (snd (at_scheduler s')) as" by blast
  show "step_effect s as (Switched x) (snd (at_scheduler s')) as"
    unfolding step_effect_def views_cong[OF v] v fin none by (auto simp: s'(3) split: if_splits)
qed

lemma coro_step_ok:
  assumes "coro_step (k, s) e (k', s')" "coro_ok k s as"
  shows "\<exists>as'. coro_ok k' s' as' \<and> step_effect s as e s' as'"
  using assms(1)
proof cases
  case (create a)
  then show ?thesis using create_ok[OF assms(2), of a s'] by blast
next
  case call
  then show ?thesis using assms(2) by (intro exI[of _ as]) (auto simp: coro_ok_def step_effect_def)
next
  case (return r)
  with assms(2) have ok: "coro_ok Looping s as" by simp
  from round_ok[OF ok] show ?thesis
  proof (elim disjE exE conjE, goal_cases)
    case 1
    with return have "r = None" "s' = s" by auto
    with 1 return show ?thesis by (intro exI[of _ "[]"]) (simp add: step_effect_def)
  next
    case (2 a us vs t)
    with return have r: "r = Some a" "s' = t" by auto
    from 2(6) have "filter (finished t) (us @ vs) = []" by (simp add: coro_ok_def)
    with 2 r return show ?thesis by (intro exI[of _ "us @ vs"]) (simp add: step_effect_def)
  next
    case (3 t)
    with return show ?thesis by auto
  qed
next
  case (enter u)
  with assms(2) have ok: "coro_ok Looping s as" by simp
  from round_ok[OF ok] show ?thesis
  proof (elim disjE exE conjE, goal_cases)
    case (3 t)
    with enter have t: "s' = t" by auto
    from 3(6) have "filter (finished t) as = []" by (simp add: coro_ok_def)
    with 3 t enter show ?thesis by (intro exI[of _ as]) (simp add: step_effect_def)
  qed (use enter in auto)
next
  case (yield t)
  with assms(2) have "coro_ok Running s as" by simp
  from yield_step_ok[OF this yield(4)] yield show ?thesis by (metis fst_conv snd_conv)
next
  case (finish a r t)
  with assms(2) have "coro_ok Running s as" by simp
  from finish_step_ok[OF this finish(4,5)] finish show ?thesis by (metis fst_conv snd_conv sum.inject(2))
next
  case (critical a r u)
  with assms(2) have "coro_ok Running s as" by simp
  from finish_step_ok[OF this critical(5,6)] show ?thesis by auto
next
  case (free a)
  then show ?thesis using free_ok assms(2) by blast
qed


text \<open>A program starts with \<open>coro_sched_init()\<close>.\<close>

abbreviation coro_reaches :: "event list \<Rightarrow> control \<Rightarrow> scheduler \<Rightarrow> bool" where
  "coro_reaches es k s \<equiv> coro_run (User, coro_sched_init) es (k, s)"

lemma coro_reaches_ok:
  assumes "coro_reaches es k s"
  shows "\<exists>as. coro_ok k s as \<and> finishes es = handed es @ filter (finished s) as \<and>
    (\<forall>x r n. views s x = Some (r, True, n) \<longrightarrow> status_log es x = Some r)"
  using assms
proof (induction "(User, coro_sched_init)" es "(k, s)" arbitrary: k s rule: coro_run.induct)
  case stop
  then show ?case
    by (intro exI[of _ "[]"]) (auto simp: coro_ok_def coro_sched_init_def listed_def alive_def views_def)
next
  case (more es st' e k s)
  obtain k0 s0 where st': "st' = (k0, s0)" by (cases st')
  from more(2)[OF st'] obtain as where as: "coro_ok k0 s0 as" "finishes es = handed es @ filter (finished s0) as"
    "\<forall>x r n. views s0 x = Some (r, True, n) \<longrightarrow> status_log es x = Some r" by blast
  from coro_step_ok[OF more(3)[unfolded st'] as(1)] obtain as' where
    as': "coro_ok k s as'" "step_effect s0 as e s as'" by blast
  have "status_log (es @ [e]) x = Some r" if "views s x = Some (r, True, n)" for x r n
    using that as'(2) as(3) by (fastforce simp: step_effect_def status_log_def log_status_def split: event.splits)
  moreover have "finishes (es @ [e]) = handed (es @ [e]) @ filter (finished s) as'"
    using as(2) as'(2) by (simp add: finishes_append handed_append step_effect_def)
  ultimately show ?case using as'(1) by blast
qed

lemma handed_pending: "coro_ok k s as \<Longrightarrow> k \<noteq> Looping \<Longrightarrow> filter (finished s) as = []"
  by (auto simp: coro_ok_def split: control.splits)

lemma coro_is_finished_views: "coro_is_finished a s = Some b \<longleftrightarrow> (\<exists>r n. views s a = Some (r, b, n))"
  by (auto simp: coro_is_finished_def views_def view_def)

subsection \<open>Properties\<close>

text \<open>A run: two coroutines are made, the second one made runs first and ends.\<close>

definition two_coros :: scheduler where
  "two_coros = the (coro_new 2 (the (coro_new 1 coro_sched_init)))"

lemma two_coros_run: "coro_reaches [Created 1, Created 2, Called] Looping two_coros"
proof -
  have n1: "coro_new 1 coro_sched_init = Some (the (coro_new 1 coro_sched_init))"
    by (simp add: coro_new_def coro_list_add_def coro_sched_init_def)
  have n2: "coro_new 2 (the (coro_new 1 coro_sched_init)) = Some two_coros"
    by (simp add: two_coros_def coro_new_def coro_list_add_def coro_sched_init_def)
  have fresh: "coros coro_sched_init 1 = None" "coros (the (coro_new 1 coro_sched_init)) 2 = None"
    by (simp_all add: coro_new_def coro_list_add_def coro_sched_init_def)
  have "coro_reaches ([] @ [Created 1]) User (the (coro_new 1 coro_sched_init))"
    by (rule coro_run.more[OF coro_run.stop coro_step.create[OF _ fresh(1) n1]]) simp
  from coro_run.more[OF this coro_step.create[OF _ fresh(2) n2]]
  have "coro_reaches (([] @ [Created 1]) @ [Created 2]) User two_coros" by simp
  from coro_run.more[OF this coro_step.call] show ?thesis by simp
qed

definition two_running :: scheduler where
  "two_running = snd (the (sched_round two_coros))"

lemma two_coros_round: "sched_round two_coros = Some (Inr (), two_running)"
proof -
  have "map_option fst (sched_round two_coros) = Some (Inr ())"
    unfolding two_coros_def by (simp add: sched_round_def coro_new_def coro_list_add_def coro_sched_init_def
        find_finished.simps coro_yield_to_def jump_def)
  then show ?thesis by (cases "sched_round two_coros") (auto simp: two_running_def)
qed

text \<open>The second coroutine ends with 5 and is handed out.\<close>

definition two_ended :: scheduler where
  "two_ended = (case the (coro_body_end 5 two_running) of Inr s \<Rightarrow> s | Inl u \<Rightarrow> two_running)"

definition two_handed :: scheduler where
  "two_handed = snd (the (sched_round (woken two_ended)))"

abbreviation two_events :: "event list" where
  "two_events \<equiv> [Created 1, Created 2, Called, Switched (Co 2), Finished 2 5, Returned (Some 2)]"

lemma two_running_cells: "coro_this_ptr two_running = Co 2" "is_sched_waiting two_running" "coro_list two_running = Some 2"
  "coros two_running = [1 \<mapsto> \<lparr>ret = 0, is_finished = False, switch_count = 0, next_coro = None, prev_coro = Some 2\<rparr>,
    2 \<mapsto> \<lparr>ret = 0, is_finished = False, switch_count = 0, next_coro = Some 1, prev_coro = None\<rparr>]"
  by (simp_all add: two_running_def two_coros_def sched_round_def coro_new_def coro_list_add_def coro_sched_init_def
      find_finished.simps coro_yield_to_def jump_def put_def fun_eq_iff)

lemma two_handed_finished: "coro_is_finished 2 two_handed = Some True"
  by (simp add: two_handed_def two_ended_def sched_round_def find_finished.simps coro_list_delete_def coro_is_finished_def
      coro_body_end_def jump_def woken_def two_running_cells put_def)

lemma two_coros_handed: "coro_reaches two_events User two_handed"
proof -
  note defs = coro_body_end_def jump_def woken_def two_running_cells at_scheduler_def put_def
  have e: "coro_body_end 5 two_running = Some (Inr two_ended)" by (simp add: two_ended_def defs)
  then have at: "at_scheduler two_ended = (Looping, woken two_ended)" by (auto simp: two_ended_def defs)
  have "map_option fst (sched_round (woken two_ended)) = Some (Inl (Some 2))"
    by (simp add: two_ended_def sched_round_def find_finished.simps coro_list_delete_def defs)
  then have r: "sched_round (woken two_ended) = Some (Inl (Some 2), two_handed)"
    by (cases "sched_round (woken two_ended)") (auto simp: two_handed_def)
  from coro_run.more[OF two_coros_run coro_step.enter[OF two_coros_round]]
  have "coro_reaches [Created 1, Created 2, Called, Switched (Co 2)] Running two_running" by (simp add: two_running_cells)
  from coro_run.more[OF this coro_step.finish[OF two_running_cells(1) e]]
  have "coro_reaches [Created 1, Created 2, Called, Switched (Co 2), Finished 2 5] Looping (woken two_ended)" by (simp add: at)
  from coro_run.more[OF this coro_step.return[OF r]] show ?thesis by simp
qed

text \<open>
  C22. A program that uses the library never gets stuck in it nor to its critical error: the scheduler's round, a yield and the end of a
  coroutine all succeed wherever they can happen, the coroutine that runs has not finished, and
  \<open>coro_sched_wait\<close> returns a null pointer only when all coroutines have.
\<close>

theorem coro_scheduler_safe:
  assumes "coro_reaches es k s"
  shows "case k of User \<Rightarrow> True | Exited \<Rightarrow> False
    | Looping \<Rightarrow> (\<exists>r s'. sched_round s = Some (r, s') \<and>
        (r = Inl None \<longrightarrow> (\<forall>a. coro_is_finished a s \<noteq> Some False)))
    | Running \<Rightarrow> (\<exists>a. coro_this_ptr s = Co a \<and> coro_is_finished a s = Some False) \<and>
        (\<exists>s'. coro_yield s = Some s') \<and> (\<forall>r. \<exists>s'. coro_body_end r s = Some (Inr s'))"
proof -
  from coro_reaches_ok[OF assms] obtain as where ok: "coro_ok k s as" by blast
  show ?thesis
  proof (cases k)
    case Looping
    with ok have l: "coro_ok Looping s as" by simp
    have "\<not> alive s a" if "as = []" for a using l that by (simp add: coro_ok_def)
    then have "coro_is_finished a s \<noteq> Some False" if "as = []" for a
      using that by (auto simp: coro_is_finished_views alive_def)
    with round_ok[OF l] show ?thesis unfolding Looping control.case by (elim disjE exE conjE) auto
  next
    case Running
    with ok obtain i where i: "i < length as" "coro_this_ptr s = Co (as ! i)"
      by (auto simp: coro_ok_def) (metis in_set_conv_nth)
    then show ?thesis
      using Running ok yield_ok[of s as i] end_ok[of s as] by (auto simp: coro_is_finished_views) 
  qed (use ok in \<open>auto simp: coro_ok_def\<close>)
qed

theorem coro_scheduler_safe_witness: "\<exists>r s'. sched_round two_coros = Some (r, s')"
  using coro_scheduler_safe[OF two_coros_run] by auto

text \<open>
  C13. \<open>coro_sched_wait\<close> hands out each coroutine that has ended once, in the order in which they end, before
  anything else runs; \<open>coro_status\<close> of it is what its function returned.
\<close>

theorem coro_returns_in_order:
  assumes "coro_reaches es k s"
  shows "\<exists>pending. finishes es = handed es @ pending \<and> length pending \<le> 1 \<and> (k \<noteq> Looping \<longrightarrow> pending = []) \<and>
    (\<forall>a. coro_is_finished a s = Some True \<longrightarrow> coro_status a s = status_log es a)"
proof -
  from coro_reaches_ok[OF assms] obtain as where ok: "coro_ok k s as" "finishes es = handed es @ filter (finished s) as"
    "\<forall>x r n. views s x = Some (r, True, n) \<longrightarrow> status_log es x = Some r" by blast
  have "length (filter (finished s) as) \<le> 1"
    using ok(1) handed_pending[OF ok(1)] by (cases k) (auto simp: coro_ok_def)
  moreover have "coro_status a s = status_log es a" if "coro_is_finished a s = Some True" for a
  proof -
    from that obtain c where "coros s a = Some c" "is_finished c" by (auto simp: coro_is_finished_def)
    then have "views s a = Some (ret c, True, switch_count c)" by (simp add: views_def view_def)
    with ok(3) \<open>coros s a = Some c\<close> show ?thesis by (auto simp: coro_status_def)
  qed
  ultimately show ?thesis using ok(2) handed_pending[OF ok(1)] by blast
qed

theorem coro_returns_in_order_witness:
  "finishes two_events = [2] \<and> handed two_events = [2] \<and>
    coro_status 2 two_handed = Some 5"
  using coro_returns_in_order[OF two_coros_handed] two_handed_finished by (auto simp: status_log_def log_status_def)

text \<open>A number of yields, each by the coroutine that then runs.\<close>

fun yields :: "nat \<Rightarrow> scheduler \<Rightarrow> scheduler option" where
  "yields 0 s = Some s"
| "yields (Suc n) s = do {
     s \<leftarrow> yields n s;
     coro_yield s
   }"

lemma yields_ok:
  assumes "coro_ok Running s as" "coro_this_ptr s = Co (hd as)" "i \<le> length as"
  shows "\<exists>s'. yields i s = Some s' \<and> coro_this_ptr s' = (if i < length as then Co (as ! i) else Sched) \<and> listed s' as \<and>
    is_sched_waiting s' \<and> finished s' = finished s \<and> alive s' = alive s \<and>
    (\<forall>x. coro_switch_count x s' = map_option (\<lambda>n. if x \<in> set (take i as) then n + 1 else n) (coro_switch_count x s))"
  using assms(3)
proof (induction i)
  case 0
  have "as \<noteq> []" using assms(1) by (auto simp: coro_ok_def)
  then show ?case using assms by (auto simp: coro_ok_def hd_conv_nth option.map_ident)
next
  case (Suc i)
  then obtain s1 where s1: "yields i s = Some s1" "coro_this_ptr s1 = Co (as ! i)" "listed s1 as" "is_sched_waiting s1"
    "finished s1 = finished s" "alive s1 = alive s"
    "\<forall>x. coro_switch_count x s1 = map_option (\<lambda>n. if x \<in> set (take i as) then n + 1 else n) (coro_switch_count x s)" by auto
  have i: "i < length as" using Suc.prems by simp
  have ok: "coro_ok Running s1 as" using s1 assms(1) i by (auto simp: coro_ok_def)
  from yield_ok[OF ok i s1(2)] obtain s2 r n where s2: "coro_yield s1 = Some s2" "listed s2 as"
    "views s1 (as ! i) = Some (r, False, n)" "views s2 = (views s1)(as ! i \<mapsto> (r, False, n + 1))"
    "coro_this_ptr s2 = (if Suc i < length as then Co (as ! Suc i) else Sched)" "is_sched_waiting s2" by blast
  have fin: "finished s2 = finished s1" "alive s2 = alive s1"
    using s2(3) by (auto simp: finished_def alive_def s2(4) fun_eq_iff)
  have cnt: "coro_switch_count x s' = map_option (\<lambda>(r, f, n). n) (views s' x)" for x s'
    by (cases "coros s' x") (simp_all add: coro_switch_count_def views_def view_def)
  have new: "as ! i \<notin> set (take i as)"
    using listed_distinct[OF s1(3)] i by (auto simp: in_set_conv_nth nth_eq_iff_index_eq)
  have take: "set (take (Suc i) as) = insert (as ! i) (set (take i as))" using i by (simp add: take_Suc_conv_app_nth)
  have "coro_switch_count x s2 = map_option (\<lambda>n. if x \<in> set (take (Suc i) as) then n + 1 else n) (coro_switch_count x s)" for x
  proof (cases "x = as ! i")
    case True
    have "coro_switch_count x s1 = coro_switch_count x s"
      using s1(7) new True by (simp add: option.map_ident)
    moreover have "coro_switch_count x s1 = Some n" "coro_switch_count x s2 = Some (n + 1)" using s2(3) True by (simp_all add: cnt s2(4))
    ultimately show ?thesis unfolding take using True by simp
  next
    case False
    then have "coro_switch_count x s2 = coro_switch_count x s1" by (simp add: cnt s2(4))
    then show ?thesis unfolding take using False s1(7) by simp
  qed
  then show ?case using s1 s2 fin i by auto
qed

text \<open>The end of the coroutine whose turn it is, after \<open>i\<close> have yielded.\<close>

lemma end_after_yields:
  assumes "coro_ok Running s as" "coro_this_ptr s = Co (hd as)" "i < length as"
  shows "\<exists>si s2 s3. yields i s = Some si \<and> coro_body_end r si = Some (Inr s2) \<and> coro_this_ptr s2 = Sched \<and>
    sched_round (woken s2) = Some (Inl (Some (as ! i)), s3)"
proof -
  from yields_ok[OF assms(1,2), of i] assms(3) obtain si where si: "yields i s = Some si" "coro_this_ptr si = Co (as ! i)"
    "listed si as" "is_sched_waiting si" "finished si = finished s" "alive si = alive s" by auto
  have ok: "coro_ok Running si as" using si assms(1,3) by (auto simp: coro_ok_def)
  from end_ok[OF ok, of r] obtain s2 where s2: "coro_body_end r si = Some (Inr s2)" "coro_this_ptr s2 = Sched" by blast
  from finish_step_ok[OF ok si(2) s2(1)] s2(2) have w: "coro_ok Looping (woken s2) as"
    "step_effect si as (Finished (as ! i) r) (woken s2) as" by (auto simp: at_scheduler_def)
  have "filter (finished si) as = []" using ok by (simp add: coro_ok_def)
  with w(2) have "filter (finished (woken s2)) as = [as ! i]" by (simp add: step_effect_def)
  with round_ok[OF w(1)] have "\<exists>s3. sched_round (woken s2) = Some (Inl (Some (as ! i)), s3)" by auto
  with si(1) s2 show ?thesis by blast
qed

text \<open>
  C21. The coroutines take turns: if \<open>coro_sched_wait\<close> finds nothing that has finished, then, as long as those that run
  yield and make no new coroutines, all coroutines run one after the other, each exactly once; when each has yielded the
  scheduler is back, and every switch count is one more.  If the one whose turn it is ends instead, the scheduler is
  back at once, and what it does next is to return that coroutine; those behind it in
  the list do not run.
\<close>

theorem coro_round_robin:
  assumes "coro_reaches es Looping s" "sched_round s = Some (Inr u, s1)"
  shows "\<exists>as. distinct as \<and> set as = {a. coro_is_finished a s = Some False} \<and>
    (\<forall>i < length as. \<exists>si. yields i s1 = Some si \<and> coro_this_ptr si = Co (as ! i)) \<and>
    (\<exists>s2. yields (length as) s1 = Some s2 \<and> coro_this_ptr s2 = Sched \<and>
      (\<forall>a \<in> set as. coro_switch_count a s2 = map_option (\<lambda>n. n + 1) (coro_switch_count a s))) \<and>
    (\<forall>i < length as. \<forall>r. \<exists>si s2 s3. yields i s1 = Some si \<and> coro_body_end r si = Some (Inr s2) \<and>
      coro_this_ptr s2 = Sched \<and> sched_round (woken s2) = Some (Inl (Some (as ! i)), s3))"
proof -
  from coro_reaches_ok[OF assms(1)] obtain as where ok: "coro_ok Looping s as" by blast
  from round_ok[OF ok] assms(2) have r: "as \<noteq> []" "filter (finished s) as = []" "views s1 = views s"
    "coro_this_ptr s1 = Co (hd as)" "coro_ok Running s1 as" by auto
  have l: "listed s as" using ok by (simp add: coro_ok_def)
  have cnt: "coro_switch_count x s' = map_option (\<lambda>(r, f, n). n) (views s' x)" for x s'
    by (cases "coros s' x") (simp_all add: coro_switch_count_def views_def view_def)
  have al: "alive s a \<longleftrightarrow> coro_is_finished a s = Some False" for a by (simp add: coro_is_finished_views alive_def)
  have "set as = {a. alive s a}"
    using ok r(2) alive_or_finished[OF l] by (auto simp: coro_ok_def filter_empty_conv)
  moreover have "\<exists>si. yields i s1 = Some si \<and> coro_this_ptr si = Co (as ! i)" if "i < length as" for i
    using yields_ok[OF r(5,4), of i] that by auto
  moreover have "\<exists>s2. yields (length as) s1 = Some s2 \<and> coro_this_ptr s2 = Sched \<and>
      (\<forall>a \<in> set as. coro_switch_count a s2 = map_option (\<lambda>n. n + 1) (coro_switch_count a s))"
    using yields_ok[OF r(5,4), of "length as"] by (auto simp: cnt r(3))
  moreover have "\<exists>si s2 s3. yields i s1 = Some si \<and> coro_body_end v si = Some (Inr s2) \<and> coro_this_ptr s2 = Sched \<and>
      sched_round (woken s2) = Some (Inl (Some (as ! i)), s3)" if "i < length as" for i v
    using end_after_yields[OF r(5,4) that] by blast
  ultimately show ?thesis using listed_distinct[OF l] al by (intro exI[of _ as]) auto
qed

theorem coro_round_robin_witness:
  "\<exists>as. distinct as \<and> set as = {a. coro_is_finished a two_coros = Some False} \<and>
    (\<forall>i < length as. \<exists>si. yields i two_running = Some si \<and> coro_this_ptr si = Co (as ! i)) \<and>
    (\<forall>i < length as. \<forall>r. \<exists>si s2 s3. yields i two_running = Some si \<and> coro_body_end r si = Some (Inr s2) \<and>
      coro_this_ptr s2 = Sched \<and> sched_round (woken s2) = Some (Inl (Some (as ! i)), s3))"
  using coro_round_robin[OF two_coros_run two_coros_round] by blast

end
