(* ===== verification/Sort_Run.thy ===== *)
theory Sort_Run imports Sort_Props Coro_Props begin

text \<open>
  Assignment_1 as one program: \<open>main()\<close> and the coroutines of main.c on top of the scheduler of libcoro.c.  A step
  of the program is one of main.c together with the step of the library that it calls, so that a run of the program is a run
  of the library (Coro) and, for the coroutines and the list of files, one of Sort_Main.
\<close>

subsection \<open>The program\<close>

text \<open>Where \<open>main()\<close> is, from \<open>coro_sched_init()\<close> to the end of the loop that waits for the coroutines.\<close>

datatype main_place = Creating nat | Calling | Waiting | Got addr | Collecting

text \<open>\<open>frames\<close> and \<open>switch_cnt\<close> hold what each coroutine has on its stack.\<close>

record program =
  main_at :: main_place
  control :: control
  sched :: scheduler
  frames :: "addr \<rightharpoonup> coroutine"
  switch_cnt :: "addr \<Rightarrow> nat"
  g_sorted_files :: "file_list list"

definition program_start :: "string list \<Rightarrow> program" where
  "program_start names = \<lparr>main_at = Creating 0, control = User, sched = coro_sched_init, frames = Map.empty,
     switch_cnt = (\<lambda>_. 0), g_sorted_files = new_files names\<rparr>"

text \<open>
  The arguments: the number of coroutines, the target latency, and the names of the files.  \<open>strtol\<close> in base 10 skips blanks, reads a
  sign and digits, gives 0 if there are none, and stays in the range of \<open>long\<close>.
\<close>

definition strtol :: "string \<Rightarrow> int" where
  "strtol s = (case fst (scan_int s) of None \<Rightarrow> 0 | Some x \<Rightarrow> max (- (2 ^ 63)) (min (2 ^ 63 - 1) x))"

definition main_args :: "string list \<Rightarrow> (int \<times> 64 word \<times> string list) option" where
  "main_args argv = (case argv of
     name # pool_size # latency # names \<Rightarrow> Some (strtol pool_size, word_of_int (strtol latency), names)
   | _ \<Rightarrow> None)"

lemma main_args_show:
  assumes "- (2 ^ 63) \<le> n" "n < 2 ^ 63" "- (2 ^ 63) \<le> l" "l < 2 ^ 63"
  shows "main_args (prog # show_int n # show_int l # names) = Some (n, word_of_int l, names)"
proof -
  have "strtol (show_int x) = x" if "- (2 ^ 63) \<le> x" "x < 2 ^ 63" for x
    using scan_show[of "[]" x] that by (simp add: strtol_def)
  then show ?thesis using assms by (simp add: main_args_def)
qed

text \<open>The name of a coroutine is printed into an array of 16 characters.\<close>

abbreviation (input) COROUTINE_NAME_LEN :: nat where "COROUTINE_NAME_LEN \<equiv> 16"

definition coro_name :: "nat \<Rightarrow> string option" where
  "coro_name i = do {
     let name = ''Coroutine-'' @ show_nat i;
     ensure (length name + 1 \<le> COROUTINE_NAME_LEN);
     Some name
   }"

text \<open>\<open>coroutine_func_f\<close> before its loop.\<close>

definition coroutine_start :: coroutine where
  "coroutine_start = \<lparr>place = Testing 0, cur_trace_id = 0, sumExecTime = 0\<rparr>"

lemma coroutine_start_simps [simp]: "place coroutine_start = Testing 0" "sumExecTime coroutine_start = 0"
  by (simp_all add: coroutine_start_def)

abbreviation (input) EXIT_SUCCESS :: int where "EXIT_SUCCESS \<equiv> 0"

text \<open>The coroutine that runs, if one does.\<close>

definition runs :: "program \<Rightarrow> addr \<Rightarrow> coroutine \<Rightarrow> bool" where
  "runs p a c \<longleftrightarrow> control p = Running \<and> coro_this_ptr (sched p) = Co a \<and> frames p a = Some c"

abbreviation lib_step :: "program \<Rightarrow> event \<Rightarrow> control \<Rightarrow> scheduler \<Rightarrow> bool" where
  "lib_step p e k s \<equiv> coro_step (control p, sched p) e (k, s)"

inductive program_step :: "(string \<Rightarrow> string option) \<Rightarrow> 64 word \<Rightarrow> nat \<Rightarrow> program \<Rightarrow> program \<Rightarrow> bool" for disk latency pool where
  create: "main_at p = Creating i \<Longrightarrow> i < pool \<Longrightarrow> coro_name i = Some name \<Longrightarrow> lib_step p (Created a) k s \<Longrightarrow>
    program_step disk latency pool p (p\<lparr>main_at := Creating (i + 1), control := k, sched := s, frames := (frames p)(a \<mapsto> coroutine_start),
       switch_cnt := (switch_cnt p)(a := 0)\<rparr>)"
| created: "main_at p = Creating i \<Longrightarrow> \<not> i < pool \<Longrightarrow> program_step disk latency pool p (p\<lparr>main_at := Calling\<rparr>)"
| call: "main_at p = Calling \<Longrightarrow> lib_step p Called k s \<Longrightarrow>
    program_step disk latency pool p (p\<lparr>main_at := Waiting, control := k, sched := s\<rparr>)"
| resume: "main_at p = Waiting \<Longrightarrow> control p = Looping \<Longrightarrow> lib_step p (Switched w) k s \<Longrightarrow>
    program_step disk latency pool p (p\<lparr>control := k, sched := s\<rparr>)"
| wait_ends: "main_at p = Waiting \<Longrightarrow> lib_step p (event.Returned r) k s \<Longrightarrow>
    program_step disk latency pool p (p\<lparr>main_at := (case r of None \<Rightarrow> Collecting | Some c \<Rightarrow> Got c), control := k, sched := s\<rparr>)"
| delete: "main_at p = Got c \<Longrightarrow> lib_step p (Freed c) k s \<Longrightarrow>
    program_step disk latency pool p (p\<lparr>main_at := Calling, control := k, sched := s\<rparr>)"
| test: "runs p a c \<Longrightarrow> place c = Testing cur \<Longrightarrow> coroutine_test cur c (g_sorted_files p) = Some (c', fs) \<Longrightarrow>
    program_step disk latency pool p (p\<lparr>frames := (frames p)(a \<mapsto> c'), g_sorted_files := fs\<rparr>)"
| yield: "runs p a c \<Longrightarrow> place c = Sorting cur \<Longrightarrow> lib_step p (Switched w) k s \<Longrightarrow>
    program_step disk latency pool p (p\<lparr>control := k, sched := s, switch_cnt := (switch_cnt p)(a := switch_cnt p a + 1)\<rparr>)"
| sorted: "runs p a c \<Longrightarrow> place c = Sorting cur \<Longrightarrow>
    sort_returns disk latency (cur_trace_id c) (global_trace_id (g_sorted_files p)) (filename (g_sorted_files p ! cur)) out t \<Longrightarrow>
    coroutine_sorted cur out t c (g_sorted_files p) = (c', fs) \<Longrightarrow>
    program_step disk latency pool p (p\<lparr>frames := (frames p)(a \<mapsto> c'), g_sorted_files := fs\<rparr>)"
| ends: "runs p a c \<Longrightarrow> place c = place.Returned \<Longrightarrow> lib_step p (Finished a EXIT_SUCCESS) k s \<Longrightarrow>
    program_step disk latency pool p (p\<lparr>control := k, sched := s\<rparr>)"

abbreviation program_runs :: "(string \<Rightarrow> string option) \<Rightarrow> 64 word \<Rightarrow> nat \<Rightarrow> string list \<Rightarrow> program \<Rightarrow> bool" where
  "program_runs disk latency pool names p \<equiv> (program_step disk latency pool)\<^sup>*\<^sup>* (program_start names) p"

subsection \<open>What a step of the library does to the coroutines that live\<close>

definition alive_after :: "event \<Rightarrow> (addr \<Rightarrow> bool) \<Rightarrow> addr \<Rightarrow> bool" where
  "alive_after e A x = (case e of Created a \<Rightarrow> x = a \<or> A x | Finished a r \<Rightarrow> x \<noteq> a \<and> A x | _ \<Rightarrow> A x)"

lemma yield_step_alive:
  assumes ok: "coro_ok Running s as" and run: "coro_yield s = Some s'"
  shows "alive s' = alive s"
proof -
  from ok obtain a where "a \<in> set as" "coro_this_ptr s = Co a" by (auto simp: coro_ok_def)
  then obtain i where i: "i < length as" "coro_this_ptr s = Co (as ! i)" by (auto simp: in_set_conv_nth)
  from yield_ok[OF ok i] run obtain r n where "views s (as ! i) = Some (r, False, n)"
    "views s' = (views s)(as ! i \<mapsto> (r, False, n + 1))" by auto
  then show ?thesis by (auto simp: alive_def fun_eq_iff)
qed

lemma coro_step_alive:
  assumes "coro_step (k, s) e (k', s')" "coro_ok k s as"
  shows "alive s' x = alive_after e (alive s) x"
  using assms(1)
proof cases
  case (create a)
  have "listed s as" using assms(2) by (simp add: coro_ok_def)
  from coro_new_listed[OF this create(4)] create(5) have "views s' = (views s)(a \<mapsto> (0, False, 0))" by auto
  then show ?thesis using create by (auto simp: alive_def alive_after_def)
next
  case (return r)
  with assms(2) have "coro_ok Looping s as" by simp
  from round_ok[OF this] return(4) have "views s' = views s" by auto
  from views_cong(2)[OF this] show ?thesis using return by (simp add: alive_after_def)
next
  case (enter u)
  with assms(2) have "coro_ok Looping s as" by simp
  from round_ok[OF this] enter(4) have "views s' = views s" by auto
  from views_cong(2)[OF this] show ?thesis using enter by (simp add: alive_after_def)
next
  case (yield t)
  with assms(2) have "coro_ok Running s as" by simp
  moreover have "views s' = views t" using yield(3) at_scheduler_views[of t] by (metis snd_conv)
  ultimately have "alive s' = alive s" using yield_step_alive[OF _ yield(4)] views_cong(2) by metis
  then show ?thesis using yield by (simp add: alive_after_def)
next
  case (finish a r t)
  with assms(2) have "coro_ok Running s as" by simp
  from end_ok[OF this, of r] finish(4,5) obtain m n where "views s a = Some (m, False, n)" "views t = (views s)(a \<mapsto> (r, True, n))" by auto
  moreover have "views s' = views t" using finish(3) at_scheduler_views[of t] by (metis snd_conv)
  ultimately show ?thesis using finish by (auto simp: alive_after_def alive_def)
next
  case (critical a r u)
  with assms(2) have "coro_ok Running s as" by simp
  from end_ok[OF this, of r] critical(6) show ?thesis by auto
next
  case (free a)
  then have "views s' = (views s)(a := None)" by (auto simp: coro_delete_def views_def fun_eq_iff split: Option.bind_splits)
  moreover have "\<not> alive s a" using free(4) by (auto simp: coro_is_finished_views alive_def)
  ultimately show ?thesis using free by (auto simp: alive_after_def alive_def)
qed (simp add: alive_after_def)

lemma coro_step_control:
  assumes "coro_step (k, s) e (k', s')"
  shows "case e of Created a \<Rightarrow> k' = k | Called \<Rightarrow> k = User \<and> k' = Looping | Switched w \<Rightarrow> k' = Looping \<or> k' = Running
    | Finished a r \<Rightarrow> k' = Looping \<or> k' = Running \<or> k' = Exited | event.Returned r \<Rightarrow> k = Looping \<and> k' = User | Freed a \<Rightarrow> k' = User"
  using assms by cases (auto simp: at_scheduler_def split: if_splits)

text \<open>What \<open>coro_sched_wait\<close> returns: a coroutine that has finished, or a null pointer when none is left.\<close>

lemma coro_step_returned:
  assumes "coro_step (k, s) (event.Returned r) (k', s')" "coro_ok k s as"
  shows "case r of None \<Rightarrow> (\<forall>a. \<not> alive s' a) | Some c \<Rightarrow> coro_is_finished c s' = Some True"
proof -
  have k: "k = Looping" and run: "sched_round s = Some (Inl r, s')" using assms(1) by (cases, auto)+
  from round_ok[OF assms(2)[unfolded k]] show ?thesis
  proof (elim disjE exE conjE, goal_cases)
    case 1
    with run have "r = None" "s' = s" by auto
    then show ?thesis using 1 by (auto simp: coro_ok_def)
  next
    case (2 a us vs t)
    with run have "r = Some a" "s' = t" by auto
    then show ?thesis using 2 by (simp add: coro_is_finished_views finished_def)
  next
    case (3 t)
    with run show ?thesis by auto
  qed
qed

subsection \<open>The invariant of the program\<close>

definition states :: "program \<Rightarrow> addr list \<Rightarrow> coroutine list" where
  "states p as = map (\<lambda>a. the (frames p a)) as"

definition main_ok :: "program \<Rightarrow> bool" where
  "main_ok p \<longleftrightarrow> (case main_at p of
     Waiting \<Rightarrow> control p = Looping \<or> control p = Running
   | Got c \<Rightarrow> control p = User \<and> coro_is_finished c (sched p) = Some True
   | Collecting \<Rightarrow> control p = User \<and> (\<forall>a. \<not> alive (sched p) a)
   | _ \<Rightarrow> control p = User)"

text \<open>
  A coroutine of the library that has not ended has a frame, and one that has ended has returned from its function.  With
  \<open>as\<close> the coroutines in the order of their creation, their frames are those of a run of Sort_Main.
\<close>

definition frames_ok :: "(string \<Rightarrow> string option) \<Rightarrow> 64 word \<Rightarrow> nat \<Rightarrow> string list \<Rightarrow> program \<Rightarrow> addr list \<Rightarrow> bool" where
  "frames_ok disk latency pool names p as \<longleftrightarrow> distinct as \<and> dom (frames p) = set as \<and>
     (\<forall>a. alive (sched p) a \<longrightarrow> a \<in> set as) \<and>
     (\<forall>a \<in> set as. \<not> alive (sched p) a \<longrightarrow> place (the (frames p a)) = place.Returned) \<and>
     (case main_at p of
        Creating i \<Rightarrow> length as = i \<and> i \<le> pool \<and> (\<forall>a \<in> set as. frames p a = Some coroutine_start) \<and>
          dom (views (sched p)) = set as \<and> g_sorted_files p = new_files names
      | _ \<Rightarrow> length as = pool \<and> (\<exists>n. (coro_moves disk latency ^^ n) (coro_start pool names) (states p as, g_sorted_files p)))"

definition program_ok :: "(string \<Rightarrow> string option) \<Rightarrow> 64 word \<Rightarrow> nat \<Rightarrow> string list \<Rightarrow> program \<Rightarrow> bool" where
  "program_ok disk latency pool names p \<longleftrightarrow> (\<exists>es. coro_reaches es (control p) (sched p)) \<and> main_ok p \<and>
     (\<exists>as. frames_ok disk latency pool names p as)"

lemma program_start_ok: "program_ok disk latency pool names (program_start names)"
proof -
  have "frames_ok disk latency pool names (program_start names) []"
    by (auto simp: frames_ok_def program_start_def alive_def views_def coro_sched_init_def)
  then show ?thesis using coro_run.stop by (auto simp: program_ok_def main_ok_def program_start_def)
qed

text \<open>The library goes on, and what runs stays the same.\<close>

lemma lib_step_ok:
  assumes "program_ok disk latency pool names p" "lib_step p e k s"
  shows "\<exists>es. coro_reaches es k s" "alive s x = alive_after e (alive (sched p)) x" "k \<noteq> Exited"
proof -
  from assms(1) obtain es where es: "coro_reaches es (control p) (sched p)" by (auto simp: program_ok_def)
  show "\<exists>es. coro_reaches es k s" using coro_run.more[OF es assms(2)] by blast
  from coro_reaches_ok[OF es] obtain as where ok: "coro_ok (control p) (sched p) as" by blast
  show "alive s x = alive_after e (alive (sched p)) x" by (rule coro_step_alive[OF assms(2) ok])
  from coro_step_ok[OF assms(2) ok] show "k \<noteq> Exited" by (auto simp: coro_ok_def)
qed

lemma lib_step_keeps:
  assumes ok: "program_ok disk latency pool names p" and step: "lib_step p e k s" and main: "\<And>i. main_at p \<noteq> Creating i" "\<And>i. at' \<noteq> Creating i"
    and e: "\<And>a. e \<noteq> Created a" "\<And>a r. e = Finished a r \<Longrightarrow> place (the (frames p a)) = place.Returned"
    and main_ok: "main_ok (p\<lparr>main_at := at', control := k, sched := s\<rparr>)"
  shows "program_ok disk latency pool names (p\<lparr>main_at := at', control := k, sched := s\<rparr>)"
proof -
  from ok obtain as where as: "frames_ok disk latency pool names p as" by (auto simp: program_ok_def)
  have al: "alive s x \<longleftrightarrow> alive (sched p) x \<and> (\<forall>r. e \<noteq> Finished x r)" for x
    using lib_step_ok(2)[OF ok step, of x] e(1) by (auto simp: alive_after_def split: event.splits)
  have "frames_ok disk latency pool names (p\<lparr>main_at := at', control := k, sched := s\<rparr>) as"
    using as main e(2) by (auto simp: frames_ok_def states_def al split: main_place.splits)
  then show ?thesis using lib_step_ok(1)[OF ok step] main_ok by (auto simp: program_ok_def)
qed

lemma frames_files_ok:
  assumes "frames_ok disk latency pool names p as" "main_at p = Waiting"
  shows "files_ok disk latency names (states p as) (g_sorted_files p)"
proof -
  from assms obtain n where n: "(coro_moves disk latency ^^ n) (coro_start pool names) (states p as, g_sorted_files p)"
    by (auto simp: frames_ok_def)
  obtain cs0 fs0 where start: "coro_start pool names = (cs0, fs0)" by (cases "coro_start pool names")
  have "files_ok disk latency names cs0 fs0" using files_ok_start[of disk latency names pool] start by simp
  with coro_run_ok[OF n[unfolded start]] show ?thesis by simp
qed

text \<open>A coroutine does a step of Sort_Main.\<close>

lemma frame_step_ok:
  assumes ok: "program_ok disk latency pool names p" and run: "runs p a c"
    and move: "\<And>i cs. i < length cs \<Longrightarrow> cs ! i = c \<Longrightarrow> coro_moves disk latency (cs, g_sorted_files p) (cs[i := c'], fs)"
    and c: "place c \<noteq> place.Returned"
  shows "program_ok disk latency pool names (p\<lparr>frames := (frames p)(a \<mapsto> c'), g_sorted_files := fs\<rparr>)"
proof -
  from ok obtain as where as: "frames_ok disk latency pool names p as" by (auto simp: program_ok_def)
  have fr: "frames p a = Some c" and ctl: "control p = Running" using run by (simp_all add: runs_def)
  have main: "main_at p = Waiting" using ok ctl by (auto simp: program_ok_def main_ok_def split: main_place.splits)
  have "a \<in> set as" using as fr by (auto simp: frames_ok_def)
  then obtain i where i: "i < length as" "as ! i = a" by (auto simp: in_set_conv_nth)
  have dist: "distinct as" using as by (simp add: frames_ok_def)
  have upd: "states (p\<lparr>frames := (frames p)(a \<mapsto> c'), g_sorted_files := fs\<rparr>) as = (states p as)[i := c']"
    using i dist by (auto simp: states_def list_eq_iff_nth_eq nth_list_update nth_eq_iff_index_eq)
  from as main obtain n where n: "(coro_moves disk latency ^^ n) (coro_start pool names) (states p as, g_sorted_files p)"
    by (auto simp: frames_ok_def)
  have "coro_moves disk latency (states p as, g_sorted_files p) ((states p as)[i := c'], fs)"
    by (rule move) (use i fr in \<open>simp_all add: states_def\<close>)
  from relpowp_Suc_I[OF n this] have "\<exists>n. (coro_moves disk latency ^^ n) (coro_start pool names) ((states p as)[i := c'], fs)" by blast
  moreover have "alive (sched p) a" using as \<open>a \<in> set as\<close> fr c by (auto simp: frames_ok_def)
  ultimately have "frames_ok disk latency pool names (p\<lparr>frames := (frames p)(a \<mapsto> c'), g_sorted_files := fs\<rparr>) as"
    using as main \<open>a \<in> set as\<close> by (auto simp: frames_ok_def upd)
  then show ?thesis using ok main ctl by (auto simp: program_ok_def main_ok_def)
qed

lemma program_ok_switch_cnt: "program_ok disk latency pool names p \<Longrightarrow> program_ok disk latency pool names (p\<lparr>switch_cnt := ys\<rparr>)"
  by (simp add: program_ok_def main_ok_def frames_ok_def states_def cong: main_place.case_cong)

lemma create_frame_ok:
  assumes ok: "program_ok disk latency pool names p" and main: "main_at p = Creating i" "i < pool" and step: "lib_step p (Created a) k s"
  shows "program_ok disk latency pool names (p\<lparr>main_at := Creating (i + 1), control := k, sched := s,
    frames := (frames p)(a \<mapsto> coroutine_start), switch_cnt := ys\<rparr>)"
proof -
  from ok obtain as es where as: "frames_ok disk latency pool names p as" and es: "coro_reaches es (control p) (sched p)"
    by (auto simp: program_ok_def)
  from coro_reaches_ok[OF es] obtain bs where bs: "coro_ok (control p) (sched p) bs" by blast
  from step have new: "coros (sched p) a = None" "coro_new a (sched p) = Some s" "k = control p" by (cases, auto)+
  have "listed (sched p) bs" using bs by (simp add: coro_ok_def)
  from coro_new_listed[OF this new(1)] new(2) have v: "views s = (views (sched p))(a \<mapsto> (0, False, 0))" by auto
  have "a \<notin> dom (views (sched p))" using new(1) by (simp add: domIff views_def)
  moreover have "dom (views (sched p)) = set as" using as main(1) by (simp add: frames_ok_def)
  ultimately have a: "a \<notin> set as" by simp
  have al: "alive s x \<longleftrightarrow> x = a \<or> alive (sched p) x" for x using lib_step_ok(2)[OF ok step, of x] by (simp add: alive_after_def)
  have "frames_ok disk latency pool names (p\<lparr>main_at := Creating (i + 1), control := k, sched := s,
    frames := (frames p)(a \<mapsto> coroutine_start), switch_cnt := ys\<rparr>) (as @ [a])"
    using as main a by (auto simp: frames_ok_def al v)
  moreover have "control p = User" using ok main by (simp add: program_ok_def main_ok_def)
  ultimately show ?thesis using lib_step_ok(1)[OF ok step] new(3) unfolding program_ok_def main_ok_def by (intro conjI) auto
qed

lemma all_created_ok:
  assumes ok: "program_ok disk latency pool names p" and main: "main_at p = Creating i" "\<not> i < pool"
  shows "program_ok disk latency pool names (p\<lparr>main_at := Calling\<rparr>)"
proof -
  from ok obtain as where as: "frames_ok disk latency pool names p as" by (auto simp: program_ok_def)
  have len: "length as = pool" and fr: "\<forall>a \<in> set as. frames p a = Some coroutine_start" and fs: "g_sorted_files p = new_files names"
    using as main by (auto simp: frames_ok_def)
  have "states p as = replicate pool coroutine_start"
    using fr len by (auto simp: states_def list_eq_iff_nth_eq)
  then have "(coro_moves disk latency ^^ 0) (coro_start pool names) (states p as, g_sorted_files p)"
    by (simp add: coro_start_def coroutine_start_def fs)
  then have run: "\<exists>n. (coro_moves disk latency ^^ n) (coro_start pool names) (states p as, g_sorted_files p)" by blast
  have "states (p\<lparr>main_at := Calling\<rparr>) as = states p as" by (simp add: states_def)
  moreover have "distinct as" "dom (frames p) = set as" "\<forall>a. alive (sched p) a \<longrightarrow> a \<in> set as"
    "\<forall>a \<in> set as. \<not> alive (sched p) a \<longrightarrow> place (the (frames p a)) = place.Returned" using as by (simp_all add: frames_ok_def)
  ultimately have "frames_ok disk latency pool names (p\<lparr>main_at := Calling\<rparr>) as"
    using len run by (simp add: frames_ok_def)
  then show ?thesis using ok main by (auto simp: program_ok_def main_ok_def)
qed

lemma main_at_same: "main_at p = at' \<Longrightarrow> p\<lparr>main_at := at', control := k, sched := s\<rparr> = p\<lparr>control := k, sched := s\<rparr>"
  by (cases p) simp

lemma program_step_ok:
  assumes step: "program_step disk latency pool p p'" and ok: "program_ok disk latency pool names p"
  shows "program_ok disk latency pool names p'"
  using step
proof cases
  case (create i name a k s)
  then show ?thesis using create_frame_ok[OF ok] by simp
next
  case (created i)
  then show ?thesis using all_created_ok[OF ok] by simp
next
  case (call k s)
  have "main_ok (p\<lparr>main_at := Waiting, control := k, sched := s\<rparr>)" using coro_step_control[OF call(3)] by (simp add: main_ok_def)
  from lib_step_keeps[OF ok call(3) _ _ _ _ this] call show ?thesis by simp
next
  case (resume w k s)
  have "main_ok (p\<lparr>main_at := Waiting, control := k, sched := s\<rparr>)" using coro_step_control[OF resume(4)] by (simp add: main_ok_def)
  from lib_step_keeps[OF ok resume(4) _ _ _ _ this] main_at_same[OF resume(2)] resume(1,2) show ?thesis by simp
next
  case (wait_ends r k s)
  let ?at = "case r of None \<Rightarrow> Collecting | Some c \<Rightarrow> Got c"
  from ok obtain es where "coro_reaches es (control p) (sched p)" by (auto simp: program_ok_def)
  from coro_reaches_ok[OF this] obtain as where "coro_ok (control p) (sched p) as" by blast
  from coro_step_returned[OF wait_ends(3) this] coro_step_control[OF wait_ends(3)]
  have "main_ok (p\<lparr>main_at := ?at, control := k, sched := s\<rparr>)" by (auto simp: main_ok_def split: option.splits)
  from lib_step_keeps[OF ok wait_ends(3) _ _ _ _ this] wait_ends(1,2) show ?thesis by (simp split: option.split)
next
  case (delete c k s)
  have "main_ok (p\<lparr>main_at := Calling, control := k, sched := s\<rparr>)" using coro_step_control[OF delete(3)] by (simp add: main_ok_def)
  from lib_step_keeps[OF ok delete(3) _ _ _ _ this] delete show ?thesis by simp
next
  case (test a c cur c' fs)
  then show ?thesis using frame_step_ok[OF ok test(2), of c' fs] coro_moves.test by simp
next
  case (sorted a c cur out t c' fs)
  then show ?thesis using frame_step_ok[OF ok sorted(2), of c' fs] coro_moves.sorted by simp
next
  case (yield a c cur w k s)
  have main: "main_at p = Waiting" using ok yield(2) by (auto simp: program_ok_def main_ok_def runs_def split: main_place.splits)
  have "main_ok (p\<lparr>main_at := Waiting, control := k, sched := s\<rparr>)" using coro_step_control[OF yield(4)] by (simp add: main_ok_def)
  from lib_step_keeps[OF ok yield(4) _ _ _ _ this] main_at_same[OF main] main
  have "program_ok disk latency pool names (p\<lparr>control := k, sched := s\<rparr>)" by simp
  from program_ok_switch_cnt[OF this] show ?thesis unfolding yield(1) .
next
  case (ends a c k s)
  have main: "main_at p = Waiting" using ok ends(2) by (auto simp: program_ok_def main_ok_def runs_def split: main_place.splits)
  have "main_ok (p\<lparr>main_at := Waiting, control := k, sched := s\<rparr>)"
    using coro_step_control[OF ends(4)] lib_step_ok(3)[OF ok ends(4)] by (simp add: main_ok_def)
  from lib_step_keeps[OF ok ends(4) _ _ _ _ this] main_at_same[OF main] main ends(1-3) show ?thesis by (simp add: runs_def)
qed

lemma program_runs_ok: "program_runs disk latency pool names p \<Longrightarrow> program_ok disk latency pool names p"
  by (induction rule: rtranclp_induct) (auto intro: program_start_ok program_step_ok)

text \<open>When \<open>main()\<close> has left the loop, every coroutine has returned from its function.\<close>

lemma collecting_returned:
  assumes "program_runs disk latency pool names p" "main_at p = Collecting"
  shows "\<exists>n cs. (coro_moves disk latency ^^ n) (coro_start pool names) (cs, g_sorted_files p) \<and> all_returned cs"
proof -
  have ok: "program_ok disk latency pool names p" using assms(1) by (rule program_runs_ok)
  then obtain as where as: "frames_ok disk latency pool names p as" by (auto simp: program_ok_def)
  have "\<forall>a. \<not> alive (sched p) a" using ok assms(2) by (auto simp: program_ok_def main_ok_def)
  then have "all_returned (states p as)" using as by (auto simp: frames_ok_def all_returned_def states_def)
  then show ?thesis using as assms(2) by (auto simp: frames_ok_def)
qed

subsection \<open>The program goes on\<close>

lemma coro_name_fits: "i < 100000 \<Longrightarrow> \<exists>name. coro_name i = Some name"
proof -
  have len: "length (show_nat n) \<le> k" if "n < 10 ^ k" "0 < k" for n k
    using that
  proof (induction n arbitrary: k rule: show_nat.induct)
    case (1 n)
    show ?case
    proof (cases "n < 10")
      case True
      then show ?thesis using 1(3) by (subst show_nat.simps) simp
    next
      case False
      obtain j where j: "k = Suc j" using 1(3) by (cases k) auto
      have "0 < j" using False 1(2) j by (cases j) auto
      moreover have "n div 10 < 10 ^ j" using 1(2) j by (simp add: less_mult_imp_div_less mult.commute)
      ultimately have "length (show_nat (n div 10)) \<le> j" using 1(1)[OF False] by blast
      then show ?thesis using False j by (subst show_nat.simps) simp
    qed
  qed
  assume "i < 100000"
  then have "length (show_nat i) \<le> 5" by (intro len) simp_all
  then show ?thesis by (simp add: coro_name_def Let_def)
qed

lemma program_goes_on:
  assumes ok: "program_ok disk latency pool names p" and good: "list_all2 (good_file disk) names xss" and pool: "pool \<le> 100000"
    and few: "length names < MAX_SORTING_PROCESSES"
    and going: "main_at p \<noteq> Collecting"
  shows "\<exists>p'. program_step disk latency pool p p' \<and> (\<forall>a. switch_cnt p' a \<le> switch_cnt p a)"
proof -
  from ok obtain as es where as: "frames_ok disk latency pool names p as" and es: "coro_reaches es (control p) (sched p)"
    by (auto simp: program_ok_def)
  from coro_reaches_ok[OF es] obtain bs where bs: "coro_ok (control p) (sched p) bs" by blast
  show ?thesis
  proof (cases "main_at p")
    case (Creating i)
    show ?thesis
    proof (cases "i < pool")
      case True
      have ctl: "control p = User" using ok Creating by (simp add: program_ok_def main_ok_def)
      have "finite (dom (views (sched p)))" using as Creating by (simp add: frames_ok_def)
      then obtain a where "a \<notin> dom (views (sched p))" using ex_new_if_finite infinite_UNIV_nat by blast
      then have a: "coros (sched p) a = None" by (simp add: views_def domIff)
      have "listed (sched p) bs" using bs by (simp add: coro_ok_def)
      from coro_new_listed[OF this a] obtain s where s: "coro_new a (sched p) = Some s" by blast
      have "lib_step p (Created a) User s" unfolding ctl by (rule coro_step.create[OF _ a s]) simp
      moreover obtain name where "coro_name i = Some name" using coro_name_fits[of i] True pool by auto
      ultimately show ?thesis using program_step.create[OF Creating True] by fastforce
    qed (use Creating program_step.created in fastforce)
  next
    case Calling
    then have "control p = User" using ok by (simp add: program_ok_def main_ok_def)
    then have "lib_step p Called Looping (sched p)" using coro_step.call by simp
    from program_step.call[OF Calling this, of disk latency pool] show ?thesis by fastforce
  next
    case (Got c)
    then have ctl: "control p = User" and fin: "coro_is_finished c (sched p) = Some True"
      using ok by (simp_all add: program_ok_def main_ok_def)
    then obtain s where "coro_delete c (sched p) = Some s" by (auto simp: coro_is_finished_def coro_delete_def)
    from coro_step.free[OF fin this] have "lib_step p (Freed c) User s" unfolding ctl .
    from program_step.delete[OF Got this, of disk latency pool] show ?thesis by fastforce
  next
    case Waiting
    then consider "control p = Looping" | "control p = Running" using ok by (auto simp: program_ok_def main_ok_def)
    then show ?thesis
    proof cases
      case 1
      with bs have "coro_ok Looping (sched p) bs" by simp
      from round_ok[OF this] consider r s where "sched_round (sched p) = Some (Inl r, s)" | s where "sched_round (sched p) = Some (Inr (), s)"
        by blast
      then show ?thesis
      proof cases
        case (1 r s)
        from coro_step.return[OF 1] have "lib_step p (event.Returned r) User s" using \<open>control p = Looping\<close> by simp
        from program_step.wait_ends[OF Waiting this, of disk latency pool] show ?thesis by fastforce
      next
        case (2 s)
        from coro_step.enter[OF 2] have "lib_step p (Switched (coro_this_ptr s)) Running s" using 1 by simp
        from program_step.resume[OF Waiting 1 this, of disk latency pool] show ?thesis by fastforce
      qed
    next
      case 2
      with bs have rn: "coro_ok Running (sched p) bs" by simp
      then obtain a where a: "a \<in> set bs" "coro_this_ptr (sched p) = Co a" by (auto simp: coro_ok_def)
      have "alive (sched p) a"
        using alive_or_finished[of "sched p" bs a] rn a(1) by (auto simp: coro_ok_def filter_empty_conv)
      then have "a \<in> dom (frames p)" using as by (simp add: frames_ok_def)
      then obtain c where c: "frames p a = Some c" by blast
      have run: "runs p a c" using 2 a(2) c by (simp add: runs_def)
      show ?thesis
      proof (cases "place c")
        case (Testing cur)
        have "map filename (g_sorted_files p) = names"
          using frames_files_ok[OF as Waiting] by (simp add: files_ok_def)
        then have "length (g_sorted_files p) < MAX_SORTING_PROCESSES" using few by auto
        from coroutine_test_runs[OF this] obtain c' fs where "coroutine_test cur c (g_sorted_files p) = Some (c', fs)" by blast
        from program_step.test[OF run Testing this, of disk latency pool] show ?thesis by fastforce
      next
        case (Sorting cur)
        have mem: "a \<in> set as" using \<open>a \<in> dom (frames p)\<close> as by (simp add: frames_ok_def)
        have fok: "files_ok disk latency names (states p as) (g_sorted_files p)" by (rule frames_files_ok[OF as Waiting])
        have "c \<in> set (states p as)" using mem c by (force simp: states_def)
        then have cur: "cur < length (g_sorted_files p)" "map filename (g_sorted_files p) = names"
          "0 < cur_trace_id c" "cur_trace_id c \<le> global_trace_id (g_sorted_files p)" using fok Sorting by (auto simp: files_ok_def)
        have good_cur: "good_file disk (filename (g_sorted_files p ! cur)) (xss ! cur)"
          using good cur(1,2) by (auto simp: list_all2_conv_all_nth)
        have "global_trace_id (g_sorted_files p) < MAX_SORTING_PROCESSES"
          using global_trace_id_le[of "g_sorted_files p"] cur(2) few by auto
        from good_file_returns[OF good_cur cur(3,4) this] obtain out t where out: "sort_returns disk latency (cur_trace_id c)
            (global_trace_id (g_sorted_files p)) (filename (g_sorted_files p ! cur)) out t" by blast
        obtain c' fs where "coroutine_sorted cur out t c (g_sorted_files p) = (c', fs)"
          by (cases "coroutine_sorted cur out t c (g_sorted_files p)")
        from program_step.sorted[OF run Sorting out this, of pool] show ?thesis by fastforce
      next
        case Returned
        from end_ok[OF rn, of EXIT_SUCCESS] obtain s where "coro_body_end EXIT_SUCCESS (sched p) = Some (Inr s)" by blast
        from coro_step.finish[OF a(2) this] have "lib_step p (Finished a EXIT_SUCCESS) (fst (at_scheduler s)) (snd (at_scheduler s))"
          using 2 by simp
        from program_step.ends[OF run Returned this, of disk latency pool] show ?thesis by fastforce
      qed
    qed
  qed (use going in simp)
qed

end
