(* ===== verification/Sort_Run_Props.thy ===== *)
theory Sort_Run_Props imports Sort_Run begin

text \<open>
  The whole program of Assignment_1 ends: a measure that every step lowers but for a yield, and its properties.
\<close>

subsection \<open>The measure\<close>

text \<open>What the coroutines have left to do, and how far \<open>main()\<close> and the scheduler are from running the next one.\<close>

definition work_left :: "program \<Rightarrow> nat" where
  "work_left p = (\<Sum>a \<in> dom (frames p). place_weight (length (g_sorted_files p)) (the (frames p a))) +
     2 * count_if (\<lambda>f. status f = SORTING_WAITING) (g_sorted_files p) + 8 * card {a. alive (sched p) a}"

definition phase :: "program \<Rightarrow> nat" where
  "phase p = (case main_at p of
     Creating i \<Rightarrow> 0 | Collecting \<Rightarrow> 0 | Calling \<Rightarrow> 2 | Got c \<Rightarrow> 3
   | Waiting \<Rightarrow> (case control p of Running \<Rightarrow> 0
       | _ \<Rightarrow> (case sched_round (sched p) of Some (Inl (Some a), s) \<Rightarrow> 4 | _ \<Rightarrow> 1)))"

definition start_work :: "nat \<Rightarrow> nat \<Rightarrow> nat" where
  "start_work pool n = pool * (2 * n + 1) + 2 * n + 8 * pool + 2"

definition steps_left :: "nat \<Rightarrow> nat \<Rightarrow> program \<Rightarrow> nat" where
  "steps_left pool n p = (case main_at p of
     Creating i \<Rightarrow> pool - i + 1 + start_work pool n
   | _ \<Rightarrow> work_left p + phase p)"

definition total_yields :: "program \<Rightarrow> nat" where
  "total_yields p = (\<Sum>a \<in> dom (frames p). switch_cnt p a)"

lemma work_left_list:
  assumes "frames_ok disk latency pool names p as"
  shows "work_left p = coro_work (states p as) (g_sorted_files p) + 8 * card {a. alive (sched p) a}"
proof -
  have "distinct as" "dom (frames p) = set as" using assms by (simp_all add: frames_ok_def)
  then show ?thesis by (simp add: work_left_def coro_work_def states_def comp_def sum.distinct_set_conv_list)
qed

lemma work_left_lib: "work_left (p\<lparr>control := k, sched := s\<rparr>) + 8 * card {a. alive (sched p) a} = work_left p + 8 * card {a. alive s a}"
  "work_left (p\<lparr>main_at := at', control := k, sched := s\<rparr>) + 8 * card {a. alive (sched p) a} = work_left p + 8 * card {a. alive s a}"
  "work_left (p\<lparr>switch_cnt := ys\<rparr>) = work_left p"
  by (simp_all add: work_left_def)

lemma finite_alive: "program_ok disk latency pool names p \<Longrightarrow> finite {a. alive (sched p) a}"
  by (auto simp: program_ok_def frames_ok_def intro: finite_subset[of _ "set _"])

text \<open>A step of the library between the creation of the coroutines and the merge: only an end changes the work.\<close>

lemma lib_step_work:
  assumes ok: "program_ok disk latency pool names p" and step: "lib_step p e k s" and e: "\<And>a. e \<noteq> Created a" "\<And>a r. e \<noteq> Finished a r"
  shows "{a. alive s a} = {a. alive (sched p) a}"
  using lib_step_ok(2)[OF ok step] e by (cases e) (auto simp: alive_after_def)

lemma frame_step_work:
  assumes ok: "program_ok disk latency pool names p" and run: "runs p a c"
    and move: "\<And>i cs. i < length cs \<Longrightarrow> cs ! i = c \<Longrightarrow> coro_moves disk latency (cs, g_sorted_files p) (cs[i := c'], fs)"
  shows "work_left (p\<lparr>frames := (frames p)(a \<mapsto> c'), g_sorted_files := fs\<rparr>) < work_left p"
proof -
  from ok obtain as where as: "frames_ok disk latency pool names p as" by (auto simp: program_ok_def)
  have fr: "frames p a = Some c" and ctl: "control p = Running" using run by (simp_all add: runs_def)
  have main: "main_at p = Waiting" using ok ctl by (auto simp: program_ok_def main_ok_def split: main_place.splits)
  have dom: "dom (frames p) = set as" and dist: "distinct as" using as by (simp_all add: frames_ok_def)
  then have "a \<in> set as" using fr by auto
  then obtain i where i: "i < length as" "as ! i = a" by (auto simp: in_set_conv_nth)
  let ?p = "p\<lparr>frames := (frames p)(a \<mapsto> c'), g_sorted_files := fs\<rparr>"
  have upd: "states ?p as = (states p as)[i := c']"
    using i dist by (auto simp: states_def list_eq_iff_nth_eq nth_list_update nth_eq_iff_index_eq)
  have fok: "files_ok disk latency names (states p as) (g_sorted_files p)" by (rule frames_files_ok[OF as main])
  have "coro_moves disk latency (states p as, g_sorted_files p) ((states p as)[i := c'], fs)"
    by (rule move) (use i fr in \<open>simp_all add: states_def\<close>)
  from coro_moves_work[OF this fok] have less: "coro_work (states ?p as) fs < coro_work (states p as) (g_sorted_files p)" by (simp only: upd)
  have "dom (frames ?p) = set as" using dom \<open>a \<in> set as\<close> by auto
  then have "work_left ?p = coro_work (states ?p as) fs + 8 * card {a. alive (sched p) a}"
    using dist by (simp add: work_left_def coro_work_def states_def comp_def sum.distinct_set_conv_list)
  then show ?thesis using less work_left_list[OF as] by simp
qed

lemma phase_looping: "phase (p\<lparr>main_at := Waiting, control := Looping, sched := s\<rparr>) \<le> 4"
  "phase (p\<lparr>main_at := Waiting, control := Running, sched := s\<rparr>) = 0"
  by (auto simp: phase_def split: option.split sum.split)

text \<open>With no finished coroutine in the list, the scheduler has nothing to return but a null pointer.\<close>

lemma phase_no_finished:
  assumes "coro_ok k s as" "filter (finished s) as = []" "k = Looping"
  shows "phase (p\<lparr>main_at := Waiting, control := Looping, sched := s\<rparr>) = 1"
proof -
  have "r \<noteq> Inl (Some a)" if "sched_round s = Some (r, t)" for r t a
    using round_ok[OF assms(1)[unfolded assms(3)]] assms(2) that by auto
  then show ?thesis by (auto simp: phase_def split: option.split sum.split)
qed

lemma create_lowers:
  assumes ok: "program_ok disk latency pool names p" and main: "main_at p = Creating i" and step: "lib_step p (Created a) k s"
  shows "total_yields (p\<lparr>main_at := at', control := k, sched := s, frames := (frames p)(a \<mapsto> c), switch_cnt := (switch_cnt p)(a := 0)\<rparr>) =
    total_yields p"
proof -
  from ok obtain as where as: "frames_ok disk latency pool names p as" by (auto simp: program_ok_def)
  from step have "coros (sched p) a = None" by cases
  then have "a \<notin> dom (views (sched p))" by (simp add: domIff views_def)
  moreover have "dom (views (sched p)) = set as" "dom (frames p) = set as" using as main by (simp_all add: frames_ok_def)
  ultimately have a: "a \<notin> dom (frames p)" "finite (dom (frames p))" by simp_all
  then have "(\<Sum>x \<in> dom (frames p). ((switch_cnt p)(a := 0)) x) = (\<Sum>x \<in> dom (frames p). switch_cnt p x)"
    by (intro sum.cong) auto
  then show ?thesis using a by (simp add: total_yields_def)
qed

lemma created_work:
  assumes ok: "program_ok disk latency pool names p" and main: "main_at p = Creating i" "\<not> i < pool"
  shows "work_left p = pool * (2 * length names + 1) + 2 * length names + 8 * pool"
proof -
  from ok obtain as where as: "frames_ok disk latency pool names p as" by (auto simp: program_ok_def)
  have len: "length as = pool" and fr: "\<forall>a \<in> set as. frames p a = Some coroutine_start" and fs: "g_sorted_files p = new_files names"
    using as main by (auto simp: frames_ok_def)
  have "states p as = replicate pool coroutine_start" using fr len by (auto simp: states_def list_eq_iff_nth_eq)
  then have "coro_work (states p as) (g_sorted_files p) = pool * (2 * length names + 1) + 2 * length names"
    using coro_start_work[of pool names] by (simp add: coro_start_def coroutine_start_def fs)
  moreover have "{a. alive (sched p) a} = set as"
  proof -
    have "alive (sched p) a" if "a \<in> set as" for a
      using as fr that by (auto simp: frames_ok_def)
    then show ?thesis using as by (auto simp: frames_ok_def)
  qed
  moreover have "card (set as) = pool" using as len by (simp add: frames_ok_def distinct_card)
  ultimately show ?thesis using work_left_list[OF as] by simp
qed

lemma running_phase: "program_ok disk latency pool names p \<Longrightarrow> runs p a c \<Longrightarrow> main_at p = Waiting \<and> control p = Running \<and> phase p = 0"
  by (auto simp: program_ok_def main_ok_def runs_def phase_def split: main_place.splits)

lemma total_yields_step:
  assumes "program_ok disk latency pool names p" "runs p a c"
  shows "total_yields (p\<lparr>control := k, sched := s, switch_cnt := (switch_cnt p)(a := switch_cnt p a + 1)\<rparr>) = total_yields p + 1"
proof -
  from assms(1) obtain as where "frames_ok disk latency pool names p as" by (auto simp: program_ok_def)
  then have fin: "finite (dom (frames p))" by (simp add: frames_ok_def)
  have a: "a \<in> dom (frames p)" using assms(2) by (auto simp: runs_def)
  have "(\<Sum>x \<in> dom (frames p) - {a}. ((switch_cnt p)(a := switch_cnt p a + 1)) x) = (\<Sum>x \<in> dom (frames p) - {a}. switch_cnt p x)"
    by (intro sum.cong) auto
  then show ?thesis by (simp add: total_yields_def sum.remove[OF fin a])
qed

lemma yield_phase:
  assumes ok: "program_ok disk latency pool names p" and ctl: "control p = Running" and step: "lib_step p (Switched w) k s"
  shows "phase (p\<lparr>main_at := Waiting, control := k, sched := s\<rparr>) \<le> 1"
proof -
  from ok obtain es where "coro_reaches es (control p) (sched p)" by (auto simp: program_ok_def)
  from coro_reaches_ok[OF this] obtain as where as: "coro_ok (control p) (sched p) as" by blast
  then have none: "filter (finished (sched p)) as = []" using ctl by (simp add: coro_ok_def)
  from coro_step_ok[OF step as] obtain as' where as': "coro_ok k s as'" "step_effect (sched p) as (Switched w) s as'" by blast
  then have "filter (finished s) as' = []" using none by (simp add: step_effect_def)
  moreover from coro_step_control[OF step] have "k = Looping \<or> k = Running" by simp
  ultimately show ?thesis using phase_no_finished[OF as'(1), where p = p] phase_looping(2)[where p = p and s = s] by auto
qed

lemma end_work:
  assumes ok: "program_ok disk latency pool names p" and run: "runs p a c" and step: "lib_step p (Finished a r) k s"
  shows "card {a. alive (sched p) a} = card {a. alive s a} + 1"
proof -
  from ok obtain es where "coro_reaches es (control p) (sched p)" by (auto simp: program_ok_def)
  from coro_reaches_ok[OF this] obtain as where as: "coro_ok (control p) (sched p) as" by blast
  then have rn: "coro_ok Running (sched p) as" using run by (simp add: runs_def)
  then obtain x where "x \<in> set as" "coro_this_ptr (sched p) = Co x" by (auto simp: coro_ok_def)
  then have "a \<in> set as" using run by (simp add: runs_def)
  then have "alive (sched p) a" using alive_or_finished[of "sched p" as a] rn by (auto simp: coro_ok_def filter_empty_conv)
  moreover have "{x. alive s x} = {x. alive (sched p) x} - {a}"
    using lib_step_ok(2)[OF ok step] by (auto simp: alive_after_def)
  ultimately show ?thesis using finite_alive[OF ok] card_Suc_Diff1[of "{a. alive (sched p) a}" a] by simp
qed

lemma step_lowers:
  assumes step: "program_step disk latency pool p p'" and ok: "program_ok disk latency pool names p"
  shows "steps_left pool (length names) p' + 1 + 2 * total_yields p \<le> steps_left pool (length names) p + 2 * total_yields p'"
  using step
proof cases
  case (create i name a k s)
  then show ?thesis using create_lowers[OF ok create(2,5)] by (simp add: steps_left_def)
next
  case (created i)
  have i: "i = pool" using ok created by (auto simp: program_ok_def frames_ok_def)
  have "work_left (p\<lparr>main_at := Calling\<rparr>) = work_left p" "total_yields (p\<lparr>main_at := Calling\<rparr>) = total_yields p"
    by (simp_all add: work_left_def total_yields_def)
  then show ?thesis using created i created_work[OF ok created(2,3)] by (simp add: steps_left_def phase_def start_work_def)
next
  case (call k s)
  from ok obtain es where "coro_reaches es (control p) (sched p)" by (auto simp: program_ok_def)
  from coro_reaches_ok[OF this] obtain as where as: "coro_ok (control p) (sched p) as" by blast
  have k: "control p = User" "k = Looping" "s = sched p" using call(3) by (cases, simp)+
  then have "coro_ok k s as" "filter (finished s) as = []" using as by (simp_all add: coro_ok_def)
  from phase_no_finished[OF this k(2), where p = p] call k
  show ?thesis using work_left_lib(2)[where p = p and at' = Waiting and k = Looping and s = s] by (simp add: steps_left_def total_yields_def phase_def)
next
  case (resume w k s)
  have alive: "{a. alive s a} = {a. alive (sched p) a}" by (rule lib_step_work[OF ok resume(4)]) simp_all
  have "\<exists>u. sched_round (sched p) = Some (Inr u, s)" "k = Running" using resume(4) resume(3) by (cases, auto)+
  then have "k = Running" "phase p = 1" using resume(2,3) by (auto simp: phase_def)
  then show ?thesis using resume alive work_left_lib(1)[where p = p and k = k and s = s] by (simp add: steps_left_def total_yields_def phase_def)
next
  case (wait_ends r k s)
  have alive: "{a. alive s a} = {a. alive (sched p) a}" by (rule lib_step_work[OF ok wait_ends(3)]) simp_all
  have "phase p = (case r of None \<Rightarrow> 1 | Some c \<Rightarrow> 4)"
  proof -
    have "sched_round (sched p) = Some (Inl r, s)" "control p = Looping" using wait_ends(3) by (cases, simp)+
    then show ?thesis using wait_ends(2) by (simp add: phase_def split: option.split)
  qed
  then show ?thesis using wait_ends alive work_left_lib(2)[where p = p and at' = "case r of None \<Rightarrow> Collecting | Some c \<Rightarrow> Got c" and k = k and s = s]
    by (cases r) (simp_all add: steps_left_def total_yields_def phase_def)
next
  case (delete c k s)
  have alive: "{a. alive s a} = {a. alive (sched p) a}" by (rule lib_step_work[OF ok delete(3)]) simp_all
  then show ?thesis using delete work_left_lib(2)[where p = p and at' = Calling and k = k and s = s] by (simp add: steps_left_def total_yields_def phase_def)
next
  case (test a c cur c' fs)
  have "work_left p' < work_left p" unfolding test(1)
    by (rule frame_step_work[OF ok test(2)]) (use test coro_moves.test in simp)
  moreover have "total_yields p' = total_yields p" using test(1,2) by (simp add: total_yields_def runs_def insert_absorb domI)
  moreover have "phase p' = 0" using running_phase[OF ok test(2)] test(1) by (simp add: phase_def)
  ultimately show ?thesis using running_phase[OF ok test(2)] test(1) by (simp add: steps_left_def)
next
  case (sorted a c cur out t c' fs)
  have "work_left p' < work_left p" unfolding sorted(1)
    by (rule frame_step_work[OF ok sorted(2)]) (use sorted coro_moves.sorted in simp)
  moreover have "total_yields p' = total_yields p" using sorted(1,2) by (simp add: total_yields_def runs_def insert_absorb domI)
  moreover have "phase p' = 0" using running_phase[OF ok sorted(2)] sorted(1) by (simp add: phase_def)
  ultimately show ?thesis using running_phase[OF ok sorted(2)] sorted(1) by (simp add: steps_left_def)
next
  case (yield a c cur w k s)
  have at: "main_at p = Waiting" "control p = Running" "phase p = 0" using running_phase[OF ok yield(2)] by auto
  have alive: "{a. alive s a} = {a. alive (sched p) a}" by (rule lib_step_work[OF ok yield(4)]) simp_all
  have "work_left p' = work_left p" using alive work_left_lib(1)[where p = p and k = k and s = s] by (simp add: yield(1) work_left_def)
  moreover have "phase p' \<le> 1" using yield_phase[OF ok at(2) yield(4)] main_at_same[OF at(1), where k = k and s = s]
    by (simp add: yield(1) phase_def at(1) cong: control.case_cong)
  moreover have "total_yields p' = total_yields p + 1" unfolding yield(1) by (rule total_yields_step[OF ok yield(2)])
  ultimately show ?thesis using at by (simp add: steps_left_def yield(1))
next
  case (ends a c k s)
  have at: "main_at p = Waiting" "phase p = 0" using running_phase[OF ok ends(2)] by auto
  have "work_left p' + 8 = work_left p"
    using end_work[OF ok ends(2,4)] work_left_lib(1)[where p = p and k = k and s = s] by (simp add: ends(1))
  moreover have "phase p' \<le> 4" by (auto simp: phase_def ends(1) at(1) split: control.split option.split sum.split)
  moreover have "total_yields p' = total_yields p" by (simp add: ends(1) total_yields_def)
  ultimately show ?thesis using at by (simp add: steps_left_def ends(1))
qed

lemma steps_bounded:
  "(program_step disk latency pool ^^ n) (program_start names) p \<Longrightarrow>
   program_ok disk latency pool names p \<and> steps_left pool (length names) p + n \<le> pool + 1 + start_work pool (length names) + 2 * total_yields p"
proof (induction n arbitrary: p)
  case 0
  then have "p = program_start names" by simp
  then show ?case using program_start_ok by (auto simp: steps_left_def program_start_def)
next
  case (Suc n)
  then obtain q where q: "(program_step disk latency pool ^^ n) (program_start names) q" "program_step disk latency pool q p" by auto
  from Suc.IH[OF q(1)] have ok: "program_ok disk latency pool names q" by simp
  from step_lowers[OF q(2) ok] Suc.IH[OF q(1)] program_step_ok[OF q(2) ok] show ?case by simp
qed

text \<open>From wherever it is the program can reach the merge: by steps that are not yields.\<close>

lemma total_yields_le:
  assumes step: "program_step disk latency pool p p'" and ok: "program_ok disk latency pool names p" and le: "\<forall>a. switch_cnt p' a \<le> switch_cnt p a"
  shows "total_yields p' \<le> total_yields p"
  using step
proof cases
  case (create i name a k s)
  then show ?thesis using create_lowers[OF ok create(2,5)] by simp
next
  case (test a c cur c' fs)
  then show ?thesis by (simp add: total_yields_def runs_def insert_absorb domI)
next
  case (sorted a c cur out t c' fs)
  then show ?thesis by (simp add: total_yields_def runs_def insert_absorb domI)
next
  case (yield a c cur w k s)
  then show ?thesis using le[rule_format, of a] by simp
qed (simp_all add: total_yields_def)

lemma program_can_finish:
  assumes good: "list_all2 (good_file disk) names xss" and pool: "pool \<le> 100000"
    and few: "length names < MAX_SORTING_PROCESSES"
  shows "program_ok disk latency pool names p \<Longrightarrow> \<exists>q. (program_step disk latency pool)\<^sup>*\<^sup>* p q \<and> main_at q = Collecting"
proof (induction "steps_left pool (length names) p" arbitrary: p rule: less_induct)
  case less
  show ?case
  proof (cases "main_at p = Collecting")
    case False
    from program_goes_on[OF less.prems good pool few False] obtain p' where
      p': "program_step disk latency pool p p'" "\<forall>a. switch_cnt p' a \<le> switch_cnt p a" by blast
    from step_lowers[OF p'(1) less.prems] total_yields_le[OF p'(1) less.prems p'(2)]
    have "steps_left pool (length names) p' < steps_left pool (length names) p" by simp
    from less.hyps[OF this program_step_ok[OF p'(1) less.prems]] show ?thesis
      using p'(1) by (meson converse_rtranclp_into_rtranclp)
  qed blast
qed

subsection \<open>Properties\<close>

text \<open>
  C2. The whole program, \<open>main()\<close> with its arguments, coroutines and library together: however the coroutines take turns, when
  \<open>main()\<close> has waited for all of them, the final merge returns and \<open>output.txt\<close> holds all numbers of all files in order, for
  at least one coroutine and at least one and fewer than 10000 files in good order (single separators, none at the end) of up to
  1048576 numbers each.
\<close>

theorem program_main_sorts:
  assumes "main_args argv = Some (pool, latency, names)" "program_runs disk latency (nat pool) names p" "main_at p = Collecting" "0 < pool"
    "list_all2 (good_file disk) names xss" "names \<noteq> []" "length names < MAX_SORTING_PROCESSES"
  shows "\<exists>out. merge_outputs (g_sorted_files p) = Some out \<and> contents out = print_open (sort (concat xss))"
proof -
  have assms: "program_runs disk latency (nat pool) names p" "main_at p = Collecting" "0 < nat pool" "list_all2 (good_file disk) names xss"
    "names \<noteq> []" "length names < MAX_SORTING_PROCESSES" using assms by simp_all
  from collecting_returned[OF assms(1,2)] obtain n cs where
    run: "(coro_moves disk latency ^^ n) (coro_start (nat pool) names) (cs, g_sorted_files p)" "all_returned cs" by blast
  have entries: "list_all2 sorted_entry (g_sorted_files p) (map sort xss)" by (rule coro_run_end[OF run(1) assms(3) run(2) assms(6,4)])
  have "xss \<noteq> []" using assms(4,5) by auto
  then have "g_sorted_files p \<noteq> []" using entries by auto
  from merge_outputs_ok[OF entries this] obtain out zs where
    out: "merge_outputs (g_sorted_files p) = Some out" "contents out = print_open zs" "sorted zs" "mset zs = sum_list (map mset (map sort xss))"
    by blast
  have "sum_list (map mset (map sort xss)) = mset (concat xss)" by (induction xss) simp_all
  then have "zs = sort (concat xss)" using out(3,4) by (metis properties_for_sort)
  then show ?thesis using out(1,2) by blast
qed

theorem program_main_sorts_witness:
  "main_args [''sort'', ''2'', ''500'', ''a''] = Some (2, 500, [''a'']) \<and> (\<exists>p out. program_runs (demo_disk [3, 1, 2]) 500 2 [''a''] p \<and> merge_outputs (g_sorted_files p) = Some out \<and>
     contents out = print_open [1, 2, 3])"
proof -
  have args: "main_args [''sort'', ''2'', ''500'', ''a''] = Some (2, 500, [''a''])"
    by (simp add: main_args_def strtol_def scan_int_def isspace_def isdigit_def digits_val_def)
  have good: "list_all2 (good_file (demo_disk [3, 1, 2])) [''a''] [[3, 1, 2]]"
    using demo_good[of "[3, 1, 2]"] by (simp add: is_int_def MAX_NUMBERS_LOADED_eq)
  from program_can_finish[OF good, of 2, OF _ _ program_start_ok[of _ 500]] obtain p where
    p: "program_runs (demo_disk [3, 1, 2]) 500 2 [''a''] p" "main_at p = Collecting" by auto
  from program_main_sorts[OF args _ p(2) _ good] show ?thesis using p(1) args by auto
qed

text \<open>
  C36. The program ends, with up to 100000 coroutines and fewer than 10000 files in good order: a run has a bounded number of steps, but for
  two for each time a sort yields, and wherever it is it can go on to the final merge.
\<close>

theorem program_finishes:
  assumes "(program_step disk latency pool ^^ n) (program_start names) p" "list_all2 (good_file disk) names xss" "pool \<le> 100000"
    "length names < MAX_SORTING_PROCESSES"
  shows "n \<le> pool * (2 * length names + 10) + 2 * length names + 3 + 2 * total_yields p \<and>
    (\<exists>q. (program_step disk latency pool)\<^sup>*\<^sup>* p q \<and> main_at q = Collecting)"
proof -
  from steps_bounded[OF assms(1)] have ok: "program_ok disk latency pool names p"
    and le: "steps_left pool (length names) p + n \<le> pool + 1 + start_work pool (length names) + 2 * total_yields p" by auto
  have "pool + 1 + start_work pool (length names) = pool * (2 * length names + 10) + 2 * length names + 3"
    by (simp add: start_work_def algebra_simps)
  then show ?thesis using le program_can_finish[OF assms(2,3,4) ok] by simp
qed

theorem program_finishes_witness:
  "\<exists>q. program_runs (demo_disk [2, 1]) 0 3 [''a''] q \<and> main_at q = Collecting"
  using program_finishes[of 0 "demo_disk [2, 1]" 0 3 "[''a'']" "program_start [''a'']" "[[2, 1]]"] demo_good[of "[2, 1]"]
  by (simp add: is_int_def MAX_NUMBERS_LOADED_eq)

text \<open>
  Three inputs that \<open>main()\<close> does not check.  Without files it reads \<open>files[1]\<close> of an empty array; with files but no coroutines (a
  pool size of 0, or one that is not a number) its \<open>assert\<close> fails; and from the coroutine number 100000 on the name
  does not fit into its array.
\<close>

lemma unchecked_arguments:
  "merge_outputs [] = None" "names \<noteq> [] \<Longrightarrow> merge_outputs (new_files names) = None" "coro_name 100000 = None"
proof -
  show "merge_outputs [] = None"
    by (simp add: merge_outputs_def) (subst merge_rounds.simps, simp add: merge_round_def slot_def)
  show "names \<noteq> [] \<Longrightarrow> merge_outputs (new_files names) = None"
    by (cases names) (simp_all add: merge_outputs_def new_files_def)
  show "coro_name 100000 = None" by (simp add: coro_name_def show_nat.simps)
qed

end
