(* ===== verification/Sh_Lex.thy ===== *)
theory Sh_Lex imports Prelude begin

text \<open>
  The first half of \<open>parser()\<close> in Assignment_2/src/parser/parser.c: a line is read and cut into
  arguments.  The buffer is the allocated block with its terminating zeros, positions are indices
  into it, and a read outside the block is \<open>None\<close>.
\<close>

subsection \<open>Characters, lines and C strings\<close>

abbreviation NUL :: char where "NUL \<equiv> CHR 0x00"
abbreviation NL :: char where "NL \<equiv> CHR 0x0A"
abbreviation SPC :: char where "SPC \<equiv> CHR 0x20"
abbreviation BSL :: char where "BSL \<equiv> CHR 0x5C"
abbreviation DQ :: char where "DQ \<equiv> CHR 0x22"
abbreviation SQ :: char where "SQ \<equiv> CHR 0x27"

text \<open>\<open>getline\<close> on the text that is left of the standard input; \<open>None\<close> is its result -1.\<close>

definition getline :: "string \<Rightarrow> (string \<times> string) option" where
  "getline t = (if t = [] then None else
     let l = takeWhile (\<lambda>c. c \<noteq> NL) t
     in Some (if l = t then (l, []) else (l @ [NL], drop (length l + 1) t)))"

text \<open>The string in a block that is read up to its zero.\<close>

definition c_str :: "string \<Rightarrow> string option" where
  "c_str b = (if NUL \<in> set b then Some (takeWhile (\<lambda>c. c \<noteq> NUL) b) else None)"

text \<open>\<open>calloc(n)\<close>, then \<open>strcat\<close> of the old buffer and of the next line.\<close>

definition join_lines :: "string \<Rightarrow> string \<Rightarrow> nat \<Rightarrow> string option" where
  "join_lines b l n = do {
     x \<leftarrow> c_str b;
     y \<leftarrow> c_str (l @ [NUL]);
     ensure (length x + length y < n);
     Some (x @ y @ replicate (n - length x - length y) NUL)
   }"

definition isSpecialChar :: "char \<Rightarrow> bool" where
  "isSpecialChar ch \<longleftrightarrow> ch = CHR ''|'' \<or> ch = CHR ''&'' \<or> ch = CHR ''>''"

subsection \<open>The state\<close>

text \<open>
  What C leaves open: how many zero bytes follow a zeroed block of \<open>n\<close> bytes (the code relies on at
  least one, since it allocates no terminator for its arguments), and the value of \<open>trimParen\<close> when the
  \<open>goto\<close> has jumped over its initialisation, for the \<open>k\<close>-th argument.
\<close>

record machine =
  pad :: "nat \<Rightarrow> nat"
  junk :: "nat \<Rightarrow> bool"

text \<open>\<open>inp\<close> is what is left of the standard input, \<open>args\<close> the blocks in \<open>argList\<close>.\<close>

record lexer =
  buf :: string
  len :: nat
  inp :: string
  last_mirrored_slash :: int
  endPos :: nat
  singleParOpened :: bool
  doubleParOpened :: bool
  trimParen :: bool
  args :: "string list"
  argCap :: nat

datatype 'a outcome = Exit | Ret 'a

subsection \<open>Finding the end of an argument\<close>

function skip_blanks :: "string \<Rightarrow> nat \<Rightarrow> nat \<Rightarrow> nat option" where
  "skip_blanks b n p = (if p < n then do {
      c \<leftarrow> slot b p;
      if c = SPC \<or> c = NL \<and> p = 0 then skip_blanks b n (p + 1) else Some p
    } else Some p)"
  by pat_completeness auto
termination by (relation "measure (\<lambda>(b, n, p). n - p)") auto

function skip_special :: "string \<Rightarrow> nat \<Rightarrow> nat option" where
  "skip_special b p = do {
     c \<leftarrow> slot b p;
     if isSpecialChar c then skip_special b (p + 1) else Some p
   }"
  by pat_completeness auto
termination by (relation "measure (\<lambda>(b, p). length b - p)") auto

text \<open>
  \<open>endPos - 1 >= 0 && buf[endPos - 1] == '\\' && last_mirrored_slash != endPos - 1\<close>: in \<open>size_t\<close> the first
  test always holds, so that at position 0 the byte before the buffer is read.
\<close>

definition mirrored :: "lexer \<Rightarrow> bool option" where
  "mirrored s = do {
     ensure (0 < endPos s);
     c \<leftarrow> slot (buf s) (endPos s - 1);
     Some (c = BSL \<and> last_mirrored_slash s \<noteq> int (endPos s - 1))
   }"

text \<open>A quotation mark is met; the truth value says whether it ends the argument.\<close>

definition double_quote :: "lexer \<Rightarrow> (bool \<times> lexer) option" where
  "double_quote s = do {
     skip \<leftarrow> (if singleParOpened s then Some True else mirrored s);
     Some (if skip then (False, s)
       else (doubleParOpened s, s\<lparr>doubleParOpened := \<not> doubleParOpened s, trimParen := True\<rparr>))
   }"

definition single_quote :: "lexer \<Rightarrow> (bool \<times> lexer) option" where
  "single_quote s = do {
     skip \<leftarrow> (if doubleParOpened s then Some True else mirrored s);
     Some (if skip then (False, s)
       else (singleParOpened s, s\<lparr>singleParOpened := \<not> singleParOpened s, trimParen := True\<rparr>))
   }"

definition quote_step :: "char \<Rightarrow> lexer \<Rightarrow> (bool \<times> lexer) option" where
  "quote_step c s = (if c = DQ then double_quote s else if c = SQ then single_quote s else Some (False, s))"

lemma quote_step_frame:
  assumes "quote_step c s = Some (b, s')"
  shows "endPos s' = endPos s" "len s' = len s" "inp s' = inp s" "buf s' = buf s" "args s' = args s"
  using assms unfolding quote_step_def double_quote_def single_quote_def
  by (auto split: if_splits Option.bind_splits)

lemma getline_shorter: "getline t = Some (l, r) \<Longrightarrow> length r < length t"
  unfolding getline_def Let_def by (cases t) (auto split: if_splits)

text \<open>A line that ends in a backslash is joined with the next one, and the argument is scanned again.\<close>

definition continue_line :: "nat \<Rightarrow> lexer \<Rightarrow> lexer outcome option" where
  "continue_line start s = (case getline (inp s) of
     None \<Rightarrow> Some Exit
   | Some (l, rest) \<Rightarrow> do {
       b \<leftarrow> join_lines ((buf s)[endPos s := NUL]) l (len s + length l + 1);
       Some (Ret (s\<lparr>buf := b, len := len s + length l - 1, inp := rest, endPos := start\<rparr>))
     })"

lemma continue_line_shorter: "continue_line start s = Some (Ret s') \<Longrightarrow> length (inp s') < length (inp s)"
  unfolding continue_line_def
  by (cases "getline (inp s)") (auto split: Option.bind_splits dest!: getline_shorter)

function scan :: "nat \<Rightarrow> lexer \<Rightarrow> lexer outcome option" where
  "scan start s = (if endPos s < len s - 1 then do {
      c \<leftarrow> slot (buf s) (endPos s);
      if c = BSL then do {
        d \<leftarrow> slot (buf s) (endPos s + 1);
        if d = NL then do {
          r \<leftarrow> continue_line start s;
          (case r of Exit \<Rightarrow> Some Exit | Ret s' \<Rightarrow> scan start s')
        }
        else scan start (s\<lparr>last_mirrored_slash := int (endPos s + 1), endPos := endPos s + 2\<rparr>)
      }
      else if (c = SPC \<or> c = NL \<or> isSpecialChar c) \<and> \<not> singleParOpened s \<and> \<not> doubleParOpened s
      then Some (Ret s)
      else do {
        (stop, s') \<leftarrow> quote_step c s;
        if stop then Some (Ret s') else scan start (s'\<lparr>endPos := endPos s' + 1\<rparr>)
      }
    } else Some (Ret s))"
  by pat_completeness auto
termination
  by (relation "inv_image (less_than <*lex*> less_than) (\<lambda>(start, s). (length (inp s), len s - endPos s))")
    (auto dest: continue_line_shorter simp: quote_step_frame)

declare scan.simps [simp del] skip_blanks.simps [simp del] skip_special.simps [simp del]

subsection \<open>Copying an argument\<close>

text \<open>The loop that drops the backslashes.\<close>

function copy_arg :: "string \<Rightarrow> nat \<Rightarrow> nat \<Rightarrow> nat \<Rightarrow> nat \<Rightarrow> string \<Rightarrow> string option" where
  "copy_arg b base argLen i destI dest = (if i < argLen then do {
      out \<leftarrow> slot b (i + base);
      (i', out') \<leftarrow> (if out = BSL then do {out' \<leftarrow> slot b (i + base + 1); Some (i + 1, out')} else Some (i, out));
      ensure (destI < length dest);
      copy_arg b base argLen (i' + 1) (destI + 1) (dest[destI := out'])
    } else Some dest)"
  by pat_completeness auto
termination by (relation "measure (\<lambda>(b, base, n, i, d, dst). n - i)") (auto split: if_splits Option.bind_splits)

declare copy_arg.simps [simp del]

text \<open>
  \<open>ADD_TO_ARG_LIST\<close>.  For a quoted argument that ends where it starts, \<open>argLen\<close> wraps round to
  $2^{64} - 1$, \<open>calloc\<close> has nothing to give and the first store goes through its null result.
\<close>

definition add_to_arg_list :: "machine \<Rightarrow> nat \<Rightarrow> lexer \<Rightarrow> lexer option" where
  "add_to_arg_list m start s = do {
     let cap = (if length (args s) = argCap s then argCap s + 2 else argCap s);
     ensure (length (args s) < cap);
     ensure (start + (if trimParen s then 1 else 0) \<le> endPos s);
     let argLen = (if \<not> trimParen s then endPos s - start else endPos s - start - 1);
     a \<leftarrow> copy_arg (buf s) (if trimParen s then start + 1 else start) argLen 0 0
            (replicate (argLen + pad m argLen) NUL);
     Some (s\<lparr>args := args s @ [a], argCap := cap\<rparr>)
   }"

definition next_start :: "lexer \<Rightarrow> nat" where
  "next_start s = (if trimParen s then endPos s + 1 else endPos s)"

subsection \<open>The loop over the line\<close>

text \<open>A quotation that is still open at the end of the line goes on in the next.\<close>

definition quoted_line :: "lexer \<Rightarrow> lexer outcome option" where
  "quoted_line s = (case getline (inp s) of
     None \<Rightarrow> Some Exit
   | Some (l, rest) \<Rightarrow> do {
       b \<leftarrow> join_lines (buf s) l (len s + length l + 1);
       Some (Ret (s\<lparr>buf := b, len := len s + length l, inp := rest\<rparr>))
     })"

partial_function (option) tokenize :: "machine \<Rightarrow> nat \<Rightarrow> lexer \<Rightarrow> lexer outcome option" where
  "tokenize m start s = (if start < len s then do {
      start \<leftarrow> skip_blanks (buf s) (len s) start;
      if len s \<le> start then Some (Ret s)
      else do {
        c \<leftarrow> slot (buf s) start;
        if c = NL then Some (Ret s)
        else if isSpecialChar c then do {
          e \<leftarrow> skip_special (buf s) start;
          s \<leftarrow> add_to_arg_list m start (s\<lparr>endPos := e, trimParen := junk m (length (args s))\<rparr>);
          tokenize m (next_start s) s
        }
        else do {
          r \<leftarrow> scan start (s\<lparr>endPos := start, singleParOpened := False, doubleParOpened := False,
                 trimParen := False\<rparr>);
          (case r of Exit \<Rightarrow> Some Exit | Ret s \<Rightarrow>
            if doubleParOpened s \<or> singleParOpened s then do {
              r \<leftarrow> quoted_line s;
              (case r of Exit \<Rightarrow> Some Exit | Ret s \<Rightarrow> tokenize m start s)
            }
            else do {
              s \<leftarrow> add_to_arg_list m start s;
              tokenize m (next_start s) s
            })
        }
      }
    } else Some (Ret s))"

declare tokenize.simps [code]

text \<open>The line is read and the lexer started.\<close>

definition lexer_init :: "string \<Rightarrow> string \<Rightarrow> lexer" where
  "lexer_init l rest = \<lparr>buf = l @ [NUL], len = length l, inp = rest, last_mirrored_slash = 2 ^ 64 - 1,
     endPos = 0, singleParOpened = False, doubleParOpened = False, trimParen = False, args = [], argCap = 8\<rparr>"

definition read_args :: "machine \<Rightarrow> string \<Rightarrow> lexer outcome option" where
  "read_args m t = (case getline t of
     None \<Rightarrow> Some Exit
   | Some (l, rest) \<Rightarrow> tokenize m 0 (lexer_init l rest))"

end
