(* ===== verification/Sh_Parse.thy ===== *)
theory Sh_Parse imports Sh_Lex begin

text \<open>
  The second half of \<open>parser()\<close> in Assignment_2/src/parser/parser.c: the arguments are made into an
  array of commands (parser.h), and the whole of \<open>parser()\<close>.
\<close>

subsection \<open>Commands\<close>

datatype CommandType =
    COMMAND_TYPE_REGULAR
  | COMMAND_TYPE_OPERATOR_AND
  | COMMAND_TYPE_OPERATOR_OR
  | COMMAND_TYPE_OPERATOR_PIPE
  | COMMAND_TYPE_OPERATOR_APPEND
  | COMMAND_TYPE_OPERATOR_WRITE
  | COMMAND_TYPE_BACKGROUND
  | COMMAND_TYPE_COMMENT
  | COMMAND_TYPE_UNKNOWN

text \<open>
  \<open>argv\<close> is the block of pointers, each null or to a string; \<open>None\<close> is a null or dangling pointer to
  the block.  \<open>name\<close> points to the string of \<open>argv[0]\<close>.
\<close>

record Command =
  ctype :: CommandType
  argc :: nat
  argCapacity :: nat
  name :: "string option"
  argv :: "string option list option"

text \<open>\<open>tokens\<close> is the allocated block, of which \<open>ca_size\<close> commands are in use.\<close>

record CommandArray =
  tokens :: "Command list"
  ca_size :: nat
  ca_capacity :: nat

definition INITIAL_SEQUENCE_SIZE :: nat where "INITIAL_SEQUENCE_SIZE = 8"
definition EXTENSION_SIZE :: nat where "EXTENSION_SIZE = 2"

text \<open>A command of zero bytes, as \<open>calloc\<close> gives it.\<close>

definition zero_command :: Command where
  "zero_command = \<lparr>ctype = COMMAND_TYPE_REGULAR, argc = 0, argCapacity = 0, name = None, argv = None\<rparr>"

definition initArray :: CommandArray where
  "initArray = \<lparr>tokens = replicate INITIAL_SEQUENCE_SIZE zero_command, ca_size = 0,
     ca_capacity = INITIAL_SEQUENCE_SIZE\<rparr>"

text \<open>The capacity is not updated.\<close>

definition extendCommandArray :: "CommandArray \<Rightarrow> CommandArray option" where
  "extendCommandArray a = do {
     let newCapacity = ca_capacity a + EXTENSION_SIZE;
     ensure (ca_size a \<le> length (tokens a) \<and> ca_size a \<le> newCapacity);
     Some (a\<lparr>tokens := blit 0 (take (ca_size a) (tokens a)) (replicate newCapacity zero_command)\<rparr>)
   }"

text \<open>The result is the index of the new command.\<close>

definition allocateCommand :: "CommandArray \<Rightarrow> (nat \<times> CommandArray) option" where
  "allocateCommand a = do {
     a \<leftarrow> (if ca_size a = ca_capacity a then extendCommandArray a else Some a);
     ret \<leftarrow> slot (tokens a) (ca_size a);
     let ret' = ret\<lparr>argv := Some (replicate INITIAL_SEQUENCE_SIZE None), argc := 0,
                  argCapacity := INITIAL_SEQUENCE_SIZE\<rparr>;
     Some (ca_size a, a\<lparr>tokens := (tokens a)[ca_size a := ret'], ca_size := ca_size a + 1\<rparr>)
   }"

text \<open>
  The new array is as long as the old one, and is not stored: \<open>argv\<close> is left pointing to the freed block.
\<close>

definition extendArgv :: "Command \<Rightarrow> Command option" where
  "extendArgv cmd = do {
     let newCap = argCapacity cmd;
     blk \<leftarrow> argv cmd;
     ensure (argc cmd \<le> length blk \<and> argc cmd \<le> newCap);
     Some (cmd\<lparr>argv := None, argCapacity := newCap\<rparr>)
   }"

definition addArg :: "Command \<Rightarrow> string \<Rightarrow> Command option" where
  "addArg cmd arg = do {
     cmd \<leftarrow> (if argc cmd = argCapacity cmd then extendArgv cmd else Some cmd);
     let i = argc cmd;
     blk \<leftarrow> argv cmd;
     ensure (i < length blk);
     let cmd = cmd\<lparr>argc := i + 1, argv := Some (blk[i := Some arg])\<rparr>;
     Some (if i = 0 then cmd\<lparr>name := Some arg\<rparr> else cmd)
   }"

subsection \<open>From arguments to commands\<close>

definition isSpecialToken :: "string \<Rightarrow> bool option" where
  "isSpecialToken t = map_option isSpecialChar (slot t 0)"

definition operator_type :: "string \<Rightarrow> CommandType option" where
  "operator_type t = do {
     c \<leftarrow> slot t 0;
     if c = CHR ''&'' then do {
       d \<leftarrow> slot t 1;
       Some (if d = CHR ''&'' then COMMAND_TYPE_OPERATOR_AND else COMMAND_TYPE_UNKNOWN)
     } else if c = CHR ''|'' then do {
       d \<leftarrow> slot t 1;
       Some (if d \<noteq> CHR ''|'' then COMMAND_TYPE_OPERATOR_PIPE else COMMAND_TYPE_OPERATOR_OR)
     } else if c = CHR ''>'' then do {
       d \<leftarrow> slot t 1;
       Some (if d \<noteq> CHR ''>'' then COMMAND_TYPE_OPERATOR_WRITE else COMMAND_TYPE_OPERATOR_APPEND)
     } else Some COMMAND_TYPE_UNKNOWN
   }"

text \<open>
  The inner loop: it adds arguments up to the next operator, and steps back in front of it.  The result is
  the index with which it ends.
\<close>

function add_args :: "string list \<Rightarrow> nat \<Rightarrow> Command \<Rightarrow> (nat \<times> Command) option" where
  "add_args argList i cmd = (if i < length argList then do {
      sp \<leftarrow> isSpecialToken (argList ! i);
      if sp then Some (i - 1, cmd)
      else do {
        t \<leftarrow> c_str (argList ! i);
        if length t = 0 then add_args argList (i + 1) cmd
        else do {
          cmd \<leftarrow> addArg cmd t;
          add_args argList (i + 1) cmd
        }
      }
    } else Some (i, cmd))"
  by pat_completeness auto
termination by (relation "measure (\<lambda>(l, i, cmd). length l - i)") auto

declare add_args.simps [simp del]

text \<open>\<open>cmd->argv[0][0]\<close>; without an argument \<open>argv[0]\<close> is null.\<close>

definition first_char :: "Command \<Rightarrow> char option" where
  "first_char cmd = do {
     blk \<leftarrow> argv cmd;
     p \<leftarrow> slot blk 0;
     t \<leftarrow> p;
     slot (t @ [NUL]) 0
   }"

definition build_operator :: "string list \<Rightarrow> nat \<Rightarrow> CommandArray \<Rightarrow> CommandArray option" where
  "build_operator argList i ca = do {
     t \<leftarrow> operator_type (argList ! i);
     (k, ca) \<leftarrow> allocateCommand ca;
     Some (ca\<lparr>tokens := (tokens ca)[k := (tokens ca ! k)\<lparr>ctype := t\<rparr>]\<rparr>)
   }"

definition build_regular :: "string list \<Rightarrow> nat \<Rightarrow> CommandArray \<Rightarrow> (nat \<times> CommandArray) option" where
  "build_regular argList i ca = do {
     (k, ca) \<leftarrow> allocateCommand ca;
     (i, cmd) \<leftarrow> add_args argList i (tokens ca ! k);
     c \<leftarrow> first_char cmd;
     let cmd = (if c = CHR ''#'' then cmd\<lparr>ctype := COMMAND_TYPE_COMMENT\<rparr> else cmd);
     Some (i, ca\<lparr>tokens := (tokens ca)[k := cmd]\<rparr>)
   }"

text \<open>The inner loop gets past an argument that is no operator.\<close>

lemma add_args_progress:
  assumes "add_args l i cmd = Some (j, cmd')" "k \<le> i" "k < i \<or> isSpecialToken (l ! i) \<noteq> Some True" "k < length l"
  shows "k \<le> j"
  using assms
proof (induction l i cmd rule: add_args.induct)
  case (1 l i cmd)
  from "1.prems"(1) have run: "(if i < length l then do {
      sp \<leftarrow> isSpecialToken (l ! i);
      if sp then Some (i - 1, cmd)
      else do {
        t \<leftarrow> c_str (l ! i);
        if length t = 0 then add_args l (i + 1) cmd
        else do {
          cmd \<leftarrow> addArg cmd t;
          add_args l (i + 1) cmd
        }
      }
    } else Some (i, cmd)) = Some (j, cmd')"
    by (subst (asm) add_args.simps)
  show ?case
    using run "1.prems"(2-4)
    by (auto split: if_splits Option.bind_splits intro: "1.IH")
qed

function build_commands :: "string list \<Rightarrow> nat \<Rightarrow> CommandArray \<Rightarrow> CommandArray option" where
  "build_commands argList i ca = (if i < length argList then do {
      sp \<leftarrow> isSpecialToken (argList ! i);
      if sp then do {
        ca \<leftarrow> build_operator argList i ca;
        build_commands argList (i + 1) ca
      }
      else do {
        (i, ca) \<leftarrow> build_regular argList i ca;
        build_commands argList (i + 1) ca
      }
    } else Some ca)"
  by pat_completeness auto
termination
proof (relation "measure (\<lambda>(l, i, ca). length l - i)", goal_cases)
  case (3 l i ca sp z j ca')
  have "i \<le> j" if "add_args l i cmd = Some (j, cmd')" for cmd cmd'
    by (rule add_args_progress[OF that]) (use 3 in auto)
  with 3 have "i \<le> j" by (auto simp: build_regular_def split: Option.bind_splits)
  with 3 show ?case by auto
qed auto

declare build_commands.simps [simp del]

text \<open>The whole function: the commands of one line, and what is left of the standard input.\<close>

definition parser :: "machine \<Rightarrow> string \<Rightarrow> (CommandArray \<times> string) outcome option" where
  "parser m t = do {
     r \<leftarrow> read_args m t;
     (case r of Exit \<Rightarrow> Some Exit | Ret s \<Rightarrow> do {
       ca \<leftarrow> build_commands (args s) 0 initArray;
       Some (Ret (ca, inp s))
     })
   }"

text \<open>The commands in use, with their arguments.\<close>

definition command_view :: "Command \<Rightarrow> CommandType \<times> string option list" where
  "command_view c = (ctype c, case argv c of None \<Rightarrow> [] | Some blk \<Rightarrow> take (argc c) blk)"

definition commands :: "CommandArray \<Rightarrow> (CommandType \<times> string option list) list" where
  "commands ca = map command_view (take (ca_size ca) (tokens ca))"

end
