(* ===== verification/Sh_Exec.thy ===== *)
theory Sh_Exec imports Sh_Parse begin

text \<open>
  Assignment_2/src/executor/executor.c: the commands of a line are started as processes and waited for.  The
  operating system is a parameter whose answers may depend on all that was done before; what the shell
  asks of it is recorded in a trace.
\<close>

subsection \<open>The operating system\<close>

text \<open>What a child does between \<open>fork\<close> and its end.\<close>

datatype child_step =
    Debug int
  | Dup2 int int
  | ChildClose int
  | Exec string "string option list"
  | Say string
  | ExitWith int

datatype sink = Stdout | File string bool

text \<open>\<open>Spawn p c\<close>: \<open>fork\<close> gave \<open>p\<close>, and the child does \<open>c\<close>; it is \<open>None\<close> if it has no defined behaviour.\<close>

datatype action =
    Chdir "string option"
  | Pipe "int \<times> int"
  | Spawn int "child_step list option"
  | Close int
  | Wait int
  | Kill int
  | Open string bool
  | CloseFile string
  | Print sink string
  | Note string

text \<open>
  \<open>env_path\<close> is \<open>getenv("PATH")\<close>, \<open>can_exec\<close> the test with \<open>access\<close>, \<open>memory n\<close> whether an array of \<open>n\<close> handlers
  can be allocated.  \<open>pipe_fds\<close> is \<open>None\<close> when \<open>pipe\<close> fails; \<open>fork_pid\<close> is \<open>-1\<close> when \<open>fork\<close> fails.  \<open>exit_status\<close> is
  \<open>None\<close> when \<open>waitpid\<close> does not return, as when the process waits for room in its full pipe.  \<open>read_all\<close> gives
  the pieces that the calls of \<open>read\<close> deliver, and \<open>None\<close> if one of them fails.
\<close>

record os =
  env_path :: "string option"
  can_exec :: "action list \<Rightarrow> string \<Rightarrow> bool"
  memory :: "nat \<Rightarrow> bool"
  pipe_fds :: "action list \<Rightarrow> (int \<times> int) option"
  fork_pid :: "action list \<Rightarrow> int"
  exit_status :: "action list \<Rightarrow> int \<Rightarrow> int option"
  read_all :: "action list \<Rightarrow> int \<Rightarrow> string list option"
  can_open :: "action list \<Rightarrow> string \<Rightarrow> bool"

subsection \<open>The state\<close>

record Handler =
  pid :: int
  inputFd :: int
  outputPipe :: "int \<times> int"

record executor =
  arr :: "Handler list option"
  h_capacity :: nat
  h_size :: nat
  trace :: "action list"

definition zero_handler :: Handler where
  "zero_handler = \<lparr>pid = 0, inputFd = 0, outputPipe = (0, 0)\<rparr>"

definition act :: "action \<Rightarrow> executor \<Rightarrow> executor" where
  "act a e = e\<lparr>trace := trace e @ [a]\<rparr>"

definition INITIAL_HANDLER_ARRAY_LEN :: nat where "INITIAL_HANDLER_ARRAY_LEN = 8"
definition HANDLER_ARRAY_EXTENSION :: nat where "HANDLER_ARRAY_EXTENSION = 2"
definition RESOLVED_NAME_MAX_LEN :: nat where "RESOLVED_NAME_MAX_LEN = 128"

definition arrayInit :: "os \<Rightarrow> action list \<Rightarrow> executor" where
  "arrayInit q t = (if memory q INITIAL_HANDLER_ARRAY_LEN
     then \<lparr>arr = Some (replicate INITIAL_HANDLER_ARRAY_LEN zero_handler), h_capacity = INITIAL_HANDLER_ARRAY_LEN,
           h_size = 0, trace = t\<rparr>
     else \<lparr>arr = None, h_capacity = 0, h_size = 0, trace = t @ [Note ''Failed to allocate array of process handlers'']\<rparr>)"

definition extendArray :: "os \<Rightarrow> executor \<Rightarrow> executor option" where
  "extendArray q e = (let newCap = h_capacity e + HANDLER_ARRAY_EXTENSION in
     if \<not> memory q newCap then Some (act (Note ''Failed to extend array'') e)
     else do {
       let old = (case arr e of None \<Rightarrow> [] | Some hs \<Rightarrow> hs);
       ensure (h_size e \<le> length old \<and> h_size e \<le> newCap);
       Some (e\<lparr>arr := Some (blit 0 (take (h_size e) old) (replicate newCap zero_handler)), h_capacity := newCap\<rparr>)
     })"

definition arrayFree :: "executor \<Rightarrow> executor" where
  "arrayFree e = e\<lparr>arr := None, h_size := 0, h_capacity := 0\<rparr>"

definition handler :: "executor \<Rightarrow> nat \<Rightarrow> Handler option" where
  "handler e i = do {hs \<leftarrow> arr e; slot hs i}"

definition set_handler :: "nat \<Rightarrow> Handler \<Rightarrow> executor \<Rightarrow> executor" where
  "set_handler i h e = e\<lparr>arr := map_option (\<lambda>hs. hs[i := h]) (arr e)\<rparr>"

subsection \<open>The search in PATH\<close>

function path_end :: "string \<Rightarrow> nat \<Rightarrow> nat" where
  "path_end path i = (if i < length path \<and> path ! i \<noteq> CHR '':'' then path_end path (i + 1) else i)"
  by pat_completeness auto
termination by (relation "measure (\<lambda>(p, i). length p - i)") auto

declare path_end.simps [simp del]

lemma path_end_ge: "i \<le> path_end path i"
proof (induction path i rule: path_end.induct)
  case (1 path i)
  then show ?case by (subst path_end.simps) (auto dest: Suc_leD)
qed

text \<open>The result of the loop is the name found, if any.  The name is put together in an array of 128 characters.\<close>

function resolve_loop :: "os \<Rightarrow> action list \<Rightarrow> string \<Rightarrow> string \<Rightarrow> nat \<Rightarrow> string option option" where
  "resolve_loop q t path nm startPos = (if startPos < length path then do {
      let endPos = path_end path startPos;
      let concatedName = take (endPos - startPos) (drop startPos path) @ ''/'' @ nm;
      ensure (length concatedName < RESOLVED_NAME_MAX_LEN);
      if can_exec q t concatedName then Some (Some concatedName)
      else if endPos = length path then Some None
      else resolve_loop q t path nm (endPos + 1)
    } else Some None)"
  by pat_completeness auto
termination
  by (relation "measure (\<lambda>(q, t, path, nm, i). length path - i)") (auto simp: less_Suc_eq_le path_end_ge diff_less_mono2)

declare resolve_loop.simps [simp del]

definition resolvePath :: "os \<Rightarrow> action list \<Rightarrow> string \<Rightarrow> string option option" where
  "resolvePath q t nm = do {
     path \<leftarrow> env_path q;
     resolve_loop q t path nm 0
   }"

subsection \<open>Starting a process\<close>

text \<open>\<open>execv\<close> needs an array with a null pointer at its end.\<close>

definition child_steps :: "Handler \<Rightarrow> string option \<Rightarrow> Command \<Rightarrow> child_step list option" where
  "child_steps h resolved token = do {
     let wiring = (if inputFd h \<noteq> 0 then [Debug (inputFd h), Dup2 (inputFd h) 0] else []) @
       [ChildClose (fst (outputPipe h)), Dup2 (snd (outputPipe h)) 1, Dup2 (snd (outputPipe h)) 2,
        ChildClose (snd (outputPipe h))];
     (case resolved of
        Some nm \<Rightarrow> do {
          blk \<leftarrow> argv token;
          ensure (None \<in> set blk);
          Some (wiring @ [Exec nm blk, ExitWith 0])
        }
      | None \<Rightarrow> Some (wiring @ [Say ''Command not found'', ExitWith 0]))
   }"

definition EXIT_SUCCESS :: nat where "EXIT_SUCCESS = 0"
definition EXIT_FAILURE :: nat where "EXIT_FAILURE = 1"

definition executeRegular :: "os \<Rightarrow> Command \<Rightarrow> executor \<Rightarrow> (nat \<times> executor) option" where
  "executeRegular q token e = do {
     nm \<leftarrow> name token;
     resolved \<leftarrow> resolvePath q (trace e) nm;
     e \<leftarrow> (if h_size e = h_capacity e then extendArray q e else Some e);
     let k = h_size e;
     h \<leftarrow> handler e k;
     fd \<leftarrow> (if 0 < k then do {p \<leftarrow> handler e (k - 1); Some (fst (outputPipe p))} else Some 0);
     let fds = pipe_fds q (trace e);
     let h = h\<lparr>inputFd := fd, outputPipe := (case fds of None \<Rightarrow> outputPipe h | Some p \<Rightarrow> p)\<rparr>;
     let e = act (Pipe (outputPipe h)) (e\<lparr>h_size := k + 1\<rparr>);
     let p = fork_pid q (trace e);
     let e = act (Spawn p (child_steps h resolved token)) e;
     let e = act (Close (snd (outputPipe h))) e;
     Some (EXIT_SUCCESS, set_handler k (h\<lparr>pid := p\<rparr>) e)
   }"

subsection \<open>Waiting for a pipeline\<close>

text \<open>\<open>for (i = size - 1; i != -1; i--)\<close>: \<open>n\<close> handlers are left.\<close>

fun stop_rest :: "nat \<Rightarrow> executor \<Rightarrow> executor option" where
  "stop_rest 0 e = Some e"
| "stop_rest (Suc i) e = do {
     h \<leftarrow> handler e i;
     let e = act (Close (fst (outputPipe h))) (act (Kill (pid h)) e);
     let e = (if inputFd h \<noteq> 0 then act (Close (inputFd h)) e else e);
     stop_rest i (set_handler i (h\<lparr>pid := 0\<rparr>) e)
   }"

fun print_all :: "sink \<Rightarrow> string list \<Rightarrow> executor \<Rightarrow> executor" where
  "print_all f [] e = e"
| "print_all f (s # ss) e = print_all f ss (act (Print f (takeWhile (\<lambda>c. c \<noteq> NUL) s)) e)"

text \<open>
  The wait comes before the reads; if it does not return, neither does the function.  A failed read gives \<open>-1\<close> as an
  index into the buffer.
\<close>

definition syncPointProc :: "os \<Rightarrow> sink \<Rightarrow> executor \<Rightarrow> (int \<times> executor) option" where
  "syncPointProc q f e = (if h_size e = 0 then Some (0, e) else do {
     let n = h_size e - 1;
     hLast \<leftarrow> handler e n;
     ret \<leftarrow> exit_status q (trace e) (pid hLast);
     let e = act (Wait (pid hLast)) (e\<lparr>h_size := n\<rparr>);
     e \<leftarrow> stop_rest n e;
     ss \<leftarrow> read_all q (trace e) (fst (outputPipe hLast));
     let e = print_all f ss e;
     Some (ret, set_handler n (hLast\<lparr>pid := 0\<rparr>) (e\<lparr>h_size := 0\<rparr>))
   })"

definition syncPointProcStdout :: "os \<Rightarrow> executor \<Rightarrow> (int \<times> executor) option" where
  "syncPointProcStdout q e = syncPointProc q Stdout e"

text \<open>A file that cannot be opened is used nevertheless.\<close>

definition syncPointProcFile :: "os \<Rightarrow> string option \<Rightarrow> bool \<Rightarrow> executor \<Rightarrow> (int \<times> executor) option" where
  "syncPointProcFile q fileName isAppendMode e = do {
     nm \<leftarrow> fileName;
     ensure (can_open q (trace e) nm);
     (ret, e) \<leftarrow> syncPointProc q (File nm isAppendMode) (act (Open nm isAppendMode) e);
     Some (ret, act (CloseFile nm) e)
   }"

subsection \<open>The commands of a line\<close>

definition executeBuiltin :: "Command \<Rightarrow> executor \<Rightarrow> (nat \<times> executor) option" where
  "executeBuiltin token e = do {
     nm \<leftarrow> name token;
     if nm = ''cd'' then do {
       dir \<leftarrow> (if argc token < 1 then Some (Some ''/'') else do {blk \<leftarrow> argv token; slot blk 1});
       Some (EXIT_SUCCESS, act (Chdir dir) e)
     }
     else Some (EXIT_FAILURE, e)
   }"

text \<open>The loop; the result is \<open>regularsExecuted\<close> and the state.\<close>

function execute_loop :: "os \<Rightarrow> CommandArray \<Rightarrow> nat \<Rightarrow> nat \<Rightarrow> executor \<Rightarrow> (nat \<times> executor) option" where
  "execute_loop q ca i n e = (if i < ca_size ca then do {
      token \<leftarrow> slot (tokens ca) i;
      if ctype token = COMMAND_TYPE_COMMENT then Some (n, e)
      else if ctype token = COMMAND_TYPE_REGULAR then do {
        (builtInError, e) \<leftarrow> executeBuiltin token e;
        if builtInError \<noteq> EXIT_FAILURE then execute_loop q ca (i + 1) n e
        else do {
          (ret, e) \<leftarrow> executeRegular q token e;
          if ret \<noteq> EXIT_SUCCESS then Some (n, act (Note ''failed to execute'') e)
          else execute_loop q ca (i + 1) (n + 1) e
        }
      }
      else if ctype token = COMMAND_TYPE_OPERATOR_PIPE then execute_loop q ca (i + 1) n e
      else if ctype token = COMMAND_TYPE_OPERATOR_AND then do {
        (ret, e) \<leftarrow> syncPointProcStdout q e;
        if ret \<noteq> 0 then Some (n, e) else execute_loop q ca (i + 1) n e
      }
      else if ctype token = COMMAND_TYPE_OPERATOR_OR then do {
        (ret, e) \<leftarrow> syncPointProcStdout q e;
        if ret = 0 then Some (n, e) else execute_loop q ca (i + 1) n e
      }
      else if ctype token = COMMAND_TYPE_OPERATOR_APPEND \<or> ctype token = COMMAND_TYPE_OPERATOR_WRITE then
        (if ca_size ca \<le> i + 1 then execute_loop q ca (i + 1) n (act (Note ''No target for write provided'') e)
         else do {
           newToken \<leftarrow> slot (tokens ca) (i + 1);
           (ret, e) \<leftarrow> syncPointProcFile q (name newToken) (ctype token = COMMAND_TYPE_OPERATOR_APPEND) e;
           execute_loop q ca (i + 2) n e
         })
      else execute_loop q ca (i + 1) n e
    } else Some (n, e))"
  by pat_completeness auto
termination by (relation "measure (\<lambda>(q, ca, i, n, e). ca_size ca - i)") auto

declare execute_loop.simps [simp del]

definition execute :: "os \<Rightarrow> CommandArray \<Rightarrow> action list \<Rightarrow> (nat \<times> action list) option" where
  "execute q ca t = do {
     (n, e) \<leftarrow> execute_loop q ca 0 0 (arrayInit q t);
     (ret, e) \<leftarrow> syncPointProcStdout q e;
     Some (n, trace (arrayFree e))
   }"

text \<open>One round of the loop of \<open>main()\<close>: a line is read and executed.\<close>

definition shell_round :: "machine \<Rightarrow> os \<Rightarrow> string \<times> action list \<Rightarrow> (string \<times> action list) outcome option" where
  "shell_round m q st = (case st of (stdin, t) \<Rightarrow> do {
     r \<leftarrow> parser m stdin;
     (case r of Exit \<Rightarrow> Some Exit | Ret (ca, stdin') \<Rightarrow> do {
       (n, t') \<leftarrow> execute q ca t;
       Some (Ret (stdin', t'))
     })
   })"

text \<open>The shell runs until the input ends; the result is the trace.\<close>

partial_function (option) shell_main :: "machine \<Rightarrow> os \<Rightarrow> string \<times> action list \<Rightarrow> action list option" where
  "shell_main m q st = do {
     r \<leftarrow> shell_round m q st;
     (case r of Exit \<Rightarrow> Some (snd st) | Ret st' \<Rightarrow> shell_main m q st')
   }"

end
