(* ===== verification/Sh_Line.thy ===== *)
theory Sh_Line imports Sh_Parse begin

text \<open>
  How a command line is written, and that \<open>parser()\<close> reads back what was written: words, bare or in quotation
  marks and with backslashes where they are needed, and operators, with blanks between them.  The lemmas
  move over one written word or operator in the middle of the buffer.
\<close>

subsection \<open>Written lines\<close>

datatype quoting = Bare | Single | Double

datatype token = W quoting string | Op string

definition needs_escape :: "quoting \<Rightarrow> char \<Rightarrow> bool" where
  "needs_escape q c = (case q of
     Bare \<Rightarrow> c = SPC \<or> c = BSL \<or> c = DQ \<or> c = SQ \<or> isSpecialChar c
   | Single \<Rightarrow> c = BSL \<or> c = SQ
   | Double \<Rightarrow> c = BSL \<or> c = DQ)"

definition escape :: "quoting \<Rightarrow> string \<Rightarrow> string" where
  "escape q w = concat (map (\<lambda>c. if needs_escape q c then [BSL, c] else [c]) w)"

definition mark :: "quoting \<Rightarrow> string" where
  "mark q = (case q of Bare \<Rightarrow> [] | Single \<Rightarrow> [SQ] | Double \<Rightarrow> [DQ])"

fun write_token :: "token \<Rightarrow> string" where
  "write_token (W q w) = mark q @ escape q w @ mark q"
| "write_token (Op p) = p"

definition write_line :: "(nat \<times> token) list \<Rightarrow> string" where
  "write_line l = concat (map (\<lambda>(n, t). replicate n SPC @ write_token t) l)"

text \<open>
  A word is not empty and does not start with a character of the operators; an operator consists of
  such characters.
\<close>

fun token_ok :: "token \<Rightarrow> bool" where
  "token_ok (W q w) \<longleftrightarrow> w \<noteq> [] \<and> \<not> isSpecialChar (hd w) \<and> NUL \<notin> set w \<and> NL \<notin> set w"
| "token_ok (Op p) \<longleftrightarrow> p \<noteq> [] \<and> (\<forall>c \<in> set p. isSpecialChar c)"

text \<open>Two words or two operators are kept apart; a quotation mark does not come first in the line.\<close>

fun gap :: "token option \<Rightarrow> token \<Rightarrow> nat" where
  "gap None (W q w) = (if q = Bare then 0 else 1)"
| "gap None (Op p) = 0"
| "gap (Some (W _ _)) (W _ _) = 1"
| "gap (Some (W _ _)) (Op _) = 0"
| "gap (Some (Op _)) (W _ _) = 0"
| "gap (Some (Op _)) (Op _) = 1"

fun spaced :: "token option \<Rightarrow> (nat \<times> token) list \<Rightarrow> bool" where
  "spaced t [] = True"
| "spaced t ((n, u) # l) = (gap t u \<le> n \<and> token_ok u \<and> spaced (Some u) l)"

text \<open>The text of a token, and the blocks that hold it.\<close>

fun text_of :: "token \<Rightarrow> string" where
  "text_of (W q w) = w"
| "text_of (Op p) = p"

definition holds :: "token \<Rightarrow> string \<Rightarrow> bool" where
  "holds t b \<longleftrightarrow> (\<exists>k. b = text_of t @ replicate (Suc k) NUL)"

lemma escape_simps [simp]:
  "escape q [] = []"
  "escape q (c # w) = (if needs_escape q c then [BSL, c] else [c]) @ escape q w"
  "escape q (v @ w) = escape q v @ escape q w"
  by (simp_all add: escape_def)

lemma escape_eq_Nil [simp]: "escape q w = [] \<longleftrightarrow> w = []"
  by (cases w) auto

lemma last_escape: "w \<noteq> [] \<Longrightarrow> last (escape q w) = last w"
  by (induction w) auto

lemma isSpecialChar_not [simp]:
  "\<not> isSpecialChar SPC" "\<not> isSpecialChar NL" "\<not> isSpecialChar NUL" "\<not> isSpecialChar BSL"
  "\<not> isSpecialChar DQ" "\<not> isSpecialChar SQ"
  by (simp_all add: isSpecialChar_def)

subsection \<open>Steps of the scan\<close>

lemma scan_char:
  assumes "endPos s < len s - 1" "endPos s < length (buf s)" "buf s ! endPos s = c" "c \<noteq> BSL"
    "\<not> ((c = SPC \<or> c = NL \<or> isSpecialChar c) \<and> \<not> singleParOpened s \<and> \<not> doubleParOpened s)"
    "quote_step c s = Some (stop, s')"
  shows "scan start s = (if stop then Some (Ret s') else scan start (s'\<lparr>endPos := endPos s' + 1\<rparr>))"
  using assms by (subst scan.simps) (simp del: de_Morgan_conj not_not)

lemma scan_escaped:
  assumes "endPos s < len s - 1" "endPos s + 1 < length (buf s)" "buf s ! endPos s = BSL"
    "buf s ! (endPos s + 1) \<noteq> NL"
  shows "scan start s = scan start (s\<lparr>endPos := endPos s + 2, last_mirrored_slash := int (endPos s + 1)\<rparr>)"
proof -
  have "s\<lparr>endPos := endPos s + 2, last_mirrored_slash := int (endPos s + 1)\<rparr> =
      s\<lparr>last_mirrored_slash := int (endPos s + 1), endPos := endPos s + 2\<rparr>" by simp
  then show ?thesis using assms by (subst scan.simps) (simp only: slot_in if_True bind.bind_lunit if_False, simp)
qed

lemma scan_end: "len s - 1 \<le> endPos s \<Longrightarrow> scan start s = Some (Ret s)"
  by (subst scan.simps) simp

lemma scan_delimiter:
  assumes "endPos s < length (buf s)" "buf s ! endPos s = c" "c = SPC \<or> c = NL \<or> isSpecialChar c"
    "\<not> singleParOpened s" "\<not> doubleParOpened s"
  shows "scan start s = Some (Ret s)"
proof (cases "endPos s < len s - 1")
  case True
  moreover have "c \<noteq> BSL" using assms(3) by auto
  ultimately show ?thesis using assms by (subst scan.simps) simp
qed (simp add: scan_end)

definition in_mode :: "quoting \<Rightarrow> lexer \<Rightarrow> bool" where
  "in_mode q s \<longleftrightarrow> singleParOpened s = (q = Single) \<and> doubleParOpened s = (q = Double)"

text \<open>An escaped text is passed without a halt; a backslash at its end is known to be escaped.\<close>

lemma scan_escape:
  assumes "buf s = p @ escape q w @ r" "endPos s = length p" "in_mode q s" "NL \<notin> set w"
    "length p + length (escape q w) < len s"
  shows "\<exists>k. scan start s = scan start (s\<lparr>endPos := length p + length (escape q w), last_mirrored_slash := k\<rparr>) \<and>
    (w \<noteq> [] \<and> last w = BSL \<longrightarrow> k = int (length p + length (escape q w) - 1))"
  using assms
proof (induction w arbitrary: p s)
  case Nil
  then have "s = s\<lparr>endPos := length p + length (escape q []), last_mirrored_slash := last_mirrored_slash s\<rparr>"
    by simp
  then show ?case by (metis append_self_conv2 list.distinct(1))
next
  case (Cons c w)
  let ?e = "if needs_escape q c then [BSL, c] else [c]"
  let ?k = "if needs_escape q c then int (length p + 1) else last_mirrored_slash s"
  let ?s = "s\<lparr>endPos := length p + length ?e, last_mirrored_slash := ?k\<rparr>"
  have step: "scan start s = scan start ?s"
  proof (cases "needs_escape q c")
    case True
    with Cons.prems show ?thesis
      by (subst scan_escaped) (auto simp: nth_append)
  next
    case False
    have "quote_step c s = Some (False, s)"
      using False Cons.prems(3)
      by (auto simp: quote_step_def needs_escape_def in_mode_def double_quote_def single_quote_def split: quoting.splits)
    moreover have "c \<noteq> BSL" "\<not> ((c = SPC \<or> c = NL \<or> isSpecialChar c) \<and> \<not> singleParOpened s \<and> \<not> doubleParOpened s)"
      using False Cons.prems(3,4) by (auto simp: needs_escape_def in_mode_def split: quoting.splits)
    ultimately show ?thesis
      using False Cons.prems by (subst scan_char[where c = c]) (auto simp: nth_append)
  qed
  have "\<exists>k. scan start ?s = scan start (?s\<lparr>endPos := length (p @ ?e) + length (escape q w), last_mirrored_slash := k\<rparr>) \<and>
      (w \<noteq> [] \<and> last w = BSL \<longrightarrow> k = int (length (p @ ?e) + length (escape q w) - 1))"
    by (rule Cons.IH) (use Cons.prems in \<open>auto simp: in_mode_def\<close>)
  then obtain k where k: "scan start ?s = scan start (?s\<lparr>endPos := length (p @ ?e) + length (escape q w), last_mirrored_slash := k\<rparr>)"
    "w \<noteq> [] \<and> last w = BSL \<longrightarrow> k = int (length (p @ ?e) + length (escape q w) - 1)" by blast
  show ?case
  proof (cases "w = []")
    case True
    with step show ?thesis
      by (intro exI[of _ ?k]) (auto simp: needs_escape_def split: quoting.splits)
  next
    case False
    with step k show ?thesis
      by (intro exI[of _ k]) (auto simp: add.assoc)
  qed
qed


text \<open>What the steps of the lexer leave alone.\<close>

definition same_line :: "lexer \<Rightarrow> lexer \<Rightarrow> bool" where
  "same_line s s' \<longleftrightarrow> buf s' = buf s \<and> len s' = len s \<and> inp s' = inp s \<and> args s' = args s \<and> argCap s' = argCap s"

text \<open>The quotation mark at the start of a word and at its end.\<close>

lemma quote_step_mark:
  assumes "q \<noteq> Bare" "0 < endPos s" "endPos s \<le> length (buf s)"
    "buf s ! (endPos s - 1) = BSL \<longrightarrow> last_mirrored_slash s = int (endPos s - 1)"
    "in_mode (if stop then q else Bare) s"
  shows "\<exists>s'. quote_step (hd (mark q)) s = Some (stop, s') \<and> same_line s s' \<and> endPos s' = endPos s \<and>
    in_mode (if stop then Bare else q) s' \<and> trimParen s' \<and> last_mirrored_slash s' = last_mirrored_slash s"
  using assms
  by (cases q) (auto simp: quote_step_def double_quote_def single_quote_def mirrored_def mark_def in_mode_def same_line_def)

lemma scan_bare:
  assumes "buf s = p @ escape Bare w @ d # r" "endPos s = length p" "in_mode Bare s" "NL \<notin> set w"
    "length p + length (escape Bare w) < len s" "d = SPC \<or> d = NL \<or> isSpecialChar d"
  shows "\<exists>s'. scan start s = Some (Ret s') \<and> same_line s s' \<and> in_mode Bare s' \<and> trimParen s' = trimParen s \<and>
    endPos s' = length p + length (escape Bare w)"
proof -
  obtain k where "scan start s = scan start (s\<lparr>endPos := length p + length (escape Bare w), last_mirrored_slash := k\<rparr>)"
    using scan_escape[OF assms(1-5)] by blast
  also have "\<dots> = Some (Ret (s\<lparr>endPos := length p + length (escape Bare w), last_mirrored_slash := k\<rparr>))"
    by (rule scan_delimiter[where c = d]) (use assms in \<open>auto simp: nth_append in_mode_def\<close>)
  finally show ?thesis using assms(3) by (auto simp: same_line_def in_mode_def)
qed

lemma scan_open:
  assumes "buf s = p @ mark q @ escape q w @ r" "endPos s = length p" "in_mode Bare s" "NL \<notin> set w"
    "length p + length (escape q w) + 1 < len s" "q \<noteq> Bare" "p \<noteq> []" "last p \<noteq> BSL"
  shows "\<exists>s'. scan start s = scan start s' \<and> same_line s s' \<and> in_mode q s' \<and> trimParen s' \<and>
    endPos s' = length p + 1 + length (escape q w) \<and>
    (w \<noteq> [] \<and> last w = BSL \<longrightarrow> last_mirrored_slash s' = int (length p + length (escape q w)))"
proof -
  from assms(6) obtain c where c: "mark q = [c]" "c = DQ \<or> c = SQ" by (cases q) (auto simp: mark_def)
  have "\<exists>s'. quote_step (hd (mark q)) s = Some (False, s') \<and> same_line s s' \<and> endPos s' = endPos s \<and>
      in_mode (if False then Bare else q) s' \<and> trimParen s' \<and> last_mirrored_slash s' = last_mirrored_slash s"
    by (rule quote_step_mark) (use assms in \<open>auto simp: nth_append last_conv_nth\<close>)
  then obtain s1 where s1: "quote_step c s = Some (False, s1)" "same_line s s1" "endPos s1 = length p"
    "in_mode q s1" "trimParen s1" using c assms(2) by auto
  have "scan start s = (if False then Some (Ret s1) else scan start (s1\<lparr>endPos := endPos s1 + 1\<rparr>))"
    by (rule scan_char[where c = c]) (use assms s1 c in \<open>auto simp: isSpecialChar_def\<close>)
  then have open_mark: "scan start s = scan start (s1\<lparr>endPos := length p + 1\<rparr>)" using s1(3) by simp
  let ?s1 = "s1\<lparr>endPos := length p + 1\<rparr>"
  have "\<exists>k. scan start ?s1 = scan start (?s1\<lparr>endPos := length (p @ [c]) + length (escape q w), last_mirrored_slash := k\<rparr>) \<and>
      (w \<noteq> [] \<and> last w = BSL \<longrightarrow> k = int (length (p @ [c]) + length (escape q w) - 1))"
    by (rule scan_escape[where r = r]) (use assms s1 c in \<open>auto simp: same_line_def in_mode_def\<close>)
  then obtain k where k: "scan start ?s1 = scan start (?s1\<lparr>endPos := length (p @ [c]) + length (escape q w), last_mirrored_slash := k\<rparr>)"
    "w \<noteq> [] \<and> last w = BSL \<longrightarrow> k = int (length (p @ [c]) + length (escape q w) - 1)" by blast
  let ?s2 = "?s1\<lparr>endPos := length (p @ [c]) + length (escape q w), last_mirrored_slash := k\<rparr>"
  have "scan start s = scan start ?s2" using open_mark k(1) by simp
  moreover have "same_line s ?s2" "in_mode q ?s2" "trimParen ?s2" using s1 by (simp_all add: same_line_def in_mode_def)
  ultimately show ?thesis using k(2) by (intro exI[of _ ?s2]) auto
qed

lemma scan_quoted:
  assumes "buf s = p @ mark q @ escape q w @ mark q @ r" "endPos s = length p" "in_mode Bare s" "NL \<notin> set w"
    "length p + length (escape q w) + 2 < len s" "q \<noteq> Bare" "p \<noteq> []" "last p \<noteq> BSL" "w \<noteq> []"
  shows "\<exists>s'. scan start s = Some (Ret s') \<and> same_line s s' \<and> in_mode Bare s' \<and> trimParen s' \<and>
    endPos s' = length p + length (escape q w) + 1"
proof -
  from assms(6) obtain c where c: "mark q = [c]" "c = DQ \<or> c = SQ" by (cases q) (auto simp: mark_def)
  let ?n = "length p + 1 + length (escape q w)"
  from scan_open[OF assms(1-4) _ assms(6-8), of start] assms(5) obtain s2 where
    s2: "scan start s = scan start s2" "same_line s s2" "in_mode q s2" "trimParen s2" "endPos s2 = ?n"
      "last w = BSL \<longrightarrow> last_mirrored_slash s2 = int (?n - 1)" using assms(9) by auto
  have b: "buf s2 = p @ [c] @ escape q w @ [c] @ r" using assms(1) s2(2) c by (simp add: same_line_def)
  have "buf s2 ! (?n - 1) = last w"
    unfolding b last_escape[of w q, OF assms(9), symmetric]
    using assms(9) by (simp add: nth_append last_conv_nth nth_Cons')
  then have "\<exists>s'. quote_step (hd (mark q)) s2 = Some (True, s') \<and> same_line s2 s' \<and> endPos s' = endPos s2 \<and>
      in_mode (if True then Bare else q) s' \<and> trimParen s' \<and> last_mirrored_slash s' = last_mirrored_slash s2"
    by (intro quote_step_mark) (use assms s2 b in \<open>auto simp: in_mode_def\<close>)
  then obtain s3 where s3: "quote_step c s2 = Some (True, s3)" "same_line s2 s3" "endPos s3 = ?n"
    "in_mode Bare s3" "trimParen s3" using c s2 by auto
  have "scan start s2 = (if True then Some (Ret s3) else scan start (s3\<lparr>endPos := endPos s3 + 1\<rparr>))"
    by (rule scan_char[where c = c])
      (use assms s2 s3 c b in \<open>auto simp: same_line_def nth_append in_mode_def isSpecialChar_def split: quoting.splits\<close>)
  then show ?thesis using s2 s3 by (auto simp: same_line_def)
qed

subsection \<open>Copying\<close>

lemma drop_eq_Cons:
  assumes "drop n b = x # r"
  shows "n < length b" "b ! n = x" "drop (Suc n) b = r"
proof -
  show n: "n < length b" using assms by (cases "n < length b") auto
  show "b ! n = x" using assms n by (simp flip: hd_drop_conv_nth)
  show "drop (Suc n) b = r" using assms by (simp add: drop_Suc flip: tl_drop)
qed

lemma copy_escape:
  assumes "drop (i + base) b = escape q w @ r" "argLen = i + length (escape q w)" "d + length w \<le> length dst"
  shows "copy_arg b base argLen i d dst = Some (blit d w dst)"
  using assms
proof (induction w arbitrary: i d dst)
  case Nil
  then show ?case by (subst copy_arg.simps) simp
next
  case (Cons c w)
  have blit: "blit (Suc d) w (dst[d := c]) = blit d (c # w) dst"
    using blit_blit[of d "[c]" w dst] Cons.prems(3) by (simp add: blit_def upd_conv_take_nth_drop)
  show ?case
  proof (cases "needs_escape q c")
    case True
    have d1: "drop (i + base) b = BSL # c # escape q w @ r" using Cons.prems(1) True by simp
    note b1 = drop_eq_Cons[OF d1]
    note b2 = drop_eq_Cons[OF b1(3)]
    have "copy_arg b base argLen i d dst = copy_arg b base argLen (Suc (Suc i)) (Suc d) (dst[d := c])"
      using True b1(1,2) b2(1,2) Cons.prems(2,3) by (subst copy_arg.simps) simp
    also have "\<dots> = Some (blit (Suc d) w (dst[d := c]))"
      by (rule Cons.IH) (use True b2(3) Cons.prems(2,3) in simp_all)
    finally show ?thesis using blit by simp
  next
    case False
    then have "c \<noteq> BSL" by (auto simp: needs_escape_def split: quoting.splits)
    have d1: "drop (i + base) b = c # escape q w @ r" using Cons.prems(1) False by simp
    note b1 = drop_eq_Cons[OF d1]
    have "copy_arg b base argLen i d dst = copy_arg b base argLen (Suc i) (Suc d) (dst[d := c])"
      using False \<open>c \<noteq> BSL\<close> b1(1,2) Cons.prems(2,3) by (subst copy_arg.simps) simp
    also have "\<dots> = Some (blit (Suc d) w (dst[d := c]))"
      by (rule Cons.IH) (use False b1(3) Cons.prems(2,3) in simp_all)
    finally show ?thesis using blit by simp
  qed
qed


lemma length_escape: "length w \<le> length (escape q w)"
  by (induction w) auto

lemma add_arg_escaped:
  assumes "buf s = p @ v @ escape q w @ r" "endPos s = start + length v + length (escape q w)"
    "start = length p" "length v = (if trimParen s then 1 else 0)" "0 < pad m (length (escape q w))"
    "length (args s) \<le> argCap s" "text_of t = w"
  shows "\<exists>s' b. add_to_arg_list m start s = Some s' \<and> buf s' = buf s \<and> len s' = len s \<and> inp s' = inp s \<and>
    endPos s' = endPos s \<and> trimParen s' = trimParen s \<and>
    args s' = args s @ [b] \<and> length (args s') \<le> argCap s' \<and> holds t b"
proof -
  let ?n = "length (escape q w)"
  let ?d = "replicate (?n + pad m ?n) NUL"
  have "copy_arg (buf s) (start + length v) ?n 0 0 ?d = Some (blit 0 w ?d)"
    by (rule copy_escape[where q = q and r = r]) (use assms length_escape[of w q] in auto)
  moreover obtain k where "?n + pad m ?n - length w = Suc k"
    using assms(5) length_escape[of w q] by (cases "?n + pad m ?n - length w") auto
  then have "holds t (blit 0 w ?d)" using assms(7) by (auto simp: holds_def blit_def)
  ultimately show ?thesis
    using assms(2,4,6) unfolding add_to_arg_list_def Let_def by (auto split: if_splits)
qed

subsection \<open>One token of the line\<close>

definition machine_ok :: "machine \<Rightarrow> bool" where
  "machine_ok m \<longleftrightarrow> (\<forall>n. 0 < pad m n) \<and> (\<forall>k. \<not> junk m k)"

lemma skip_blanks_spaces:
  assumes "b = p @ replicate k SPC @ c # r" "c \<noteq> SPC" "c \<noteq> NL \<or> p \<noteq> [] \<or> 0 < k" "length p + k < n"
  shows "skip_blanks b n (length p) = Some (length p + k)"
  using assms
proof (induction k arbitrary: p)
  case 0
  then show ?case by (subst skip_blanks.simps) auto
next
  case (Suc k)
  have "skip_blanks b n (length p) = skip_blanks b n (length (p @ [SPC]))"
    using Suc.prems by (subst skip_blanks.simps) (simp add: nth_append)
  also have "\<dots> = Some (length (p @ [SPC]) + k)"
    by (rule Suc.IH) (use Suc.prems in auto)
  finally show ?case by simp
qed

lemma skip_special_run:
  assumes "b = p @ v @ c # r" "\<forall>x \<in> set v. isSpecialChar x" "\<not> isSpecialChar c"
  shows "skip_special b (length p) = Some (length p + length v)"
  using assms
proof (induction v arbitrary: p)
  case Nil
  then show ?case by (subst skip_special.simps) (simp add: nth_append)
next
  case (Cons x v)
  have "skip_special b (length p) = skip_special b (length (p @ [x]))"
    using Cons.prems by (subst skip_special.simps) (simp add: nth_append)
  also have "\<dots> = Some (length (p @ [x]) + length v)"
    by (rule Cons.IH) (use Cons.prems in auto)
  finally show ?case by simp
qed

text \<open>The lexer has gone on over a token, which it has added to its list.\<close>

definition lexed :: "token list \<Rightarrow> lexer \<Rightarrow> lexer \<Rightarrow> bool" where
  "lexed ts s s' \<longleftrightarrow> buf s' = buf s \<and> len s' = len s \<and> inp s' = inp s \<and> length (args s') \<le> argCap s' \<and>
     (\<exists>bs. args s' = args s @ bs \<and> list_all2 holds ts bs)"

lemma lexed_trans: "lexed ts s s' \<Longrightarrow> lexed us s' s'' \<Longrightarrow> lexed (ts @ us) s s''"
  by (auto simp: lexed_def intro: list_all2_appendI)

lemma operator_no_escape: "isSpecialChar c \<Longrightarrow> \<not> needs_escape Single c"
  unfolding needs_escape_def by auto

lemma escape_operator: "\<forall>c \<in> set v. isSpecialChar c \<Longrightarrow> escape Single v = v"
  by (induction v) (simp_all add: operator_no_escape)

lemma tokenize_operator:
  assumes b: "buf s = p @ replicate n SPC @ v @ c # r" and v: "token_ok (Op v)" "\<not> isSpecialChar c"
    and l: "length p + n + length v < len s" and s: "length (args s) \<le> argCap s" and m: "machine_ok m"
  shows "\<exists>s'. tokenize m (length p) s = tokenize m (length p + n + length v) s' \<and> lexed [Op v] s s'"
proof -
  obtain x v' where x: "v = x # v'" "isSpecialChar x" using v by (cases v) auto
  have "x \<noteq> SPC" using x(2) by auto
  then have blanks: "skip_blanks (buf s) (len s) (length p) = Some (length p + n)"
    by (intro skip_blanks_spaces[where c = x and r = "v' @ c # r"]) (use b x l in auto)
  have special: "skip_special (buf s) (length (p @ replicate n SPC)) = Some (length (p @ replicate n SPC) + length v)"
    by (rule skip_special_run[where c = c]) (use b v in auto)
  have e: "escape Single v = v" using v(1) by (simp add: escape_operator)
  let ?s = "s\<lparr>endPos := length p + n + length v, trimParen := junk m (length (args s))\<rparr>"
  have m': "0 < pad m k" "\<not> junk m k" for k using m by (simp_all add: machine_ok_def)
  have "\<exists>s' a. add_to_arg_list m (length p + n) ?s = Some s' \<and> buf s' = buf ?s \<and> len s' = len ?s \<and>
      inp s' = inp ?s \<and> endPos s' = endPos ?s \<and> trimParen s' = trimParen ?s \<and>
      args s' = args ?s @ [a] \<and> length (args s') \<le> argCap s' \<and> holds (Op v) a"
    by (rule add_arg_escaped[where p = "p @ replicate n SPC" and v = "[]" and w = v and q = Single and r = "c # r"])
      (simp_all add: b s m' e)
  then obtain s' a where s': "add_to_arg_list m (length p + n) ?s = Some s'"
      "buf s' = buf s" "len s' = len s" "inp s' = inp s" "endPos s' = length p + n + length v"
      "\<not> trimParen s'" "args s' = args s @ [a]" "length (args s') \<le> argCap s'" "holds (Op v) a"
    using m' by auto
  have "buf s ! (length p + n) = x" "length p + n < length (buf s)" using b x by (simp_all add: nth_append)
  moreover have "x \<noteq> NL" using x(2) by auto
  ultimately have "tokenize m (length p) s = tokenize m (length p + n + length v) s'"
    using x l s' blanks special by (subst tokenize.simps) (simp add: next_start_def)
  moreover have "lexed [Op v] s s'" using s' by (simp add: lexed_def)
  ultimately show ?thesis by blast
qed


text \<open>Where a word may stand: after a blank or an operator if it is quoted, and before a delimiter if it is bare.\<close>

definition stands :: "quoting \<Rightarrow> string \<Rightarrow> char \<Rightarrow> bool" where
  "stands q p c \<longleftrightarrow> (if q = Bare then c = SPC \<or> c = NL \<or> isSpecialChar c else p \<noteq> [] \<and> last p \<noteq> BSL)"

lemma scan_word:
  assumes "buf s = p @ write_token (W q w) @ c # r" "endPos s = length p" "in_mode Bare s" "\<not> trimParen s"
    "token_ok (W q w)" "length p + length (write_token (W q w)) < len s" "stands q p c"
  shows "\<exists>s'. scan (length p) s = Some (Ret s') \<and> same_line s s' \<and> in_mode Bare s' \<and> trimParen s' = (q \<noteq> Bare) \<and>
    endPos s' = length p + length (mark q) + length (escape q w)"
proof (cases "q = Bare")
  case True
  then show ?thesis using scan_bare[of s p w c r "length p"] assms by (auto simp: mark_def stands_def)
next
  case False
  then have "length (mark q) = 1" by (cases q) (auto simp: mark_def)
  then show ?thesis using scan_quoted[of s p q w "c # r" "length p"] assms False by (auto simp: stands_def)
qed

lemma write_word_hd:
  assumes "token_ok (W q w)"
  obtains x v where "write_token (W q w) = x # v" "x \<noteq> SPC" "x \<noteq> NL" "\<not> isSpecialChar x"
proof (cases "q = Bare")
  case True
  from assms obtain y u where y: "w = y # u" by (cases w) auto
  have nl: "\<not> needs_escape q y \<longrightarrow> y \<noteq> SPC" using True by (auto simp: needs_escape_def)
  show ?thesis
    by (rule that[of "if needs_escape q y then BSL else y" "(if needs_escape q y then [y] else []) @ escape q u"])
      (use assms y True nl in \<open>auto simp: mark_def\<close>)
next
  case False
  then show ?thesis
    using that[of DQ "escape q w @ mark q"] that[of SQ "escape q w @ mark q"] by (cases q) (auto simp: mark_def)
qed

lemma tokenize_word:
  assumes b: "buf s = p @ replicate n SPC @ write_token (W q w) @ c # r" and w: "token_ok (W q w)"
    and l: "length p + n + length (write_token (W q w)) < len s" and s: "length (args s) \<le> argCap s"
    and m: "machine_ok m" and c: "stands q (p @ replicate n SPC) c"
  shows "\<exists>s'. tokenize m (length p) s = tokenize m (length p + n + length (write_token (W q w))) s' \<and> lexed [W q w] s s'"
proof -
  obtain x v where x: "write_token (W q w) = x # v" "x \<noteq> SPC" "x \<noteq> NL" "\<not> isSpecialChar x"
    using write_word_hd[OF w] .
  let ?p = "p @ replicate n SPC"
  have blanks: "skip_blanks (buf s) (len s) (length p) = Some (length p + n)"
    by (rule skip_blanks_spaces[where c = x and r = "v @ c # r"]) (use b x l in auto)
  let ?s = "s\<lparr>endPos := length p + n, singleParOpened := False, doubleParOpened := False, trimParen := False\<rparr>"
  have "\<exists>s1. scan (length ?p) ?s = Some (Ret s1) \<and> same_line ?s s1 \<and> in_mode Bare s1 \<and> trimParen s1 = (q \<noteq> Bare) \<and>
      endPos s1 = length ?p + length (mark q) + length (escape q w)"
    by (rule scan_word[where c = c and r = r]) (use b w l c in \<open>simp_all add: in_mode_def\<close>)
  then obtain s1 where s1: "scan (length p + n) ?s = Some (Ret s1)" "same_line s s1" "in_mode Bare s1"
    "trimParen s1 = (q \<noteq> Bare)" "endPos s1 = length ?p + length (mark q) + length (escape q w)"
    by (auto simp: same_line_def)
  have mark: "length (mark q) = (if trimParen s1 then 1 else 0)" unfolding s1(4) by (cases q) (auto simp: mark_def)
  have "\<exists>s' a. add_to_arg_list m (length p + n) s1 = Some s' \<and> buf s' = buf s1 \<and> len s' = len s1 \<and>
      inp s' = inp s1 \<and> endPos s' = endPos s1 \<and> trimParen s' = trimParen s1 \<and>
      args s' = args s1 @ [a] \<and> length (args s') \<le> argCap s' \<and> holds (W q w) a"
    by (rule add_arg_escaped[where p = ?p and v = "mark q" and w = w and q = q and r = "mark q @ c # r"])
      (use b s1 s m mark in \<open>simp_all add: same_line_def machine_ok_def\<close>)
  then obtain s' a where s': "add_to_arg_list m (length p + n) s1 = Some s'"
      "buf s' = buf s" "len s' = len s" "inp s' = inp s" "endPos s' = endPos s1"
      "trimParen s' = trimParen s1" "args s' = args s @ [a]" "length (args s') \<le> argCap s'" "holds (W q w) a"
    using s1(2) by (auto simp: same_line_def)
  have "next_start s' = length p + n + length (write_token (W q w))"
    using s' s1 mark by (simp add: next_start_def)
  moreover have "buf s = ?p @ x # v @ c # r" unfolding b x(1) by simp
  then have "buf s ! (length p + n) = x" "length p + n < length (buf s)" by (simp_all add: nth_append)
  moreover have "\<not> len s \<le> length p + n" "length p < len s" using l x(1) by simp_all
  moreover have "\<not> doubleParOpened s1" "\<not> singleParOpened s1" using s1(3) by (simp_all add: in_mode_def)
  ultimately have "tokenize m (length p) s = tokenize m (length p + n + length (write_token (W q w))) s'"
    using x(2-4) s' s1(1) blanks by (subst tokenize.simps) simp
  moreover have "lexed [W q w] s s'" using s' by (simp add: lexed_def)
  ultimately show ?thesis by blast
qed


subsection \<open>The whole line\<close>

text \<open>What stands before the next token.\<close>

definition ends_in :: "token option \<Rightarrow> string \<Rightarrow> bool" where
  "ends_in t p \<longleftrightarrow> (case t of
     None \<Rightarrow> p = []
   | Some (W _ _) \<Rightarrow> p \<noteq> []
   | Some (Op _) \<Rightarrow> p \<noteq> [] \<and> isSpecialChar (last p))"

lemma write_line_Cons: "write_line ((n, t) # l) = replicate n SPC @ write_token t @ write_line l"
  by (simp add: write_line_def)

lemma ends_in_token: "token_ok t \<Longrightarrow> ends_in (Some t) (p @ write_token t)"
  by (cases t) (auto simp: ends_in_def)

text \<open>The character after a token.\<close>

lemma follows:
  assumes "spaced (Some t) l" "token_ok t" "e = SPC \<or> e = NL"
  obtains c r where "write_line l @ e # z = c # r"
    "case t of W q w \<Rightarrow> c = SPC \<or> c = NL \<or> isSpecialChar c | Op v \<Rightarrow> \<not> isSpecialChar c"
proof (cases l)
  case Nil
  then show ?thesis using assms(3) by (intro that[of e z]) (auto simp: write_line_def split: token.splits)
next
  case (Cons nu k)
  obtain n u where nu: "nu = (n, u)" by (cases nu)
  show ?thesis
  proof (cases n)
    case (Suc j)
    then show ?thesis
      by (intro that[of SPC]) (auto simp: Cons nu write_line_Cons split: token.splits)
  next
    case 0
    with assms(1) Cons nu have u: "token_ok u" "gap (Some t) u = 0" by simp_all
    show ?thesis
    proof (cases u)
      case (W q w)
      with u obtain x v where "write_token u = x # v" "\<not> isSpecialChar x" using write_word_hd[of q w] by blast
      then show ?thesis using u W
        by (intro that[of x "v @ write_line k @ e # z"]) (auto simp: Cons nu 0 write_line_Cons split: token.splits)
    next
      case (Op v)
      with u obtain x v' where "v = x # v'" "isSpecialChar x" by (cases v) auto
      then show ?thesis using u Op
        by (intro that[of x "v' @ write_line k @ e # z"]) (cases t; auto simp: Cons nu 0 write_line_Cons)+
    qed
  qed
qed

lemma tokenize_tokens:
  assumes "buf s = p @ write_line l @ c # z" "c = SPC \<or> c = NL" "spaced t l" "ends_in t p"
    "length p + length (write_line l) < len s" "length (args s) \<le> argCap s" "machine_ok m"
  shows "\<exists>s'. tokenize m (length p) s = tokenize m (length p + length (write_line l)) s' \<and> lexed (map snd l) s s'"
  using assms
proof (induction l arbitrary: t p s)
  case Nil
  then show ?case by (intro exI[of _ s]) (simp add: lexed_def write_line_def)
next
  case (Cons nu l)
  obtain n u where nu: "nu = (n, u)" by (cases nu)
  let ?w = "write_token u"
  let ?q = "p @ replicate n SPC @ ?w"
  from Cons.prems(3) nu have u: "token_ok u" "spaced (Some u) l" "gap t u \<le> n" by simp_all
  obtain d r where d: "write_line l @ c # z = d # r"
    "case u of W q w \<Rightarrow> d = SPC \<or> d = NL \<or> isSpecialChar d | Op v \<Rightarrow> \<not> isSpecialChar d"
    using follows[OF u(2,1) Cons.prems(2)] .
  have b: "buf s = p @ replicate n SPC @ ?w @ d # r"
    using Cons.prems(1) d(1) nu by (simp add: write_line_Cons del: write_token.simps)
  have n: "length p + n + length ?w < len s"
    using Cons.prems(5) nu by (simp add: write_line_Cons del: write_token.simps)
  have "\<exists>s'. tokenize m (length p) s = tokenize m (length p + n + length ?w) s' \<and> lexed [u] s s'"
  proof (cases u)
    case (W q w)
    have "stands q (p @ replicate n SPC) d"
      using d(2) u(3) Cons.prems(4) W
      by (cases t; cases "the t"; cases n) (auto simp: stands_def ends_in_def split: if_splits)
    then show ?thesis unfolding W
      by (intro tokenize_word) (use b n u Cons.prems W in auto)
  next
    case (Op v)
    then show ?thesis using b n u d Cons.prems tokenize_operator[of s p n v d r m] by auto
  qed
  then obtain s1 where s1: "tokenize m (length p) s = tokenize m (length ?q) s1" "lexed [u] s s1"
    by (auto simp: add.assoc)
  have "\<exists>s'. tokenize m (length ?q) s1 = tokenize m (length ?q + length (write_line l)) s' \<and> lexed (map snd l) s1 s'"
  proof (rule Cons.IH)
    show "spaced (Some u) l" by (rule u)
    show "ends_in (Some u) ?q" using ends_in_token[OF u(1), of "p @ replicate n SPC"] by simp
  qed (use s1(2) Cons.prems nu in \<open>simp_all add: lexed_def write_line_Cons\<close>)
  then obtain s2 where s2: "tokenize m (length ?q) s1 = tokenize m (length ?q + length (write_line l)) s2"
    "lexed (map snd l) s1 s2" by blast
  have "length p + length (write_line (nu # l)) = length ?q + length (write_line l)"
    by (simp add: nu write_line_Cons)
  with lexed_trans[OF s1(2) s2(2)] s1(1) s2(1) nu show ?case by (metis append_Cons append_Nil list.simps(9) snd_conv)
qed

lemma tokenize_end:
  assumes "buf s = p @ NL # z" "len s = length p + 1"
  shows "tokenize m (length p) s = Some (Ret s)"
proof (cases "p = []")
  case True
  have 1: "skip_blanks (buf s) (len s) 0 = skip_blanks (buf s) (len s) 1"
    using assms True by (subst skip_blanks.simps) simp
  have 2: "skip_blanks (buf s) (len s) 1 = Some 1"
    using assms True by (subst skip_blanks.simps) simp
  show ?thesis using assms True 1 2 by (subst tokenize.simps) simp
next
  case False
  then have "skip_blanks (buf s) (len s) (length p) = Some (length p + 0)"
    using assms by (intro skip_blanks_spaces[where c = NL and r = z]) auto
  then show ?thesis using assms by (subst tokenize.simps) (simp add: nth_append)
qed

lemma tokenize_line:
  assumes "buf s = write_line l @ NL # z" "spaced None l"
    "len s = length (write_line l) + 1" "length (args s) \<le> argCap s" "machine_ok m"
  shows "\<exists>s'. tokenize m 0 s = Some (Ret s') \<and> lexed (map snd l) s s'"
proof -
  have "\<exists>s'. tokenize m (length ([] :: string)) s = tokenize m (length ([] :: string) + length (write_line l)) s' \<and>
      lexed (map snd l) s s'"
    by (rule tokenize_tokens[where t = None and c = NL and z = z]) (use assms in \<open>simp_all add: ends_in_def\<close>)
  then obtain s' where s': "tokenize m 0 s = tokenize m (length (write_line l)) s'" "lexed (map snd l) s s'" by auto
  moreover have "tokenize m (length (write_line l)) s' = Some (Ret s')"
    by (rule tokenize_end[where z = z]) (use s'(2) assms in \<open>simp_all add: lexed_def\<close>)
  ultimately show ?thesis by auto
qed

lemma getline_line: "NL \<notin> set l \<Longrightarrow> getline (l @ NL # r) = Some (l @ [NL], r)"
proof -
  assume "NL \<notin> set l"
  then have "takeWhile (\<lambda>c. c \<noteq> NL) (l @ NL # r) = l" by (induction l) auto
  then show ?thesis by (simp add: getline_def)
qed

lemma token_no_NL: "token_ok t \<Longrightarrow> NL \<notin> set (write_token t)"
  by (cases t) (auto simp: escape_def mark_def split: quoting.splits if_splits)

lemma line_no_NL: "spaced t l \<Longrightarrow> NL \<notin> set (write_line l)"
  by (induction t l rule: spaced.induct) (simp_all add: write_line_Cons token_no_NL, simp add: write_line_def)

theorem read_args_line:
  assumes "spaced None l" "machine_ok m"
  shows "\<exists>s. read_args m (write_line l @ NL # rest) = Some (Ret s) \<and> inp s = rest \<and> list_all2 holds (map snd l) (args s)"
proof -
  have "\<exists>s'. tokenize m 0 (lexer_init (write_line l @ [NL]) rest) = Some (Ret s') \<and>
      lexed (map snd l) (lexer_init (write_line l @ [NL]) rest) s'"
    by (rule tokenize_line[where z = "[NUL]"]) (use assms in \<open>simp_all add: lexer_init_def\<close>)
  then show ?thesis
    using getline_line[OF line_no_NL[OF assms(1)]] by (auto simp: read_args_def lexed_def lexer_init_def)
qed

end
