(* ===== verification/Sh_Build.thy ===== *)
theory Sh_Build imports Sh_Line begin

text \<open>
  The commands that a line means, and that \<open>parser()\<close> gives exactly these as long as there are at most ten of them
  with at most eight arguments each; for a longer line it has no defined result.
\<close>

subsection \<open>The meaning of a line\<close>

definition operator_meaning :: "string \<Rightarrow> CommandType" where
  "operator_meaning v =
    (if take 2 v = ''&&'' then COMMAND_TYPE_OPERATOR_AND
     else if take 2 v = ''||'' then COMMAND_TYPE_OPERATOR_OR
     else if take 2 v = ''>>'' then COMMAND_TYPE_OPERATOR_APPEND
     else if hd v = CHR ''|'' then COMMAND_TYPE_OPERATOR_PIPE
     else if hd v = CHR ''>'' then COMMAND_TYPE_OPERATOR_WRITE
     else COMMAND_TYPE_UNKNOWN)"

fun is_word :: "token \<Rightarrow> bool" where
  "is_word (W q w) = True"
| "is_word (Op v) = False"

definition regular_type :: "string \<Rightarrow> CommandType" where
  "regular_type w = (if hd w = CHR ''#'' then COMMAND_TYPE_COMMENT else COMMAND_TYPE_REGULAR)"

function meaning :: "token list \<Rightarrow> (CommandType \<times> string list) list" where
  "meaning [] = []"
| "meaning (Op v # ts) = (operator_meaning v, []) # meaning ts"
| "meaning (W q w # ts) =
     (regular_type w, w # map text_of (takeWhile is_word ts)) # meaning (dropWhile is_word ts)"
  by pat_completeness auto
termination by (relation "measure length") (auto simp: length_dropWhile_le le_imp_less_Suc)

definition fits :: "(CommandType \<times> string list) list \<Rightarrow> bool" where
  "fits cs \<longleftrightarrow> length cs \<le> 10 \<and> (\<forall>(t, ws) \<in> set cs. length ws \<le> 8)"

subsection \<open>The shapes of the arrays\<close>

definition word_command :: "CommandType \<times> string list \<Rightarrow> Command" where
  "word_command c = (case c of (t, ws) \<Rightarrow>
     \<lparr>ctype = t, argc = length ws, argCapacity = 8, name = (if ws = [] then None else Some (hd ws)),
      argv = Some (map Some ws @ replicate (8 - length ws) None)\<rparr>)"

definition command_array :: "Command list \<Rightarrow> CommandArray" where
  "command_array ds = \<lparr>tokens = ds @ replicate ((if length ds \<le> 8 then 8 else 10) - length ds) zero_command,
     ca_size = length ds, ca_capacity = 8\<rparr>"

lemma initArray_eq: "initArray = command_array []"
  by (simp add: initArray_def command_array_def INITIAL_SEQUENCE_SIZE_def)

lemma replicate_unfold: "0 < n \<Longrightarrow> replicate n x = x # replicate (n - 1) x"
  by (cases n) auto

lemma allocateCommand_array:
  assumes "length ds \<le> 10"
  shows "allocateCommand (command_array ds) =
    (if length ds < 10
     then Some (length ds, command_array (ds @ [word_command (COMMAND_TYPE_REGULAR, [])])) else None)"
proof -
  consider "length ds < 8" | "length ds = 8" | "length ds = 9" | "length ds = 10" using assms by linarith
  then show ?thesis
  proof cases
    case 1
    then show ?thesis
      by (simp add: allocateCommand_def command_array_def INITIAL_SEQUENCE_SIZE_def replicate_unfold[of "8 - length ds"]
          nth_append list_update_append zero_command_def word_command_def)
  next
    case 2
    have "replicate 2 x = [x, x]" for x :: Command by (simp add: numeral_2_eq_2)
    then show ?thesis using 2
      by (simp add: allocateCommand_def command_array_def INITIAL_SEQUENCE_SIZE_def extendCommandArray_def blit_def
          EXTENSION_SIZE_def nth_append list_update_append zero_command_def word_command_def)
  next
    case 3
    then show ?thesis
      by (simp add: allocateCommand_def command_array_def INITIAL_SEQUENCE_SIZE_def
          nth_append list_update_append zero_command_def word_command_def)
  next
    case 4
    then show ?thesis by (simp add: allocateCommand_def command_array_def slot_def)
  qed
qed

lemma set_last_command:
  "(command_array (ds @ [c]))\<lparr>tokens := (tokens (command_array (ds @ [c])))[length ds := c']\<rparr> = command_array (ds @ [c'])"
  "tokens (command_array (ds @ [c])) ! length ds = c"
  by (simp_all add: command_array_def nth_append list_update_append)

lemma addArg_word:
  assumes "length ws \<le> 8"
  shows "addArg (word_command (t, ws)) w =
    (if length ws < 8 then Some (word_command (t, ws @ [w])) else None)"
proof (cases "length ws < 8")
  case True
  then show ?thesis
    by (auto simp: addArg_def word_command_def Let_def list_update_append replicate_unfold[of "8 - length ws"] hd_append
        split: nat.splits)
next
  case False
  then show ?thesis using assms by (simp add: addArg_def word_command_def extendArgv_def)
qed

lemma first_char_word: "ws \<noteq> [] \<Longrightarrow> hd ws \<noteq> [] \<Longrightarrow> length ws \<le> 8 \<Longrightarrow>
    first_char (word_command (t, ws)) = Some (hd (hd ws))"
  by (cases ws; cases "hd ws") (auto simp: first_char_def word_command_def)

subsection \<open>Blocks that hold tokens\<close>

lemma holds_first: "holds t b \<Longrightarrow> token_ok t \<Longrightarrow> slot b 0 = Some (hd (text_of t))"
  by (cases "text_of t"; cases t) (auto simp: holds_def)

lemma holds_special: "holds t b \<Longrightarrow> token_ok t \<Longrightarrow> isSpecialToken b = Some (\<not> is_word t)"
  using holds_first[of t b] by (cases t) (auto simp: isSpecialToken_def)

lemma holds_string:
  assumes "holds t b" "NUL \<notin> set (text_of t)"
  shows "c_str b = Some (text_of t)"
proof -
  from assms(1) obtain k where b: "b = text_of t @ replicate (Suc k) NUL" by (auto simp: holds_def)
  have "takeWhile (\<lambda>c. c \<noteq> NUL) (text_of t) = text_of t" using assms(2) by (auto simp: takeWhile_eq_all_conv)
  then show ?thesis using assms(2) unfolding b by (auto simp: c_str_def takeWhile_append)
qed

lemma holds_operator:
  assumes "holds (Op v) b" "token_ok (Op v)"
  shows "operator_type b = Some (operator_meaning v)"
proof -
  from assms(2) obtain x u where v: "v = x # u" "isSpecialChar x" by (cases v) auto
  from assms(1) obtain k where b: "b = v @ NUL # replicate k NUL" by (auto simp: holds_def)
  have x: "x = CHR ''|'' \<or> x = CHR ''&'' \<or> x = CHR ''>''" using v(2) unfolding isSpecialChar_def .
  show ?thesis
  proof (cases u)
    case Nil
    have "slot b 0 = Some x" "slot b 1 = Some NUL" using b v(1) Nil by simp_all
    with x show ?thesis
      by (elim disjE) (simp_all add: operator_type_def operator_meaning_def v(1) Nil)
  next
    case (Cons y w)
    have "slot b 0 = Some x" "slot b 1 = Some y" using b v(1) Cons by simp_all
    with x show ?thesis
      by (elim disjE) (simp_all add: operator_type_def operator_meaning_def v(1) Cons)
  qed
qed

subsection \<open>The loops\<close>

lemma words_no_NUL: "token_ok t \<Longrightarrow> is_word t \<Longrightarrow> NUL \<notin> set (text_of t) \<and> text_of t \<noteq> []"
  by (cases t) auto

lemma add_args_words:
  assumes "list_all2 holds ts (drop i l)" "i \<le> length l" "\<forall>t \<in> set ts. token_ok t" "length ws \<le> 8"
  shows "add_args l i (word_command (c, ws)) =
    (let us = map text_of (takeWhile is_word ts); n = i + length us in
     if length ws + length us \<le> 8
     then Some (if n < length l then n - 1 else n, word_command (c, ws @ us)) else None)"
  using assms
proof (induction ts arbitrary: i ws)
  case Nil
  then show ?case by (simp add: add_args.simps[of l i])
next
  case (Cons t ts)
  then obtain b bs where b: "drop i l = b # bs" "holds t b" "list_all2 holds ts bs" by (auto simp: list_all2_Cons1)
  note i = drop_eq_Cons[OF b(1)]
  have t: "token_ok t" using Cons.prems by simp
  show ?case
  proof (cases "is_word t")
    case False
    then show ?thesis
      using i holds_special[OF b(2) t] Cons.prems(4) by (simp add: add_args.simps[of l i])
  next
    case True
    have step: "add_args l i (word_command (c, ws)) =
        (if length ws < 8 then add_args l (Suc i) (word_command (c, ws @ [text_of t])) else None)"
      using i holds_special[OF b(2) t] True words_no_NUL[OF t True] holds_string[OF b(2)] addArg_word[OF Cons.prems(4)]
      by (simp add: add_args.simps[of l i])
    show ?thesis
    proof (cases "length ws < 8")
      case False
      then show ?thesis using step True by simp
    next
      case len: True
      have "add_args l (Suc i) (word_command (c, ws @ [text_of t])) =
        (let us = map text_of (takeWhile is_word ts); n = Suc i + length us in
         if length (ws @ [text_of t]) + length us \<le> 8
         then Some (if n < length l then n - 1 else n, word_command (c, (ws @ [text_of t]) @ us)) else None)"
        by (rule Cons.IH) (use i b Cons.prems len in auto)
      then show ?thesis using step len True by (simp add: Let_def)
    qed
  qed
qed

lemma list_all2_dropWhile:
  "list_all2 P xs ys \<Longrightarrow> list_all2 P (dropWhile Q xs) (drop (length (takeWhile Q xs)) ys)"
  by (simp add: dropWhile_eq_drop list_all2_dropI)

lemma build_commands_meaning:
  assumes "list_all2 holds ts (drop i l)" "\<forall>t \<in> set ts. token_ok t" "length ds \<le> 10"
  shows "build_commands l i (command_array ds) =
    (if length ds + length (meaning ts) \<le> 10 \<and> (\<forall>(t, ws) \<in> set (meaning ts). length ws \<le> 8)
     then Some (command_array (ds @ map word_command (meaning ts))) else None)"
  using assms
proof (induction ts arbitrary: i ds rule: meaning.induct)
  case 1
  then show ?case by (simp add: build_commands.simps[of l i])
next
  case (2 v ts)
  then obtain b bs where b: "drop i l = b # bs" "holds (Op v) b" "list_all2 holds ts bs" by (auto simp: list_all2_Cons1)
  note i = drop_eq_Cons[OF b(1)]
  have v: "token_ok (Op v)" using "2.prems" by simp
  let ?c = "word_command (operator_meaning v, [])"
  have "build_operator l i (command_array ds) = (if length ds < 10 then Some (command_array (ds @ [?c])) else None)"
    using i holds_operator[OF b(2) v] allocateCommand_array[OF "2.prems"(3)]
    by (simp add: build_operator_def set_last_command) (simp add: word_command_def)
  then have step: "build_commands l i (command_array ds) =
      (if length ds < 10 then build_commands l (Suc i) (command_array (ds @ [?c])) else None)"
    using i holds_special[OF b(2) v] by (simp add: build_commands.simps[of l i])
  show ?case
  proof (cases "length ds < 10")
    case True
    then have "build_commands l (Suc i) (command_array (ds @ [?c])) =
      (if length (ds @ [?c]) + length (meaning ts) \<le> 10 \<and> (\<forall>(t, ws) \<in> set (meaning ts). length ws \<le> 8)
       then Some (command_array ((ds @ [?c]) @ map word_command (meaning ts))) else None)"
      using i b "2.prems" by (intro "2.IH") auto
    then show ?thesis using step True by simp
  qed (use step in simp)
next
  case (3 q w ts)
  let ?us = "map text_of (takeWhile is_word ts)"
  from 3 obtain b bs where b: "drop i l = b # bs" "holds (W q w) b" "list_all2 holds ts bs" by (auto simp: list_all2_Cons1)
  note i = drop_eq_Cons[OF b(1)]
  have w: "token_ok (W q w)" using "3.prems" by simp
  let ?n = "Suc i + length ?us"
  let ?j = "if ?n < length l then ?n - 1 else ?n"
  let ?c = "word_command (regular_type w, w # ?us)"
  have args: "add_args l i (word_command (COMMAND_TYPE_REGULAR, [])) =
      (if Suc (length ?us) \<le> 8 then Some (?j, word_command (COMMAND_TYPE_REGULAR, w # ?us)) else None)"
    using add_args_words[OF "3.prems"(1) _ "3.prems"(2), where ws = "[]" and c = COMMAND_TYPE_REGULAR] i
    by (simp add: Let_def)
  have reg: "build_regular l i (command_array ds) =
      (if length ds < 10 \<and> Suc (length ?us) \<le> 8 then Some (?j, command_array (ds @ [?c])) else None)"
    using w args allocateCommand_array[OF "3.prems"(3)] first_char_word[of "w # ?us" COMMAND_TYPE_REGULAR]
    by (simp add: build_regular_def set_last_command) (auto simp: word_command_def regular_type_def)
  have onward: "build_commands l (Suc n) ca = build_commands l n ca" if "\<not> n < length l" for n ca
    using that build_commands.simps[of l n ca] build_commands.simps[of l "Suc n" ca] by simp
  have step: "build_commands l i (command_array ds) =
      (if length ds < 10 \<and> Suc (length ?us) \<le> 8 then build_commands l ?n (command_array (ds @ [?c])) else None)"
    using i holds_special[OF b(2) w] reg by (simp add: build_commands.simps[of l i] onward)
  show ?case
  proof (cases "length ds < 10 \<and> Suc (length ?us) \<le> 8")
    case True
    have "list_all2 holds (dropWhile is_word ts) (drop ?n l)"
      using list_all2_dropWhile[OF b(3), of is_word] i(3)[symmetric] by (simp add: add.commute)
    then have "build_commands l ?n (command_array (ds @ [?c])) =
      (if length (ds @ [?c]) + length (meaning (dropWhile is_word ts)) \<le> 10 \<and>
          (\<forall>(t, ws) \<in> set (meaning (dropWhile is_word ts)). length ws \<le> 8)
       then Some (command_array ((ds @ [?c]) @ map word_command (meaning (dropWhile is_word ts)))) else None)"
      using True "3.prems"(2) by (intro "3.IH") (auto dest: set_dropWhileD)
    then show ?thesis using step True by simp
  qed (use step in auto)
qed

subsection \<open>The parser\<close>

lemma spaced_ok: "spaced t l \<Longrightarrow> \<forall>u \<in> set (map snd l). token_ok u"
  by (induction t l rule: spaced.induct) auto

theorem parser_line:
  assumes "spaced None l" "machine_ok m"
  shows "parser m (write_line l @ NL # rest) =
    (if fits (meaning (map snd l))
     then Some (Ret (command_array (map word_command (meaning (map snd l))), rest)) else None)"
proof -
  obtain s where s: "read_args m (write_line l @ NL # rest) = Some (Ret s)" "inp s = rest"
    "list_all2 holds (map snd l) (args s)"
    using read_args_line[OF assms] by blast
  show ?thesis
    using s build_commands_meaning[of "map snd l" 0 "args s" "[]"] spaced_ok[OF assms(1)]
    by (auto simp: parser_def initArray_eq fits_def)
qed

lemma commands_array: "commands (command_array (map word_command cs)) = map (\<lambda>(t, ws). (t, map Some ws)) cs"
  by (auto simp: commands_def command_array_def command_view_def word_command_def)


subsection \<open>Whatever the input\<close>

text \<open>
  What every result of \<open>parser()\<close> looks like: operators without words, and commands of one to eight words, none
  of them empty.
\<close>

definition shaped :: "CommandType \<times> string list \<Rightarrow> bool" where
  "shaped c \<longleftrightarrow> (case c of (t, ws) \<Rightarrow> length ws \<le> 8 \<and> (\<forall>w \<in> set ws. w \<noteq> [] \<and> NUL \<notin> set w) \<and>
     (if ws = [] then t \<noteq> COMMAND_TYPE_REGULAR \<and> t \<noteq> COMMAND_TYPE_COMMENT else t = regular_type (hd ws)))"

lemma c_str_no_NUL: "c_str b = Some t \<Longrightarrow> NUL \<notin> set t"
  by (auto simp: c_str_def dest: set_takeWhileD split: if_splits)

lemma add_args_shape:
  assumes "add_args l i (word_command (t, ws)) = Some (j, cmd)" "length ws \<le> 8" "\<forall>w \<in> set ws. w \<noteq> [] \<and> NUL \<notin> set w"
  shows "\<exists>vs. cmd = word_command (t, vs) \<and> length vs \<le> 8 \<and> (\<forall>w \<in> set vs. w \<noteq> [] \<and> NUL \<notin> set w)"
  using assms
proof (induction "length l - i" arbitrary: i ws)
  case 0
  then show ?case by (intro exI[of _ ws]) (simp add: add_args.simps[of l i])
next
  case (Suc n)
  have i: "i < length l" using Suc.hyps(2) by simp
  show ?case
  proof (cases "isSpecialToken (l ! i)")
    case (Some sp)
    show ?thesis
    proof (cases sp)
      case True
      then show ?thesis using Suc.prems i Some
        by (intro exI[of _ ws]) (simp add: add_args.simps[of l i])
    next
      case False
      then obtain x where x: "c_str (l ! i) = Some x"
        using Suc.prems(1) i Some by (auto simp: add_args.simps[of l i] split: Option.bind_splits)
      have n: "n = length l - Suc i" using Suc.hyps(2) by simp
      show ?thesis
      proof (cases "x = []")
        case True
        then have "add_args l (Suc i) (word_command (t, ws)) = Some (j, cmd)"
          using Suc.prems(1) i Some False x by (simp add: add_args.simps[of l i])
        then show ?thesis by (rule Suc.hyps(1)[OF n _ Suc.prems(2,3)])
      next
        case x': False
        then have s: "length ws < 8" "add_args l (Suc i) (word_command (t, ws @ [x])) = Some (j, cmd)"
          using Suc.prems(1) i Some False x addArg_word[OF Suc.prems(2), of t x]
          by (auto simp: add_args.simps[of l i] split: if_splits)
        have "length (ws @ [x]) \<le> 8" "\<forall>w \<in> set (ws @ [x]). w \<noteq> [] \<and> NUL \<notin> set w"
          using s(1) Suc.prems(3) c_str_no_NUL[OF x] x' by auto
        then show ?thesis by (rule Suc.hyps(1)[OF n s(2)])
      qed
    qed
  qed (use Suc.prems i in \<open>simp add: add_args.simps[of l i]\<close>)
qed

lemma operator_type_shape: "operator_type b = Some t \<Longrightarrow> t \<noteq> COMMAND_TYPE_REGULAR \<and> t \<noteq> COMMAND_TYPE_COMMENT"
proof -
  assume t: "operator_type b = Some t"
  then obtain c where c: "slot b 0 = Some c" by (cases "slot b 0") (simp_all add: operator_type_def)
  show ?thesis
  proof (cases "slot b 1")
    case None
    with t c show ?thesis by (simp add: operator_type_def split: if_splits)
  next
    case (Some d)
    with t c show ?thesis unfolding operator_type_def by (simp split: if_splits)
  qed
qed

lemma build_operator_shape:
  assumes "build_operator l i (command_array (map word_command cs)) = Some ca" "length cs \<le> 10"
  shows "\<exists>c. ca = command_array (map word_command (cs @ [c])) \<and> shaped c \<and> length cs < 10"
proof -
  obtain t where t: "operator_type (l ! i) = Some t" using assms(1) by (auto simp: build_operator_def split: Option.bind_splits)
  have "length cs < 10" "ca = command_array (map word_command cs @ [(word_command (COMMAND_TYPE_REGULAR, []))\<lparr>ctype := t\<rparr>])"
    using assms t allocateCommand_array[of "map word_command cs"] set_last_command[of "map word_command cs"]
    by (auto simp: build_operator_def split: if_splits)
  moreover have "(word_command (COMMAND_TYPE_REGULAR, []))\<lparr>ctype := t\<rparr> = word_command (t, [])" by (simp add: word_command_def)
  ultimately show ?thesis using operator_type_shape[OF t] by (intro exI[of _ "(t, [])"]) (simp add: shaped_def)
qed

lemma build_regular_shape:
  assumes "build_regular l i (command_array (map word_command cs)) = Some (j, ca)" "length cs \<le> 10"
  shows "\<exists>c. ca = command_array (map word_command (cs @ [c])) \<and> shaped c \<and> length cs < 10"
proof -
  let ?ds = "map word_command cs"
  have len: "length cs < 10"
    using assms allocateCommand_array[of ?ds] by (auto simp: build_regular_def split: if_splits)
  then have alloc: "allocateCommand (command_array ?ds) =
      Some (length cs, command_array (?ds @ [word_command (COMMAND_TYPE_REGULAR, [])]))"
    using allocateCommand_array[of ?ds] by simp
  obtain cmd c where cmd: "add_args l i (word_command (COMMAND_TYPE_REGULAR, [])) = Some (j, cmd)" "first_char cmd = Some c"
    "ca = command_array (?ds @ [if c = CHR ''#'' then cmd\<lparr>ctype := COMMAND_TYPE_COMMENT\<rparr> else cmd])"
    using assms(1) set_last_command[of ?ds] by (auto simp: build_regular_def alloc Let_def split: Option.bind_splits)
  from add_args_shape[OF cmd(1)] obtain vs where vs: "cmd = word_command (COMMAND_TYPE_REGULAR, vs)" "length vs \<le> 8"
    "\<forall>w \<in> set vs. w \<noteq> [] \<and> NUL \<notin> set w" by auto
  have ne: "vs \<noteq> []"
  proof
    assume "vs = []"
    then show False using cmd(2) by (simp add: vs(1) first_char_def word_command_def split: Option.bind_splits)
  qed
  then have "c = hd (hd vs)" using cmd(2) vs first_char_word[of vs COMMAND_TYPE_REGULAR] by simp
  then have "(if c = CHR ''#'' then cmd\<lparr>ctype := COMMAND_TYPE_COMMENT\<rparr> else cmd) = word_command (regular_type (hd vs), vs)"
    by (simp add: vs(1) word_command_def regular_type_def)
  with cmd(3) vs ne len show ?thesis by (intro exI[of _ "(regular_type (hd vs), vs)"]) (simp add: shaped_def)
qed

lemma build_commands_shape:
  assumes "build_commands l i (command_array (map word_command cs)) = Some ca" "length cs \<le> 10" "\<forall>c \<in> set cs. shaped c"
  shows "\<exists>cs'. ca = command_array (map word_command cs') \<and> length cs' \<le> 10 \<and> (\<forall>c \<in> set cs'. shaped c)"
  using assms
proof (induction l i "command_array (map word_command cs)" arbitrary: cs rule: build_commands.induct)
  case (1 l i)
  show ?case
  proof (cases "i < length l")
    case True
    then obtain sp where sp: "isSpecialToken (l ! i) = Some sp"
      using "1.prems"(1) by (cases "isSpecialToken (l ! i)") (simp_all add: build_commands.simps[of l i])
    show ?thesis
    proof (cases sp)
      case op: True
      then obtain ca1 where ca1: "build_operator l i (command_array (map word_command cs)) = Some ca1"
        "build_commands l (i + 1) ca1 = Some ca"
        using "1.prems"(1) True sp by (auto simp: build_commands.simps[of l i] split: Option.bind_splits)
      from build_operator_shape[OF ca1(1) "1.prems"(2)] obtain c where
        c: "ca1 = command_array (map word_command (cs @ [c]))" "shaped c" "length cs < 10" by blast
      have "length (cs @ [c]) \<le> 10" "\<forall>c \<in> set (cs @ [c]). shaped c" using c "1.prems"(3) by auto
      then show ?thesis by (rule 1(1)[OF True sp op ca1(1)[unfolded c(1)] ca1(2)[unfolded c(1)]])
    next
      case reg: False
      then obtain j ca1 where ca1: "build_regular l i (command_array (map word_command cs)) = Some (j, ca1)"
        "build_commands l (j + 1) ca1 = Some ca"
        using "1.prems"(1) True sp by (auto simp: build_commands.simps[of l i] split: Option.bind_splits)
      from build_regular_shape[OF ca1(1) "1.prems"(2)] obtain c where
        c: "ca1 = command_array (map word_command (cs @ [c]))" "shaped c" "length cs < 10" by blast
      have "length (cs @ [c]) \<le> 10" "\<forall>c \<in> set (cs @ [c]). shaped c" using c "1.prems"(3) by auto
      then show ?thesis by (rule 1(2)[OF True sp reg ca1(1)[unfolded c(1)] refl ca1(2)[unfolded c(1)]])
    qed
  qed (use 1 in \<open>auto simp: build_commands.simps[of l i]\<close>)
qed

theorem parser_shape:
  assumes "parser m t = Some (Ret (ca, rest))"
  shows "\<exists>cs. ca = command_array (map word_command cs) \<and> length cs \<le> 10 \<and> (\<forall>c \<in> set cs. shaped c)"
proof -
  obtain as where "build_commands as 0 (command_array (map word_command [])) = Some ca"
    using assms by (auto simp: parser_def initArray_eq split: Option.bind_splits outcome.splits)
  from build_commands_shape[OF this] show ?thesis by simp
qed

end
