(* ===== verification/Sh_Run.thy ===== *)
theory Sh_Run imports Sh_Exec Sh_Build begin

text \<open>
  What \<open>execute()\<close> does, without its array of handlers: the processes of the current pipeline are a list, and the
  search in PATH is the first match in a list of names.  The lemmas show that the executor does the same.
\<close>

subsection \<open>The specification\<close>

text \<open>The directories of a PATH; an empty one at the end does not count.\<close>

function directories :: "string \<Rightarrow> string list" where
  "directories p = (if p = [] then [] else
     takeWhile (\<lambda>c. c \<noteq> CHR '':'') p # directories (drop 1 (dropWhile (\<lambda>c. c \<noteq> CHR '':'') p)))"
  by pat_completeness auto
termination
proof (relation "measure length", goal_cases)
  case (2 p)
  then have "0 < length p" by simp
  moreover have "length (dropWhile (\<lambda>c. c \<noteq> CHR '':'') p) \<le> length p" by (rule length_dropWhile_le)
  ultimately show ?case by (simp del: length_greater_0_conv)
qed simp

declare directories.simps [simp del]

definition candidates :: "os \<Rightarrow> string \<Rightarrow> string list" where
  "candidates q nm = map (\<lambda>d. d @ ''/'' @ nm) (directories (the (env_path q)))"

definition locate :: "os \<Rightarrow> action list \<Rightarrow> string \<Rightarrow> string option" where
  "locate q t nm = find (can_exec q t) (candidates q nm)"

type_synonym jobs = "Handler list \<times> action list"

text \<open>
  What a child has to do, for a program that was found or not, with the words \<open>ws\<close>: \<open>fd\<close> becomes its standard
  input, unless it is that already, the end of its pipe for writing becomes its standard output and error, the
  pipe itself is closed, and the program runs with the words and a null pointer behind them.
\<close>

definition child_script :: "int \<Rightarrow> int \<times> int \<Rightarrow> string option \<Rightarrow> string list \<Rightarrow> child_step list" where
  "child_script fd p program ws =
     (if fd = 0 then [] else [Debug fd, Dup2 fd 0]) @
     [ChildClose (fst p), Dup2 (snd p) 1, Dup2 (snd p) 2, ChildClose (snd p)] @
     (case program of
        Some nm \<Rightarrow> [Exec nm (map Some ws @ replicate (8 - length ws) None)]
      | None \<Rightarrow> [Say ''Command not found'']) @ [ExitWith 0]"

definition start_process :: "os \<Rightarrow> string list \<Rightarrow> jobs \<Rightarrow> jobs" where
  "start_process q ws s = (case s of (js, t) \<Rightarrow>
     let p = the (pipe_fds q t);
       t1 = t @ [Pipe p];
       fd = (if js = [] then 0 else fst (outputPipe (last js)));
       h = \<lparr>pid = fork_pid q t1, inputFd = fd, outputPipe = p\<rparr>
     in (js @ [h], t1 @ [Spawn (pid h) (Some (child_script fd p (locate q t (hd ws)) ws)), Close (snd p)]))"

definition stop_actions :: "Handler \<Rightarrow> action list" where
  "stop_actions h = [Kill (pid h), Close (fst (outputPipe h))] @
     (if inputFd h \<noteq> 0 then [Close (inputFd h)] else [])"

definition print_actions :: "sink \<Rightarrow> string list \<Rightarrow> action list" where
  "print_actions f ss = map (\<lambda>s. Print f (takeWhile (\<lambda>c. c \<noteq> NUL) s)) ss"

text \<open>
  The last process of the pipeline is waited for, the others are killed, then the output of the last one is
  copied.
\<close>

definition finish_pipeline :: "os \<Rightarrow> sink \<Rightarrow> jobs \<Rightarrow> int \<times> jobs" where
  "finish_pipeline q f s = (case s of (js, t) \<Rightarrow> if js = [] then (0, s) else
     let h = last js;
       t1 = t @ Wait (pid h) # concat (map stop_actions (rev (butlast js)))
     in (the (exit_status q t (pid h)), [], t1 @ print_actions f (the (read_all q t1 (fst (outputPipe h))))))"

definition redirect :: "os \<Rightarrow> string \<Rightarrow> bool \<Rightarrow> jobs \<Rightarrow> jobs" where
  "redirect q nm app s = (case finish_pipeline q (File nm app) (fst s, snd s @ [Open nm app]) of
     (r, js, t) \<Rightarrow> (js, t @ [CloseFile nm]))"

definition noted :: "string \<Rightarrow> jobs \<Rightarrow> jobs" where
  "noted w s = (fst s, snd s @ [Note w])"

definition is_redirect :: "CommandType \<Rightarrow> bool" where
  "is_redirect t \<longleftrightarrow> t = COMMAND_TYPE_OPERATOR_APPEND \<or> t = COMMAND_TYPE_OPERATOR_WRITE"

fun run_commands :: "os \<Rightarrow> (CommandType \<times> string list) list \<Rightarrow> nat \<Rightarrow> jobs \<Rightarrow> nat \<times> jobs" where
  "run_commands q [] n s = (n, s)"
| "run_commands q ((c, ws) # cs) n s = (
     if c = COMMAND_TYPE_COMMENT then (n, s)
     else if c = COMMAND_TYPE_REGULAR then
       (if hd ws = ''cd''
        then run_commands q cs n (fst s, snd s @ [Chdir (if length ws = 1 then None else Some (ws ! 1))])
        else run_commands q cs (n + 1) (start_process q ws s))
     else if c = COMMAND_TYPE_OPERATOR_AND then
       (case finish_pipeline q Stdout s of (r, s) \<Rightarrow> if r = 0 then run_commands q cs n s else (n, s))
     else if c = COMMAND_TYPE_OPERATOR_OR then
       (case finish_pipeline q Stdout s of (r, s) \<Rightarrow> if r = 0 then (n, s) else run_commands q cs n s)
     else if is_redirect c then
       (case cs of
          [] \<Rightarrow> (n, noted ''No target for write provided'' s)
        | (d, vs) # cs' \<Rightarrow> run_commands q cs' n (redirect q (hd vs) (c = COMMAND_TYPE_OPERATOR_APPEND) s))
     else run_commands q cs n s)"

text \<open>
  What the shell relies on: there is memory, PATH is set, no pipe, read or opening of a file fails, and every wait
  for a process returns.  The words of a program that is started leave room for a null pointer in an
  array of eight, and its name fits into its buffer behind each directory; a redirection has a name as its target.
\<close>

definition os_ok :: "os \<Rightarrow> bool" where
  "os_ok q \<longleftrightarrow> (\<forall>n. memory q n) \<and> env_path q \<noteq> None \<and> (\<forall>t. pipe_fds q t \<noteq> None) \<and>
     (\<forall>t fd. read_all q t fd \<noteq> None) \<and> (\<forall>t nm. can_open q t nm) \<and> (\<forall>t p. exit_status q t p \<noteq> None)"

definition names_fit :: "os \<Rightarrow> string \<Rightarrow> bool" where
  "names_fit q nm \<longleftrightarrow> (\<forall>c \<in> set (candidates q nm). length c < RESOLVED_NAME_MAX_LEN)"

definition words_ok :: "os \<Rightarrow> string list \<Rightarrow> bool" where
  "words_ok q ws \<longleftrightarrow> hd ws \<noteq> ''cd'' \<longrightarrow> length ws \<le> 7 \<and> names_fit q (hd ws)"

definition command_ok :: "os \<Rightarrow> CommandType \<times> string list \<Rightarrow> bool" where
  "command_ok q c \<longleftrightarrow> (case c of (t, ws) \<Rightarrow> length ws \<le> 8 \<and> (t = COMMAND_TYPE_REGULAR \<longrightarrow> ws \<noteq> [] \<and> words_ok q ws))"

fun targets_ok :: "(CommandType \<times> string list) list \<Rightarrow> bool" where
  "targets_ok (c # d # cs) \<longleftrightarrow> (is_redirect (fst c) \<longrightarrow> snd d \<noteq> []) \<and> targets_ok (d # cs)"
| "targets_ok _ \<longleftrightarrow> True"

subsection \<open>The search\<close>

lemma path_end_eq: "path_end path i = i + length (takeWhile (\<lambda>c. c \<noteq> CHR '':'') (drop i path))"
proof (induction path i rule: path_end.induct)
  case (1 path i)
  show ?case
  proof (cases "i < length path")
    case True
    then have "drop i path = path ! i # drop (Suc i) path" by (simp add: Cons_nth_drop_Suc)
    with 1 True show ?thesis by (subst path_end.simps) auto
  qed (simp add: path_end.simps)
qed

lemma resolve_loop_find:
  assumes "\<forall>c \<in> set (map (\<lambda>d. d @ ''/'' @ nm) (directories (drop i path))). length c < RESOLVED_NAME_MAX_LEN"
  shows "resolve_loop q t path nm i = Some (find (can_exec q t) (map (\<lambda>d. d @ ''/'' @ nm) (directories (drop i path))))"
  using assms
proof (induction q t path nm i rule: resolve_loop.induct)
  case (1 q t path nm i)
  let ?P = "\<lambda>c. c \<noteq> CHR '':''"
  show ?case
  proof (cases "i < length path")
    case True
    let ?d = "takeWhile ?P (drop i path)"
    have e: "path_end path i = i + length ?d" by (rule path_end_eq)
    have d: "take (path_end path i - i) (drop i path) = ?d" unfolding e by (metis diff_add_inverse takeWhile_eq_take)
    have dl: "min (length path - i) (path_end path i - i) = length ?d" using arg_cong[OF d, of length] by simp
    have rest: "drop 1 (dropWhile ?P (drop i path)) = drop (path_end path i + 1) path"
      unfolding e by (simp add: dropWhile_eq_drop add.commute)
    have dirs: "directories (drop i path) = ?d # directories (drop (path_end path i + 1) path)"
      using True by (subst directories.simps) (simp only: rest drop_eq_Nil not_le if_False, simp)
    have fit: "length (?d @ ''/'' @ nm) < RESOLVED_NAME_MAX_LEN" using 1(2) dirs by auto
    show ?thesis
    proof (cases "can_exec q t (?d @ ''/'' @ nm) \<or> path_end path i = length path")
      case True
      moreover have "directories [] = []" by (simp add: directories.simps)
      ultimately show ?thesis using \<open>i < length path\<close> fit d dl dirs
        by (subst resolve_loop.simps) (auto simp: Let_def)
    next
      case False
      have "resolve_loop q t path nm (path_end path i + 1) =
          Some (find (can_exec q t) (map (\<lambda>d. d @ ''/'' @ nm) (directories (drop (path_end path i + 1) path))))"
        by (rule "1.IH"[OF True refl refl]) (use False fit d dirs 1(2) in auto)
      then show ?thesis using True False fit d dl dirs by (subst resolve_loop.simps) (simp add: Let_def)
    qed
  next
    case False
    then show ?thesis by (subst resolve_loop.simps, subst directories.simps) simp
  qed
qed

lemma resolvePath_locate: "os_ok q \<Longrightarrow> names_fit q nm \<Longrightarrow> resolvePath q t nm = Some (locate q t nm)"
  using resolve_loop_find[of nm 0 "the (env_path q)" q t]
  by (auto simp: resolvePath_def locate_def candidates_def os_ok_def names_fit_def)


subsection \<open>The executor implements the specification\<close>

text \<open>The handlers in use are the processes of the pipeline.\<close>

definition sim :: "executor \<Rightarrow> jobs \<Rightarrow> bool" where
  "sim e s \<longleftrightarrow> (\<exists>hs. arr e = Some (fst s @ hs) \<and> h_capacity e = length (fst s @ hs) \<and> h_size e = length (fst s) \<and>
     trace e = snd s)"

lemma os_okD: "os_ok q \<Longrightarrow> \<exists>p. pipe_fds q t = Some p" "os_ok q \<Longrightarrow> \<exists>ss. read_all q t fd = Some ss"
  "os_ok q \<Longrightarrow> \<exists>r. exit_status q t x = Some r"
  unfolding os_ok_def by (meson not_None_eq)+

lemma sim_init: "os_ok q \<Longrightarrow> sim (arrayInit q t) ([], t)"
  by (simp add: sim_def arrayInit_def os_ok_def)

lemma sim_room:
  assumes "os_ok q" "sim e (js, t)"
  obtains e' h hs where "(if h_size e = h_capacity e then extendArray q e else Some e) = Some e'"
    "arr e' = Some (js @ h # hs)" "h_capacity e' = length (js @ h # hs)" "h_size e' = length js" "trace e' = t"
proof -
  from assms(2) obtain hs where e: "arr e = Some (js @ hs)" "h_capacity e = length (js @ hs)" "h_size e = length js" "trace e = t"
    by (auto simp: sim_def)
  show ?thesis
  proof (cases hs)
    case Nil
    let ?e = "e\<lparr>arr := Some (js @ zero_handler # [zero_handler]), h_capacity := length js + 2\<rparr>"
    have "replicate 2 zero_handler = [zero_handler, zero_handler]" by (simp add: numeral_2_eq_2)
    then have "extendArray q e = Some ?e"
      using assms(1) e Nil by (simp add: extendArray_def os_ok_def HANDLER_ARRAY_EXTENSION_def blit_def)
    then show ?thesis using e Nil by (intro that[of ?e zero_handler "[zero_handler]"]) simp_all
  next
    case (Cons h hs')
    then show ?thesis using e by (intro that[of e h hs']) simp_all
  qed
qed

lemma child_steps_script:
  assumes "ws \<noteq> []" "length ws \<le> 7"
  shows "child_steps h r (word_command (COMMAND_TYPE_REGULAR, ws)) = Some (child_script (inputFd h) (outputPipe h) r ws)"
proof -
  have "None \<in> set (map Some ws @ replicate (8 - length ws) None)" using assms(2) by (auto simp: set_replicate_conv_if)
  then show ?thesis
    using assms(1) by (cases r) (simp_all add: child_steps_def child_script_def word_command_def)
qed

lemma name_word: "ws \<noteq> [] \<Longrightarrow> name (word_command (c, ws)) = Some (hd ws)"
  by (simp add: word_command_def)

lemma sim_start:
  assumes "os_ok q" "command_ok q (COMMAND_TYPE_REGULAR, ws)" "hd ws \<noteq> ''cd''" "sim e s"
  shows "\<exists>e'. executeRegular q (word_command (COMMAND_TYPE_REGULAR, ws)) e = Some (EXIT_SUCCESS, e') \<and>
    sim e' (start_process q ws s)"
proof -
  obtain js t where s: "s = (js, t)" by (cases s)
  from assms(2,3) have ws: "ws \<noteq> []" "names_fit q (hd ws)" "length ws \<le> 7" by (auto simp: command_ok_def words_ok_def)
  from sim_room[OF assms(1) assms(4)[unfolded s]] obtain e' h hs where
    e': "(if h_size e = h_capacity e then extendArray q e else Some e) = Some e'"
    "arr e' = Some (js @ h # hs)" "h_capacity e' = length (js @ h # hs)" "h_size e' = length js" "trace e' = t" .
  obtain p where p: "pipe_fds q t = Some p" using os_okD(1)[OF assms(1), of t] by blast
  have h: "handler e' (length js) = Some h" by (simp add: handler_def e')
  have t: "trace e = t" using assms(4) s by (auto simp: sim_def)
  have path: "resolvePath q t (hd ws) = Some (locate q t (hd ws))" by (rule resolvePath_locate[OF assms(1) ws(2)])
  let ?h = "\<lambda>fd. \<lparr>pid = fork_pid q (t @ [Pipe p]), inputFd = fd, outputPipe = p\<rparr>"
  note child = child_steps_script[OF ws(1,3)]
  have hh: "h\<lparr>inputFd := fd, outputPipe := p, pid := fork_pid q (t @ [Pipe p])\<rparr> = ?h fd" for fd by simp
  note unfold = executeRegular_def name_word[OF ws(1)] e'(1)
  note facts = e' t path h p child hh act_def set_handler_def sim_def s start_process_def Let_def list_update_append
  show ?thesis
  proof (cases js rule: rev_cases)
    case Nil
    with h have "handler e' 0 = Some h" by simp
    with Nil show ?thesis unfolding unfold by (simp add: facts)
  next
    case (snoc ks g)
    have "handler e' (length ks) = Some g" by (simp add: handler_def e' snoc)
    moreover have "handler e' (Suc (length ks)) = Some h" using h snoc by simp
    ultimately show ?thesis using snoc unfolding unfold by (simp add: facts)
  qed
qed

lemma sim_stop_rest:
  assumes "arr e = Some (js @ hs)"
  shows "\<exists>e' hs'. stop_rest (length js) e = Some e' \<and> arr e' = Some hs' \<and> length hs' = length (js @ hs) \<and>
    drop (length js) hs' = hs \<and> h_capacity e' = h_capacity e \<and> h_size e' = h_size e \<and>
    trace e' = trace e @ concat (map stop_actions (rev js))"
  using assms
proof (induction js arbitrary: e hs rule: rev_induct)
  case (snoc h js)
  let ?e = "act (Close (fst (outputPipe h))) (act (Kill (pid h)) e)"
  let ?e1 = "if inputFd h \<noteq> 0 then act (Close (inputFd h)) ?e else ?e"
  let ?e2 = "set_handler (length js) (h\<lparr>pid := 0\<rparr>) ?e1"
  have h: "handler e (length js) = Some h" using snoc.prems by (simp add: handler_def)
  have e2: "arr ?e2 = Some (js @ h\<lparr>pid := 0\<rparr> # hs)" "h_capacity ?e2 = h_capacity e" "h_size ?e2 = h_size e"
    "trace ?e2 = trace e @ stop_actions h"
    using snoc.prems by (simp_all add: set_handler_def act_def list_update_append stop_actions_def)
  from snoc.IH[OF e2(1)] obtain e' hs' where e': "stop_rest (length js) ?e2 = Some e'" "arr e' = Some hs'"
    "length hs' = length (js @ h\<lparr>pid := 0\<rparr> # hs)" "drop (length js) hs' = h\<lparr>pid := 0\<rparr> # hs"
    "h_capacity e' = h_capacity e" "h_size e' = h_size e"
    "trace e' = trace e @ stop_actions h @ concat (map stop_actions (rev js))" using e2 by auto
  have "drop (Suc (length js)) hs' = hs" using e'(4) by (simp add: drop_Suc flip: tl_drop)
  moreover have "stop_rest (length (js @ [h])) e = Some e'" using h e'(1) by (simp add: Let_def)
  ultimately show ?case using e' by auto
qed (auto simp: stop_actions_def)

lemma print_all_eq:
  "trace (print_all f ss e) = trace e @ print_actions f ss" "arr (print_all f ss e) = arr e"
  "h_capacity (print_all f ss e) = h_capacity e" "h_size (print_all f ss e) = h_size e"
  by (induction f ss e rule: print_all.induct) (simp_all add: print_actions_def act_def)

lemma sim_finish:
  assumes "os_ok q" "sim e s"
  shows "\<exists>e'. syncPointProc q f e = Some (fst (finish_pipeline q f s), e') \<and> sim e' (snd (finish_pipeline q f s))"
proof -
  obtain js t where s: "s = (js, t)" by (cases s)
  from assms(2) s obtain hs where e: "arr e = Some (js @ hs)" "h_capacity e = length (js @ hs)" "h_size e = length js" "trace e = t"
    by (auto simp: sim_def)
  show ?thesis
  proof (cases js rule: rev_cases)
    case Nil
    then show ?thesis using assms(2) e s by (intro exI[of _ e]) (simp add: syncPointProc_def finish_pipeline_def)
  next
    case (snoc ks h)
    let ?e = "act (Wait (pid h)) (e\<lparr>h_size := length ks\<rparr>)"
    have h: "handler e (length ks) = Some h" using e snoc by (simp add: handler_def)
    have "arr ?e = Some (ks @ h # hs)" using e snoc by (simp add: act_def)
    from sim_stop_rest[OF this] obtain e1 hs1 where e1: "stop_rest (length ks) ?e = Some e1" "arr e1 = Some hs1"
      "length hs1 = length (ks @ h # hs)" "h_capacity e1 = h_capacity e"
      "trace e1 = t @ Wait (pid h) # concat (map stop_actions (rev ks))" using e by (auto simp: act_def)
    obtain ss where ss: "read_all q (trace e1) (fst (outputPipe h)) = Some ss"
      using os_okD(2)[OF assms(1), of "trace e1" "fst (outputPipe h)"] by blast
    obtain r where r: "exit_status q t (pid h) = Some r" using os_okD(3)[OF assms(1)] by blast
    have "syncPointProc q f e = Some (r,
        set_handler (length ks) (h\<lparr>pid := 0\<rparr>) ((print_all f ss e1)\<lparr>h_size := 0\<rparr>))"
      using e snoc h e1(1) ss r by (simp add: syncPointProc_def Let_def)
    then show ?thesis
      using e1 e snoc ss r by (simp add: s finish_pipeline_def sim_def Let_def set_handler_def print_all_eq)
  qed
qed

lemma sim_redirect:
  assumes "os_ok q" "sim e s"
  shows "\<exists>r e'. syncPointProcFile q (Some nm) app e = Some (r, e') \<and> sim e' (redirect q nm app s)"
proof -
  have "sim (act (Open nm app) e) (fst s, snd s @ [Open nm app])" using assms(2) by (auto simp: sim_def act_def)
  from sim_finish[OF assms(1) this, of "File nm app"] obtain r js t e' where
    *: "finish_pipeline q (File nm app) (fst s, snd s @ [Open nm app]) = (r, js, t)"
      "syncPointProc q (File nm app) (act (Open nm app) e) = Some (r, e')" "sim e' (js, t)"
    by (cases "finish_pipeline q (File nm app) (fst s, snd s @ [Open nm app])") auto
  have "sim (act (CloseFile nm) e') (js, t @ [CloseFile nm])" using *(3) by (auto simp: sim_def act_def)
  moreover have "can_open q (trace e) nm" using assms(1) by (simp add: os_ok_def)
  ultimately show ?thesis using * by (simp add: syncPointProcFile_def redirect_def)
qed


lemma builtin_word:
  assumes "ws \<noteq> []" "length ws \<le> 8"
  shows "executeBuiltin (word_command (c, ws)) e =
    (if hd ws = ''cd'' then Some (EXIT_SUCCESS, act (Chdir (if length ws = 1 then None else Some (ws ! 1))) e)
     else Some (EXIT_FAILURE, e))"
proof -
  obtain w vs where w: "ws = w # vs" using assms(1) by (cases ws) auto
  show ?thesis using assms(2)
    by (cases vs) (auto simp: executeBuiltin_def name_word w word_command_def)
qed

lemma ctype_word: "ctype (word_command (c, ws)) = c"
  by (simp add: word_command_def)

lemma array_slot: "i < length cs \<Longrightarrow> slot (tokens (command_array (map word_command cs))) i = Some (word_command (cs ! i))"
  by (simp add: command_array_def nth_append)

lemma array_size: "ca_size (command_array (map word_command cs)) = length cs"
  by (simp add: command_array_def)

lemma targets_ok_nth: "targets_ok cs \<Longrightarrow> Suc i < length cs \<Longrightarrow> is_redirect (fst (cs ! i)) \<Longrightarrow> snd (cs ! Suc i) \<noteq> []"
proof (induction cs arbitrary: i rule: targets_ok.induct)
  case (1 c d cs)
  then show ?case by (cases i) auto
qed auto

lemma sim_act: "sim e s \<Longrightarrow> sim (act a e) (fst s, snd s @ [a])"
  by (auto simp: sim_def act_def)

theorem execute_loop_runs:
  assumes q: "os_ok q" and "sim e s" and ok: "\<forall>c \<in> set cs. command_ok q c" "targets_ok cs"
  shows "\<exists>e'. execute_loop q (command_array (map word_command cs)) i n e = Some (fst (run_commands q (drop i cs) n s), e') \<and>
    sim e' (snd (run_commands q (drop i cs) n s))"
  using assms(2)
proof (induction "length cs - i" arbitrary: i n e s rule: less_induct)
  case less
  let ?ca = "command_array (map word_command cs)"
  show ?case
  proof (cases "i < length cs")
    case False
    then show ?thesis using less.prems by (subst execute_loop.simps) (simp add: array_size)
  next
    case True
    obtain c ws where c: "cs ! i = (c, ws)" by (cases "cs ! i")
    from ok(1) True c have cok: "command_ok q (c, ws)" by (metis nth_mem)
    have d: "drop i cs = (c, ws) # drop (Suc i) cs" using True c by (metis Cons_nth_drop_Suc)
    have IH: "\<exists>e'. execute_loop q ?ca j k e1 = Some (fst (run_commands q (drop j cs) k s1), e') \<and>
        sim e' (snd (run_commands q (drop j cs) k s1))" if "i < j" "sim e1 s1" for j k e1 s1
      using less.hyps[of j e1 s1 k] that True by auto
    note step = execute_loop.simps[of q ?ca i n e] array_size array_slot[OF True] c ctype_word True d
    have redirected: ?thesis if r: "is_redirect c"
    proof (cases "Suc i < length cs")
      case False
      then have "drop (Suc i) cs = []" by simp
      then show ?thesis
        using r False IH[OF lessI sim_act[OF less.prems], of n "Note ''No target for write provided''"]
        by (auto simp: step is_redirect_def noted_def)
    next
      case True
      obtain t vs where t: "cs ! Suc i = (t, vs)" by (cases "cs ! Suc i")
      have vs: "vs \<noteq> []" using targets_ok_nth[OF ok(2) True] r c t by simp
      have d2: "drop (Suc i) cs = (t, vs) # drop (Suc (Suc i)) cs" using True t by (metis Cons_nth_drop_Suc)
      have slot: "slot (tokens ?ca) (Suc i) = Some (word_command (t, vs))" using array_slot[OF True] t by simp
      obtain x e1 where x: "syncPointProcFile q (Some (hd vs)) (c = COMMAND_TYPE_OPERATOR_APPEND) e = Some (x, e1)"
        "sim e1 (redirect q (hd vs) (c = COMMAND_TYPE_OPERATOR_APPEND) s)"
        using sim_redirect[OF q less.prems] by blast
      show ?thesis
        using r x(1) True slot IH[of "Suc (Suc i)", OF _ x(2), of n]
        by (auto simp: step is_redirect_def d2 name_word[OF vs])
    qed
    show ?thesis
    proof (cases c)
      case COMMAND_TYPE_REGULAR
      with cok have ws: "ws \<noteq> []" "length ws \<le> 8" by (simp_all add: command_ok_def)
      show ?thesis
      proof (cases "hd ws = ''cd''")
        case True
        then show ?thesis
          using IH[OF lessI sim_act[OF less.prems], of n "Chdir (if length ws = 1 then None else Some (ws ! 1))"]
          by (simp add: step COMMAND_TYPE_REGULAR builtin_word[OF ws] EXIT_SUCCESS_def EXIT_FAILURE_def)
      next
        case False
        from sim_start[OF q _ False less.prems] cok COMMAND_TYPE_REGULAR obtain e1 where
          "executeRegular q (word_command (COMMAND_TYPE_REGULAR, ws)) e = Some (EXIT_SUCCESS, e1)" "sim e1 (start_process q ws s)"
          by auto
        then show ?thesis using False IH[OF lessI, of e1 "start_process q ws s" "n + 1"]
          by (simp add: step COMMAND_TYPE_REGULAR builtin_word[OF ws])
      qed
    next
      case COMMAND_TYPE_OPERATOR_AND
      from sim_finish[OF q less.prems, of Stdout] obtain e1 where
        "syncPointProc q Stdout e = Some (fst (finish_pipeline q Stdout s), e1)" "sim e1 (snd (finish_pipeline q Stdout s))" by auto
      then show ?thesis using IH[OF lessI, of e1 "snd (finish_pipeline q Stdout s)" n]
        by (cases "finish_pipeline q Stdout s") (simp add: step COMMAND_TYPE_OPERATOR_AND syncPointProcStdout_def)
    next
      case COMMAND_TYPE_OPERATOR_OR
      from sim_finish[OF q less.prems, of Stdout] obtain e1 where
        "syncPointProc q Stdout e = Some (fst (finish_pipeline q Stdout s), e1)" "sim e1 (snd (finish_pipeline q Stdout s))" by auto
      then show ?thesis using IH[OF lessI, of e1 "snd (finish_pipeline q Stdout s)" n]
        by (cases "finish_pipeline q Stdout s") (simp add: step COMMAND_TYPE_OPERATOR_OR syncPointProcStdout_def)
    next
      case COMMAND_TYPE_OPERATOR_PIPE
      then show ?thesis using IH[OF lessI less.prems, of n] by (simp add: step is_redirect_def)
    next
      case COMMAND_TYPE_COMMENT
      then show ?thesis using less.prems by (simp add: step)
    next
      case COMMAND_TYPE_BACKGROUND
      then show ?thesis using IH[OF lessI less.prems, of n] by (simp add: step is_redirect_def)
    next
      case COMMAND_TYPE_UNKNOWN
      then show ?thesis using IH[OF lessI less.prems, of n] by (simp add: step is_redirect_def)
    next
      case COMMAND_TYPE_OPERATOR_APPEND
      then show ?thesis by (intro redirected) (simp add: is_redirect_def)
    next
      case COMMAND_TYPE_OPERATOR_WRITE
      then show ?thesis by (intro redirected) (simp add: is_redirect_def)
    qed
  qed
qed


text \<open>A whole line: what is left of the pipeline is waited for at the end.\<close>

definition run_line :: "os \<Rightarrow> (CommandType \<times> string list) list \<Rightarrow> action list \<Rightarrow> nat \<times> action list" where
  "run_line q cs t = (case run_commands q cs 0 ([], t) of
     (n, s) \<Rightarrow> (n, snd (snd (finish_pipeline q Stdout s))))"

theorem execute_runs:
  assumes "os_ok q" "\<forall>c \<in> set cs. command_ok q c" "targets_ok cs"
  shows "execute q (command_array (map word_command cs)) t = Some (run_line q cs t)"
proof -
  obtain n s where r: "run_commands q cs 0 ([], t) = (n, s)" by (cases "run_commands q cs 0 ([], t)")
  from execute_loop_runs[OF assms(1) sim_init[OF assms(1)] assms(2,3), of 0 0 t] r obtain e where
    e: "execute_loop q (command_array (map word_command cs)) 0 0 (arrayInit q t) = Some (n, e)" "sim e s"
    by auto
  obtain e' where e': "syncPointProc q Stdout e = Some (fst (finish_pipeline q Stdout s), e')"
    "sim e' (snd (finish_pipeline q Stdout s))"
    using sim_finish[OF assms(1) e(2)] by blast
  then have "trace e' = snd (snd (finish_pipeline q Stdout s))" by (auto simp: sim_def)
  then show ?thesis
    by (simp add: execute_def run_line_def syncPointProcStdout_def arrayFree_def e(1) e'(1) r)
qed

end
