(* ===== verification/Sh_Chain.thy ===== *)
theory Sh_Chain imports Sh_Run begin

text \<open>
  Pipelines joined by \<open>&&\<close> and \<open>||\<close>: which of them run, and how the processes of one are connected.
\<close>

subsection \<open>Lists of pipelines\<close>

fun pipeline_commands :: "string list list \<Rightarrow> (CommandType \<times> string list) list" where
  "pipeline_commands [] = []"
| "pipeline_commands [ws] = [(COMMAND_TYPE_REGULAR, ws)]"
| "pipeline_commands (ws # p) = (COMMAND_TYPE_REGULAR, ws) # (COMMAND_TYPE_OPERATOR_PIPE, []) # pipeline_commands p"

text \<open>The truth value is true for \<open>&&\<close>.\<close>

fun chain_commands :: "string list list \<Rightarrow> (bool \<times> string list list) list \<Rightarrow> (CommandType \<times> string list) list" where
  "chain_commands p [] = pipeline_commands p"
| "chain_commands p ((b, p') # r) =
     pipeline_commands p @ (if b then COMMAND_TYPE_OPERATOR_AND else COMMAND_TYPE_OPERATOR_OR, []) # chain_commands p' r"

definition start_all :: "os \<Rightarrow> string list list \<Rightarrow> jobs \<Rightarrow> jobs" where
  "start_all q p s = foldl (\<lambda>s ws. start_process q ws s) s p"

text \<open>Exit status and trace of a pipeline that runs alone.\<close>

definition run_pipeline :: "os \<Rightarrow> string list list \<Rightarrow> action list \<Rightarrow> int \<times> action list" where
  "run_pipeline q p t = (case finish_pipeline q Stdout (start_all q p ([], t)) of (r, s) \<Rightarrow> (r, snd s))"

text \<open>
  A pipeline runs if the one before it has succeeded, in front of \<open>&&\<close>, or failed, in front of \<open>||\<close>;
  otherwise nothing of the rest of the line runs.
\<close>

fun run_chain :: "os \<Rightarrow> string list list \<Rightarrow> (bool \<times> string list list) list \<Rightarrow> nat \<Rightarrow> action list \<Rightarrow> nat \<times> action list" where
  "run_chain q p [] n t = (n + length p, snd (run_pipeline q p t))"
| "run_chain q p ((b, p') # r) n t = (case run_pipeline q p t of (status, t') \<Rightarrow>
     if (status = 0) = b then run_chain q p' r (n + length p) t' else (n + length p, t'))"

text \<open>
  What other shells do, and what tests.txt expects: a pipeline that does not run leaves the status as it was, and the
  operators behind it are looked at all the same.
\<close>

fun usual_rest :: "os \<Rightarrow> (bool \<times> string list list) list \<Rightarrow> nat \<Rightarrow> int \<times> action list \<Rightarrow> nat \<times> action list" where
  "usual_rest q [] n s = (n, snd s)"
| "usual_rest q ((b, p') # r) n s =
     (if (fst s = 0) = b then usual_rest q r (n + length p') (run_pipeline q p' (snd s)) else usual_rest q r n s)"

definition usual_chain :: "os \<Rightarrow> string list list \<Rightarrow> (bool \<times> string list list) list \<Rightarrow> nat \<Rightarrow> action list \<Rightarrow> nat \<times> action list" where
  "usual_chain q p r n t = usual_rest q r (n + length p) (run_pipeline q p t)"

lemma usual_rest_skips: "\<forall>(b, p') \<in> set r. (fst s = 0) \<noteq> b \<Longrightarrow> usual_rest q r n s = (n, snd s)"
  by (induction r) auto

lemma run_chain_usual:
  assumes "\<forall>(b, p') \<in> set r. b = c"
  shows "run_chain q p r n t = usual_chain q p r n t"
  using assms
proof (induction p r arbitrary: n t rule: chain_commands.induct)
  case (2 p b p' r)
  obtain st t' where s: "run_pipeline q p t = (st, t')" by (cases "run_pipeline q p t")
  have "usual_rest q r (n + length p) (st, t') = (n + length p, t')" if "(st = 0) \<noteq> b"
    using usual_rest_skips[of r "(st, t')" q "n + length p"] that "2.prems" by auto
  then show ?case using "2.IH" "2.prems" by (auto simp: usual_chain_def s)
qed (simp add: usual_chain_def)

definition pipeline_ok :: "os \<Rightarrow> string list list \<Rightarrow> bool" where
  "pipeline_ok q p \<longleftrightarrow> p \<noteq> [] \<and> (\<forall>ws \<in> set p. ws \<noteq> [] \<and> length ws \<le> 7 \<and> hd ws \<noteq> ''cd'' \<and> names_fit q (hd ws))"

lemma run_commands_pipeline:
  assumes "\<forall>ws \<in> set p. hd ws \<noteq> ''cd''"
  shows "run_commands q (pipeline_commands p @ cs) n s = run_commands q cs (n + length p) (start_all q p s)"
  using assms
  by (induction p arbitrary: n s rule: pipeline_commands.induct) (simp_all add: start_all_def is_redirect_def)

lemma finish_idle: "finish_pipeline q f ([], t) = (0, [], t)"
  by (simp add: finish_pipeline_def)

lemma finish_jobs: "fst (snd (finish_pipeline q f s)) = []"
  by (auto simp: finish_pipeline_def Let_def split: prod.splits)

lemma run_chain_commands:
  assumes "\<forall>ws \<in> set p. hd ws \<noteq> ''cd''" "\<forall>(b, p') \<in> set r. \<forall>ws \<in> set p'. hd ws \<noteq> ''cd''"
  shows "(case run_commands q (chain_commands p r) n ([], t) of
      (n, s) \<Rightarrow> (n, snd (snd (finish_pipeline q Stdout s)))) = run_chain q p r n t"
  using assms
proof (induction p r arbitrary: n t rule: chain_commands.induct)
  case (1 p)
  then show ?case using run_commands_pipeline[of p q "[]" n "([], t)"]
    by (simp add: run_pipeline_def split: prod.splits)
next
  case (2 p b p' r)
  obtain st t' where f: "finish_pipeline q Stdout (start_all q p ([], t)) = (st, [], t')"
    using finish_jobs[of q Stdout "start_all q p ([], t)"]
    by (cases "finish_pipeline q Stdout (start_all q p ([], t))") auto
  have "run_commands q (chain_commands p ((b, p') # r)) n ([], t) =
      (if (st = 0) = b then run_commands q (chain_commands p' r) (n + length p) ([], t') else (n + length p, [], t'))"
    using "2.prems"(1) by (simp add: run_commands_pipeline f)
  then show ?case using "2.IH"[of "n + length p" t'] "2.prems"
    by (simp add: run_pipeline_def f finish_idle)
qed

lemma pipeline_commands_ok:
  assumes "pipeline_ok q p"
  shows "\<forall>c \<in> set (pipeline_commands p). command_ok q c \<and> \<not> is_redirect (fst c)"
  using assms
proof -
  have "\<forall>c \<in> set (pipeline_commands p). c = (COMMAND_TYPE_OPERATOR_PIPE, []) \<or> c \<in> Pair COMMAND_TYPE_REGULAR ` set p"
    by (induction p rule: pipeline_commands.induct) auto
  then show ?thesis using assms by (fastforce simp: command_ok_def words_ok_def pipeline_ok_def is_redirect_def)
qed

lemma chain_commands_ok:
  assumes "pipeline_ok q p" "\<forall>(b, p') \<in> set r. pipeline_ok q p'"
  shows "\<forall>c \<in> set (chain_commands p r). command_ok q c \<and> \<not> is_redirect (fst c)"
  using assms
proof (induction p r rule: chain_commands.induct)
  case (2 p b p' r)
  then show ?case using pipeline_commands_ok[OF "2.prems"(1)]
    by (auto simp: command_ok_def is_redirect_def)
qed (simp add: pipeline_commands_ok)

lemma no_redirect_targets: "\<forall>c \<in> set cs. \<not> is_redirect (fst c) \<Longrightarrow> targets_ok cs"
  by (induction cs rule: targets_ok.induct) auto

theorem execute_chain:
  assumes "os_ok q" "pipeline_ok q p" "\<forall>(b, p') \<in> set r. pipeline_ok q p'"
  shows "execute q (command_array (map word_command (chain_commands p r))) t = Some (run_chain q p r 0 t)"
proof -
  have "execute q (command_array (map word_command (chain_commands p r))) t = Some (run_line q (chain_commands p r) t)"
    using chain_commands_ok[OF assms(2,3)] by (intro execute_runs[OF assms(1)] no_redirect_targets) auto
  moreover have "run_line q (chain_commands p r) t = run_chain q p r 0 t"
    unfolding run_line_def by (rule run_chain_commands) (use assms(2,3) in \<open>auto simp: pipeline_ok_def\<close>)
  ultimately show ?thesis by simp
qed

subsection \<open>The processes of a pipeline\<close>

fun pipes :: "action list \<Rightarrow> (int \<times> int) list" where
  "pipes [] = []"
| "pipes (Pipe p # t) = p # pipes t"
| "pipes (_ # t) = pipes t"

fun children :: "action list \<Rightarrow> child_step list option list" where
  "children [] = []"
| "children (Spawn p c # t) = c # children t"
| "children (_ # t) = children t"

lemma pipes_append [simp]: "pipes (t @ t') = pipes t @ pipes t'"
  by (induction t rule: pipes.induct) auto

lemma children_append [simp]: "children (t @ t') = children t @ children t'"
  by (induction t rule: children.induct) auto

lemma quiet_stop: "pipes (stop_actions h) = []" "children (stop_actions h) = []"
  by (simp_all add: stop_actions_def)

lemma quiet_concat: "pipes (concat (map stop_actions hs)) = []" "children (concat (map stop_actions hs)) = []"
  by (induction hs) (simp_all add: quiet_stop)

lemma quiet_print: "pipes (print_actions f ss) = []" "children (print_actions f ss) = []"
  by (induction ss) (simp_all add: print_actions_def)

lemma finish_quiet:
  "pipes (snd (snd (finish_pipeline q f s))) = pipes (snd s)"
  "children (snd (snd (finish_pipeline q f s))) = children (snd s)"
  by (simp_all add: finish_pipeline_def Let_def quiet_concat quiet_print split: prod.splits)

subsection \<open>What becomes of a child\<close>

text \<open>
  The open files of a child: to which file of the shell each descriptor refers, by the number that the file has in
  the shell.  At the \<open>fork\<close> they are those of the shell; a child ends up running a program with some words, or
  writes a message, or ends.
\<close>

type_synonym descriptors = "int \<Rightarrow> int option"

datatype fate =
    Runs string "string list" descriptors
  | Says string descriptors
  | Ends

fun fate_of :: "child_step list \<Rightarrow> descriptors \<Rightarrow> fate" where
  "fate_of (Debug fd # c) d = fate_of c d"
| "fate_of (Dup2 a b # c) d = fate_of c (d(b := d a))"
| "fate_of (ChildClose a # c) d = fate_of c (d(a := None))"
| "fate_of (Exec nm blk # c) d = Runs nm (map the (takeWhile (\<lambda>a. a \<noteq> None) blk)) d"
| "fate_of (Say w # c) d = Says w d"
| "fate_of (ExitWith k # c) d = Ends"
| "fate_of [] d = Ends"

text \<open>
  A child whose program was found runs it with the words as its arguments, else it says so; its standard input
  is the file \<open>fd\<close> of the shell, its standard output and error are the end for writing of its own pipe.
\<close>

definition wired :: "int \<Rightarrow> int \<times> int \<Rightarrow> string option \<Rightarrow> string list \<Rightarrow> fate \<Rightarrow> bool" where
  "wired fd p program ws f \<longleftrightarrow> (\<exists>d. f = (case program of Some nm \<Rightarrow> Runs nm ws d | None \<Rightarrow> Says ''Command not found'' d) \<and>
     d 0 = Some fd \<and> d 1 = Some (snd p) \<and> d 2 = Some (snd p))"

lemma takeWhile_words: "takeWhile (\<lambda>a. a \<noteq> None) (map Some ws @ replicate n None) = map Some ws"
  by (induction ws) (cases n, simp_all)

lemma child_script_wired:
  assumes "2 < fst p" "2 < snd p" "fst p \<noteq> snd p"
  shows "wired fd p r ws (fate_of (child_script fd p r ws) Some)"
  using assms takeWhile_words[of ws "8 - length ws"]
  by (cases r) (auto simp: wired_def child_script_def comp_def)

text \<open>The numbers that \<open>pipe\<close> gives, with the standard descriptors open: they are different and not among those.\<close>

definition pipes_ok :: "os \<Rightarrow> bool" where
  "pipes_ok q \<longleftrightarrow> (\<forall>t p. pipe_fds q t = Some p \<longrightarrow> 2 < fst p \<and> 2 < snd p \<and> fst p \<noteq> snd p)"

text \<open>Somewhere in the trace \<open>t'\<close> the process for \<open>ws\<close> is started, on the trace \<open>u\<close>, after \<open>k\<close> pipes.\<close>

definition started :: "os \<Rightarrow> int \<Rightarrow> (int \<times> int) list \<Rightarrow> nat \<Rightarrow> string list \<Rightarrow> action list \<Rightarrow> bool" where
  "started q fd ps k ws t' \<longleftrightarrow> (\<exists>u x c v. t' = u @ [Pipe (ps ! k), Spawn x (Some c), Close (snd (ps ! k))] @ v \<and>
     pipes u = take k ps \<and> wired fd (ps ! k) (locate q u (hd ws)) ws (fate_of c Some))"

lemma started_append: "started q fd ps k ws t' \<Longrightarrow> k < length ps \<Longrightarrow> started q fd (ps @ qs) k ws (t' @ v)"
  unfolding started_def by (auto simp: nth_append) (metis append.assoc append_Cons append_Nil)

lemma start_all_wiring:
  assumes "os_ok q" "pipes_ok q"
  shows "\<exists>js ps t'. start_all q p ([], t) = (js, t') \<and> map outputPipe js = ps \<and> pipes t' = pipes t @ ps \<and>
    length ps = length p \<and> length (children t') = length (children t) + length p \<and>
    (\<forall>i < length p. started q (if i = 0 then 0 else fst (ps ! (i - 1))) (pipes t @ ps) (length (pipes t) + i) (p ! i) t')"
proof (induction p rule: rev_induct)
  case Nil
  then show ?case by (simp add: start_all_def)
next
  case (snoc ws p)
  then obtain js ps t' where s: "start_all q p ([], t) = (js, t')" "map outputPipe js = ps" "pipes t' = pipes t @ ps"
    "length ps = length p" "length (children t') = length (children t) + length p"
    "\<forall>i < length p. started q (if i = 0 then 0 else fst (ps ! (i - 1))) (pipes t @ ps) (length (pipes t) + i) (p ! i) t'"
    by blast
  obtain o1 where o: "pipe_fds q t' = Some o1" using os_okD(1)[OF assms(1)] by blast
  have o1: "2 < fst o1" "2 < snd o1" "fst o1 \<noteq> snd o1" using assms(2) o unfolding pipes_ok_def by blast+
  let ?fd = "if js = [] then 0 else fst (outputPipe (last js))"
  let ?c = "child_script ?fd o1 (locate q t' (hd ws)) ws"
  let ?v = "[Pipe o1, Spawn (fork_pid q (t' @ [Pipe o1])) (Some ?c), Close (snd o1)]"
  let ?h = "\<lparr>pid = fork_pid q (t' @ [Pipe o1]), inputFd = ?fd, outputPipe = o1\<rparr>"
  have start: "start_all q (p @ [ws]) ([], t) = (js @ [?h], t' @ ?v)"
    using s(1) by (simp add: start_all_def start_process_def Let_def o)
  have fd: "?fd = (if length p = 0 then 0 else fst (ps ! (length p - 1)))"
    using s(2,4) by (cases js rule: rev_cases) (auto simp: nth_append)
  have "started q ?fd (pipes t @ ps @ [o1]) (length (pipes t) + length p) ws (t' @ ?v)"
    unfolding started_def using s(3,4) child_script_wired[OF o1, of ?fd "locate q t' (hd ws)" ws]
    by (intro exI[of _ t'] exI[of _ "pid ?h"] exI[of _ ?c] exI[of _ "[]"]) (simp add: nth_append)
  moreover have "started q (if i = 0 then 0 else fst ((ps @ [o1]) ! (i - 1))) (pipes t @ ps @ [o1]) (length (pipes t) + i)
      (p ! i) (t' @ v)" if "i < length p" for i v
  proof -
    have "(ps @ [o1]) ! (i - 1) = ps ! (i - 1)" if "i \<noteq> 0" using \<open>i < length p\<close> s(4) that by (auto simp: nth_append)
    then show ?thesis
      using s(4,6) that started_append[of q _ "pipes t @ ps" "length (pipes t) + i" "p ! i" t' "[o1]" v] by auto
  qed
  ultimately have "\<forall>i < length (p @ [ws]). started q (if i = 0 then 0 else fst ((ps @ [o1]) ! (i - 1)))
      (pipes t @ ps @ [o1]) (length (pipes t) + i) ((p @ [ws]) ! i) (t' @ ?v)"
    using s(4) unfolding fd by (auto simp add: less_Suc_eq nth_append[of p] nth_append[of ps])
  then show ?case
    using s(2-5) by (intro exI[of _ "js @ [?h]"] exI[of _ "ps @ [o1]"] exI[of _ "t' @ ?v"]) (simp add: start)
qed

text \<open>The end of the pipeline starts no process.\<close>

lemma finish_trace: "\<exists>v. snd (snd (finish_pipeline q f s)) = snd s @ v"
  by (auto simp: finish_pipeline_def Let_def split: prod.splits)

theorem pipeline_wiring:
  assumes "os_ok q" "pipes_ok q" "pipeline_ok q p"
  obtains t' ps where "execute q (command_array (map word_command (pipeline_commands p))) t = Some (length p, t')"
    "pipes t' = pipes t @ ps" "length ps = length p" "length (children t') = length (children t) + length p"
    "\<forall>i < length p. started q (if i = 0 then 0 else fst (ps ! (i - 1))) (pipes t @ ps) (length (pipes t) + i) (p ! i) t'"
proof -
  let ?t = "snd (snd (finish_pipeline q Stdout (start_all q p ([], t))))"
  have e: "execute q (command_array (map word_command (pipeline_commands p))) t = Some (length p, ?t)"
    using execute_chain[OF assms(1,3), of "[]" t] by (simp add: run_pipeline_def split: prod.splits)
  obtain js ps t1 where s: "start_all q p ([], t) = (js, t1)" "pipes t1 = pipes t @ ps" "length ps = length p"
    "length (children t1) = length (children t) + length p"
    "\<forall>i < length p. started q (if i = 0 then 0 else fst (ps ! (i - 1))) (pipes t @ ps) (length (pipes t) + i) (p ! i) t1"
    using start_all_wiring[OF assms(1,2), of p t] by blast
  obtain v where v: "?t = t1 @ v" using finish_trace[of q Stdout "start_all q p ([], t)"] s(1) by auto
  have "pipes ?t = pipes t1" "children ?t = children t1" by (simp_all add: finish_quiet s(1))
  then show ?thesis
    using s started_append[of q _ "pipes t @ ps" _ _ t1 "[]" v, folded v] by (intro that[OF e, of ps]) auto
qed

end
