(* ===== verification/Sh_Faults.thy ===== *)
theory Sh_Faults imports Sh_Build begin

text \<open>
  Lines on which \<open>parser()\<close> goes wrong: a quotation mark at the start, a last line without a line end, a line
  that is continued inside quotation marks, and arguments without room for a terminator.
\<close>

lemma getline_Cons: "c \<noteq> NL \<Longrightarrow> getline (c # t) =
    (case getline t of None \<Rightarrow> Some ([c], []) | Some (v, r) \<Rightarrow> Some (c # v, r))"
  by (auto simp: getline_def Let_def)

lemma getline_None: "getline t = None \<longleftrightarrow> t = []"
  by (simp add: getline_def Let_def)

lemma getline_nonempty: "getline t = Some (v, r) \<Longrightarrow> v \<noteq> []"
  by (cases t) (auto simp: getline_def Let_def split: if_splits)

text \<open>At the start of the line the byte before the buffer is read.\<close>

lemma parser_leading_quote:
  assumes "q \<noteq> Bare" "l \<noteq> []"
  shows "parser m (mark q @ l) = None"
proof -
  from assms(1) obtain c where c: "mark q = [c]" "c = DQ \<or> c = SQ" by (cases q) (auto simp: mark_def)
  then have "c \<noteq> NL" by auto
  moreover obtain v rest where v: "getline l = Some (v, rest)" "v \<noteq> []"
    using assms(2) getline_nonempty[of l] getline_None[of l] by (cases "getline l") auto
  ultimately have line: "getline (mark q @ l) = Some (c # v, rest)" by (simp add: c getline_Cons)
  let ?s = "lexer_init (c # v) rest"
  have "skip_blanks (buf ?s) (len ?s) 0 = Some 0"
    using c by (subst skip_blanks.simps) (auto simp: lexer_init_def)
  moreover have "scan 0 (?s\<lparr>endPos := 0, singleParOpened := False, doubleParOpened := False, trimParen := False\<rparr>) = None"
    using c v(2) by (subst scan.simps)
      (auto simp: lexer_init_def isSpecialChar_def quote_step_def double_quote_def single_quote_def mirrored_def)
  moreover have "\<not> isSpecialChar c" "c \<noteq> NL" using c by auto
  ultimately have "tokenize m 0 ?s = None"
    by (subst tokenize.simps) (simp add: lexer_init_def)
  then show ?thesis by (simp add: parser_def read_args_def line)
qed

text \<open>
  The scan never looks at the last character of the line, so that without a line end the loop makes empty
  arguments for ever.
\<close>

lemma tokenize_stuck:
  assumes ret: "tokenize m start s = Some r" and "start = len s - 1" "0 < len s"
    "buf s ! start = c" "c \<noteq> SPC" "c \<noteq> NL" "\<not> isSpecialChar c"
  shows False
proof -
  let ?stuck = "\<lambda>start s. start = len s - 1 \<and> 0 < len s \<and> buf s ! start = c"
  have "?stuck start s \<longrightarrow> False"
  proof (rule tokenize.raw_induct[where P = "\<lambda>m start s r. ?stuck start s \<longrightarrow> False", OF _ ret], rule impI, goal_cases)
    case (1 tok m start s r)
    let ?s = "s\<lparr>endPos := start, singleParOpened := False, doubleParOpened := False, trimParen := False\<rparr>"
    have scan: "scan start ?s = Some (Ret ?s)" by (rule scan_end) (use 1 in simp)
    have blanks: "skip_blanks (buf s) (len s) start = (if start < length (buf s) then Some start else None)"
      using 1 assms by (subst skip_blanks.simps) (auto simp: slot_def)
    from 1(2,3) obtain s' where s': "add_to_arg_list m start ?s = Some s'" "tok m (next_start s') s' = Some r"
      using scan blanks assms(5-7) by (auto split: if_splits Option.bind_splits)
    have "buf s' = buf s" "len s' = len s" "next_start s' = start"
      using s'(1) by (auto simp: add_to_arg_list_def Let_def next_start_def split: Option.bind_splits if_splits)
    with 1(1)[OF s'(2)] 1(3) show False by auto
  qed
  with assms show False by simp
qed


lemma escape_plain: "(\<And>c. c \<in> set w \<Longrightarrow> \<not> needs_escape q c) \<Longrightarrow> escape q w = w"
  by (induction w) auto

text \<open>The characters of a plain word.\<close>

definition plain :: "string \<Rightarrow> bool" where
  "plain w \<longleftrightarrow> w \<noteq> [] \<and> (\<forall>c \<in> set w. \<not> needs_escape Bare c \<and> c \<noteq> NL \<and> c \<noteq> NUL)"

lemma plain_token: "plain w \<Longrightarrow> token_ok (W Bare w)" "plain w \<Longrightarrow> escape Bare w = w"
  by (auto simp: plain_def needs_escape_def escape_plain)

lemma getline_unterminated: "NL \<notin> set t \<Longrightarrow> t \<noteq> [] \<Longrightarrow> getline t = Some (t, [])"
proof -
  assume "NL \<notin> set t" "t \<noteq> []"
  moreover from this(1) have "takeWhile (\<lambda>c. c \<noteq> NL) t = t" by (auto simp: takeWhile_eq_all_conv)
  ultimately show ?thesis by (simp add: getline_def)
qed

lemma parser_unterminated:
  assumes "plain w"
  shows "parser m w = None"
proof -
  obtain u c where w: "w = u @ [c]" using assms by (cases w rule: rev_cases) (auto simp: plain_def)
  have chars: "\<not> needs_escape Bare x" "x \<noteq> NL" if "x \<in> set w" for x using assms that by (auto simp: plain_def)
  have plain_char: "x \<noteq> SPC" "x \<noteq> NL" "x \<noteq> BSL" "\<not> isSpecialChar x" if "x \<in> set w" for x
    using chars[OF that] by (auto simp: needs_escape_def)
  let ?s = "lexer_init w []"
  obtain x v where x: "w = x # v" using assms by (cases w) (auto simp: plain_def)
  have scan: "\<exists>k. scan 0 ?s = Some (Ret (?s\<lparr>endPos := length u, last_mirrored_slash := k\<rparr>))"
  proof -
    have "escape Bare u = u" by (rule escape_plain) (use chars w in auto)
    then obtain k where "scan 0 ?s = scan 0 (?s\<lparr>endPos := length u, last_mirrored_slash := k\<rparr>)"
      using scan_escape[of ?s "[]" Bare u "[c, NUL]" 0] chars w by (auto simp: lexer_init_def in_mode_def)
    also have "\<dots> = Some (Ret (?s\<lparr>endPos := length u, last_mirrored_slash := k\<rparr>))"
      by (rule scan_end) (simp add: lexer_init_def w)
    finally show ?thesis by blast
  qed
  then obtain k where k: "scan 0 ?s = Some (Ret (?s\<lparr>endPos := length u, last_mirrored_slash := k\<rparr>))" by blast
  have s: "?s\<lparr>endPos := 0, singleParOpened := False, doubleParOpened := False, trimParen := False\<rparr> = ?s"
    by (simp add: lexer_init_def)
  have blanks: "skip_blanks (buf ?s) (len ?s) 0 = Some 0"
    using plain_char[of x] x by (subst skip_blanks.simps) (simp add: lexer_init_def)
  have "tokenize m 0 ?s \<noteq> Some r" for r
  proof
    assume run: "tokenize m 0 ?s = Some r"
    have "buf ?s ! 0 = x" "0 < len ?s" "len ?s \<noteq> 0" "0 < length (buf ?s)" by (simp_all add: lexer_init_def x)
    with run k s blanks plain_char[of x] x obtain s' where
      s': "add_to_arg_list m 0 (?s\<lparr>endPos := length u, last_mirrored_slash := k\<rparr>) = Some s'"
        "tokenize m (next_start s') s' = Some r"
      by (subst (asm) tokenize.simps) (auto simp: lexer_init_def split: Option.bind_splits)
    then have "buf s' = w @ [NUL]" "len s' = length w" "next_start s' = length w - 1"
      by (auto simp: add_to_arg_list_def Let_def next_start_def lexer_init_def w split: Option.bind_splits if_splits)
    then show False
      using tokenize_stuck[OF s'(2), of c] plain_char[of c] by (simp add: w nth_append)
  qed
  then have "tokenize m 0 ?s = None" by (cases "tokenize m 0 ?s") auto
  moreover have "getline w = Some (w, [])" using chars w by (intro getline_unterminated) auto
  ultimately show ?thesis by (simp add: parser_def read_args_def)
qed


text \<open>
  After a backslash at the end of a line the argument is scanned again from its start, but the quotation is
  still taken to be open: the opening mark is taken for the closing one, and the length of the argument wraps round.
\<close>

lemma escape_set: "c \<in> set (escape q w) \<Longrightarrow> c = BSL \<or> c \<in> set w"
  by (auto simp: escape_def split: if_splits)

lemma line_no_NUL: "spaced t l \<Longrightarrow> NUL \<notin> set (write_line l)"
proof (induction t l rule: spaced.induct)
  case (2 t n u l)
  moreover from 2 have "NUL \<notin> set (write_token u)"
    by (cases u) (auto simp: mark_def dest!: escape_set split: quoting.splits)
  ultimately show ?case by (simp add: write_line_Cons)
qed (simp add: write_line_def)

lemma continue_quoted:
  assumes b: "buf s = p @ mark q @ escape q w @ BSL # z" and "NUL \<notin> set p" "NUL \<notin> set w"
    and e: "endPos s = length p + 1 + length (escape q w)" and q: "q \<noteq> Bare" "in_mode q s"
    and p: "p \<noteq> []" "last p \<noteq> BSL" and i: "inp s \<noteq> []" and l: "length p + 1 < len s"
  shows "continue_line (length p) s = None \<or>
    (\<exists>s'. continue_line (length p) s = Some (Ret s') \<and>
      (\<exists>s''. scan (length p) s' = Some (Ret s'') \<and> in_mode Bare s'' \<and> trimParen s'' \<and> endPos s'' = length p))"
proof -
  from q(1) obtain c where c: "mark q = [c]" "c = DQ \<or> c = SQ" by (cases q) (auto simp: mark_def)
  obtain v rest where v: "getline (inp s) = Some (v, rest)" "v \<noteq> []"
    using i getline_None[of "inp s"] getline_nonempty[of "inp s"] by (cases "getline (inp s)") auto
  have upd: "(buf s)[endPos s := NUL] = (p @ mark q @ escape q w) @ NUL # z"
    unfolding b e by (simp add: c list_update_append)
  have "NUL \<notin> set (p @ mark q @ escape q w)" using assms(2,3) c by (auto dest: escape_set)
  then have "takeWhile (\<lambda>c. c \<noteq> NUL) ((p @ mark q @ escape q w) @ NUL # z) = p @ mark q @ escape q w"
    by (subst takeWhile_append2) auto
  then have str: "c_str ((buf s)[endPos s := NUL]) = Some (p @ mark q @ escape q w)" by (simp add: upd c_str_def)
  obtain y where y: "c_str (v @ [NUL]) = Some y" by (simp add: c_str_def)
  show ?thesis
  proof (cases "join_lines ((buf s)[endPos s := NUL]) v (len s + length v + 1)")
    case None
    then show ?thesis by (simp add: continue_line_def v)
  next
    case (Some d)
    then obtain r where d: "d = p @ c # r" by (auto simp: join_lines_def str y c split: Option.bind_splits)
    let ?s = "s\<lparr>buf := d, len := len s + length v - 1, inp := rest, endPos := length p\<rparr>"
    have "continue_line (length p) s = Some (Ret ?s)" using Some by (simp add: continue_line_def v)
    moreover have "\<exists>s''. quote_step (hd (mark q)) ?s = Some (True, s'') \<and> same_line ?s s'' \<and> endPos s'' = endPos ?s \<and>
        in_mode (if True then Bare else q) s'' \<and> trimParen s'' \<and> last_mirrored_slash s'' = last_mirrored_slash ?s"
      by (rule quote_step_mark) (use q p in \<open>auto simp: d nth_append last_conv_nth in_mode_def\<close>)
    then obtain s'' where s'': "quote_step c ?s = Some (True, s'')" "endPos s'' = length p" "in_mode Bare s''" "trimParen s''"
      using c by auto
    moreover have "scan (length p) ?s = (if True then Some (Ret s'') else scan (length p) (s''\<lparr>endPos := endPos s'' + 1\<rparr>))"
    proof (rule scan_char[where c = c])
      show "endPos ?s < len ?s - 1" using l v(2) by (cases v) auto
    qed (use q c s'' in \<open>auto simp: d in_mode_def isSpecialChar_def split: quoting.splits\<close>)
    ultimately show ?thesis by auto
  qed
qed

lemma tokenize_quoted_continuation:
  assumes b: "buf s = p @ replicate (Suc n) SPC @ mark q @ escape q w @ BSL # NL # z"
    and p: "NUL \<notin> set p" "NUL \<notin> set w" "NL \<notin> set w" and q: "q \<noteq> Bare" and i: "inp s \<noteq> []"
    and l: "len s = length p + Suc n + length (escape q w) + 3"
  shows "tokenize m (length p) s = None"
proof -
  from q obtain c where c: "mark q = [c]" "c = DQ \<or> c = SQ" by (cases q) (auto simp: mark_def)
  let ?p = "p @ replicate (Suc n) SPC"
  let ?s = "s\<lparr>endPos := length ?p, singleParOpened := False, doubleParOpened := False, trimParen := False\<rparr>"
  have "skip_blanks (buf s) (len s) (length p) = Some (length p + Suc n)"
    by (rule skip_blanks_spaces[where c = c and r = "escape q w @ BSL # NL # z"]) (use b c l in auto)
  then have blanks: "skip_blanks (buf s) (len s) (length p) = Some (length ?p)" by simp
  have "buf s ! length ?p = c" "length ?p < length (buf s)" using b c by (simp_all add: nth_append)
  moreover have "c \<noteq> NL" "\<not> isSpecialChar c" using c(2) by auto
  moreover have "length p < len s" "\<not> len s \<le> length ?p" using l by auto
  ultimately have tok: "tokenize m (length p) s = None"
    if "scan (length ?p) ?s = None \<or>
      (\<exists>s''. scan (length ?p) ?s = Some (Ret s'') \<and> in_mode Bare s'' \<and> trimParen s'' \<and> endPos s'' = length ?p)"
    using that blanks
    by (subst tokenize.simps) (auto simp: in_mode_def add_to_arg_list_def Let_def)
  have "\<exists>s'. scan (length ?p) ?s = scan (length ?p) s' \<and> same_line ?s s' \<and> in_mode q s' \<and> trimParen s' \<and>
      endPos s' = length ?p + 1 + length (escape q w) \<and>
      (w \<noteq> [] \<and> last w = BSL \<longrightarrow> last_mirrored_slash s' = int (length ?p + length (escape q w)))"
    by (rule scan_open[where r = "BSL # NL # z"]) (use b p q l in \<open>simp_all add: in_mode_def\<close>)
  then obtain s1 where s1: "scan (length ?p) ?s = scan (length ?p) s1" "same_line ?s s1" "in_mode q s1"
    "endPos s1 = length ?p + 1 + length (escape q w)" by blast
  have b1: "buf s1 = ?p @ mark q @ escape q w @ BSL # NL # z" "len s1 = len s" "inp s1 = inp s"
    using s1(2) b by (simp_all add: same_line_def)
  have "buf s1 ! endPos s1 = BSL" "buf s1 ! (endPos s1 + 1) = NL" "endPos s1 + 1 < length (buf s1)"
    using b1(1) c s1(4) by (simp_all add: nth_append)
  then have "scan (length ?p) s1 = do {
      r \<leftarrow> continue_line (length ?p) s1;
      (case r of Exit \<Rightarrow> Some Exit | Ret s' \<Rightarrow> scan (length ?p) s') }"
    using l s1(4) b1(2) by (subst scan.simps) simp
  moreover have "continue_line (length ?p) s1 = None \<or>
    (\<exists>s'. continue_line (length ?p) s1 = Some (Ret s') \<and>
      (\<exists>s''. scan (length ?p) s' = Some (Ret s'') \<and> in_mode Bare s'' \<and> trimParen s'' \<and> endPos s'' = length ?p))"
    by (rule continue_quoted) (use b1 p q s1 i l in auto)
  ultimately have "scan (length ?p) ?s = None \<or>
      (\<exists>s''. scan (length ?p) ?s = Some (Ret s'') \<and> in_mode Bare s'' \<and> trimParen s'' \<and> endPos s'' = length ?p)"
    unfolding s1(1) by (elim disjE exE conjE) simp_all
  then show ?thesis by (rule tok)
qed

lemma parser_quoted_continuation:
  assumes "spaced None l" "machine_ok m" "q \<noteq> Bare" "NUL \<notin> set w" "NL \<notin> set w" "rest \<noteq> []"
  shows "parser m (write_line l @ replicate (Suc n) SPC @ mark q @ escape q w @ BSL # NL # rest) = None"
proof -
  let ?t = "write_line l @ replicate (Suc n) SPC @ mark q @ escape q w @ [BSL]"
  have "NL \<notin> set (mark q)" by (cases q) (auto simp: mark_def)
  then have "NL \<notin> set ?t" using line_no_NL[OF assms(1)] assms(5) by (auto dest: escape_set)
  from getline_line[OF this, of rest] have line:
    "getline (write_line l @ replicate (Suc n) SPC @ mark q @ escape q w @ BSL # NL # rest) = Some (?t @ [NL], rest)" by simp
  have mark: "length (mark q) = 1" using assms(3) by (cases q) (auto simp: mark_def)
  let ?s = "lexer_init (?t @ [NL]) rest"
  have "\<exists>s'. tokenize m (length ([] :: string)) ?s = tokenize m (length ([] :: string) + length (write_line l)) s' \<and>
      lexed (map snd l) ?s s'"
    by (rule tokenize_tokens[where t = None and c = SPC and z = "replicate n SPC @ mark q @ escape q w @ [BSL, NL, NUL]"])
      (use assms(1,2) in \<open>simp_all add: ends_in_def lexer_init_def\<close>)
  then obtain s' where s': "tokenize m 0 ?s = tokenize m (length (write_line l)) s'" "lexed (map snd l) ?s s'" by auto
  moreover have "tokenize m (length (write_line l)) s' = None"
    by (rule tokenize_quoted_continuation[where n = n and q = q and w = w and z = "[NUL]"])
      (use s'(2) assms line_no_NUL[OF assms(1)] mark in \<open>simp_all add: lexed_def lexer_init_def\<close>)
  ultimately show ?thesis using line by (simp add: parser_def read_args_def)
qed

end
