(* ===== verification/Sh_Props.thy ===== *)
theory Sh_Props imports Sh_Chain Sh_Faults begin

text \<open>The properties of the shell, and the lines on which it goes wrong.\<close>

subsection \<open>Lines that the shell runs\<close>





text \<open>A machine and a system to try things on.\<close>

definition some_machine :: "nat \<Rightarrow> machine" where
  "some_machine k = \<lparr>pad = (\<lambda>_. k), junk = (\<lambda>_. False)\<rparr>"

definition some_os :: "(action list \<Rightarrow> int) \<Rightarrow> int \<Rightarrow> os" where
  "some_os f r = \<lparr>env_path = Some ''/usr/bin:/bin'', can_exec = (\<lambda>t nm. nm \<noteq> ''/usr/bin/a''), memory = (\<lambda>n. True),
     pipe_fds = (\<lambda>t. Some (int (length t) + 3, int (length t) + 4)), fork_pid = f, exit_status = (\<lambda>t p. Some r),
     read_all = (\<lambda>t fd. Some []), can_open = (\<lambda>t nm. True)\<rparr>"

lemma some_machine_ok: "0 < k \<Longrightarrow> machine_ok (some_machine k)"
  by (simp add: machine_ok_def some_machine_def)

lemma some_os_ok: "os_ok (some_os f r)"
  by (simp add: os_ok_def some_os_def)

lemma some_os_pipes: "pipes_ok (some_os f r)"
  by (simp add: pipes_ok_def some_os_def)

lemma some_os_path: "directories (the (env_path (some_os f r))) = [''/usr/bin'', ''/bin'']"
  by (simp add: some_os_def directories.simps)





text \<open>
  C17. Whatever the input, what \<open>parser()\<close> returns is well formed: at most ten commands inside the array; each with an array of
  eight pointers, first \<open>argc\<close> to words that are not empty and then null ones, \<open>name\<close> being the first word;
  operators have no words, and commands and comments have.
\<close>

theorem shell_commands_well_formed:
  assumes "parser m t = Some (Ret (ca, rest))"
  shows "ca_size ca \<le> 10 \<and> ca_size ca \<le> length (tokens ca) \<and>
    (\<forall>cmd \<in> set (take (ca_size ca) (tokens ca)). \<exists>ws. argc cmd = length ws \<and> length ws \<le> 8 \<and>
      argv cmd = Some (map Some ws @ replicate (8 - length ws) None) \<and> (\<forall>w \<in> set ws. w \<noteq> [] \<and> NUL \<notin> set w) \<and>
      name cmd = (if ws = [] then None else Some (hd ws)) \<and>
      (ws \<noteq> [] \<longleftrightarrow> ctype cmd = COMMAND_TYPE_REGULAR \<or> ctype cmd = COMMAND_TYPE_COMMENT) \<and>
      (ctype cmd = COMMAND_TYPE_COMMENT \<longleftrightarrow> ws \<noteq> [] \<and> hd (hd ws) = CHR ''#''))"
proof -
  from parser_shape[OF assms] obtain cs where cs: "ca = command_array (map word_command cs)" "length cs \<le> 10"
    "\<forall>c \<in> set cs. shaped c" by blast
  have "\<exists>ws. argc (word_command c) = length ws \<and> length ws \<le> 8 \<and>
      argv (word_command c) = Some (map Some ws @ replicate (8 - length ws) None) \<and> (\<forall>w \<in> set ws. w \<noteq> [] \<and> NUL \<notin> set w) \<and>
      name (word_command c) = (if ws = [] then None else Some (hd ws)) \<and>
      (ws \<noteq> [] \<longleftrightarrow> ctype (word_command c) = COMMAND_TYPE_REGULAR \<or> ctype (word_command c) = COMMAND_TYPE_COMMENT) \<and>
      (ctype (word_command c) = COMMAND_TYPE_COMMENT \<longleftrightarrow> ws \<noteq> [] \<and> hd (hd ws) = CHR ''#'')" if "c \<in> set cs" for c
  proof -
    obtain t ws where c: "c = (t, ws)" by (cases c)
    with cs(3) that have s: "shaped (t, ws)" by blast
    show ?thesis
    proof (cases "ws = []")
      case True
      with s show ?thesis unfolding c by (intro exI[of _ "[]"]) (simp add: shaped_def word_command_def)
    next
      case False
      then have "t = regular_type (hd ws)" using s by (simp add: shaped_def)
      with False s show ?thesis unfolding c
        by (intro exI[of _ ws]) (simp add: shaped_def word_command_def regular_type_def)
    qed
  qed
  then show ?thesis using cs(2) by (simp add: cs(1) command_array_def)
qed

theorem shell_commands_well_formed_witness:
  "ca_size (command_array (map word_command (meaning [W Bare ''a'', Op ''|'', W Bare ''b'']))) \<le> 10 \<and>
   ca_size (command_array (map word_command (meaning [W Bare ''a'', Op ''|'', W Bare ''b'']))) \<le>
     length (tokens (command_array (map word_command (meaning [W Bare ''a'', Op ''|'', W Bare ''b'']))))"
proof -
  let ?l = "[(0, W Bare ''a''), (1, Op ''|''), (1, W Bare ''b'')]"
  have l: "spaced None ?l" by (simp add: isSpecialChar_def)
  have m: "meaning (map snd ?l) = [(COMMAND_TYPE_REGULAR, [''a'']), (COMMAND_TYPE_OPERATOR_PIPE, []), (COMMAND_TYPE_REGULAR, [''b''])]"
    by (simp add: operator_meaning_def regular_type_def)
  have "parser (some_machine 1) (write_line ?l @ NL # []) =
      Some (Ret (command_array (map word_command (meaning (map snd ?l))), []))"
    unfolding parser_line[OF l some_machine_ok[OF zero_less_one]] by (simp add: m fits_def)
  from shell_commands_well_formed[OF this] show ?thesis by simp
qed

text \<open>
  C37. The arrays of the parser do not grow as they should: a line of more than ten commands, or with a command of more
  than eight words, makes \<open>parser()\<close> write outside its memory or through a dangling pointer.
\<close>

theorem shell_line_limits:
  assumes "spaced None l" "machine_ok m"
    "10 < length (meaning (map snd l)) \<or> (\<exists>(t, ws) \<in> set (meaning (map snd l)). 8 < length ws)"
  shows "parser m (write_line l @ NL # rest) = None"
proof -
  have "\<not> fits (meaning (map snd l))" using assms(3) by (auto simp: fits_def not_le[symmetric])
  then show ?thesis by (simp add: parser_line[OF assms(1,2)])
qed

theorem shell_line_limits_witness:
  "parser (some_machine 1) (write_line (replicate 9 (1, W Bare ''a'')) @ NL # []) = None"
  by (rule shell_line_limits)
    (simp_all add: some_machine_ok numeral_nat isSpecialChar_def)






text \<open>
  The wait comes first: if the last process of a pipeline does not end, as when it writes more than its pipe holds,
  \<open>syncPointProc\<close> does not return, whatever there is to read.
\<close>

lemma shell_waits_before_reading:
  assumes "sim e (js @ [h], t)" "exit_status q t (pid h) = None"
  shows "syncPointProc q f e = None"
proof -
  have "h_size e \<noteq> 0" "handler e (h_size e - 1) = Some h" "trace e = t"
    using assms(1) by (auto simp: sim_def handler_def nth_append)
  with assms(2) show ?thesis by (simp add: syncPointProc_def)
qed

subsection \<open>Pipelines and conditions\<close>

lemma some_pipeline_ok: "pipeline_ok (some_os f r) [[''a'', ''b''], [''c'']]" "pipeline_ok (some_os f r) [[''e'']]"
  unfolding pipeline_ok_def names_fit_def candidates_def some_os_path by (simp_all add: RESOLVED_NAME_MAX_LEN_def)

text \<open>
  C24. Pipelines joined by \<open>&&\<close> and \<open>||\<close>, of at least one program each, \<open>cd\<close> apart, with at most seven words whose
  names fit their buffer: on a system that does not fail them, \<open>execute()\<close> does what \<open>run_chain\<close> says.  The next pipeline
  starts when the last process of the one before has been waited for, the others have been sent \<open>SIGQUIT\<close> and the
  output has been copied; the first pipeline whose status does not fit the operator behind it ends
  the line.  If the operators of the line are all the same, that is what other shells do
  (for others see \<open>shell_mixed_conditions\<close>).
\<close>

theorem shell_conditionals:
  assumes "os_ok q" "pipeline_ok q p" "\<forall>(b, p') \<in> set r. pipeline_ok q p'"
  shows "execute q (command_array (map word_command (chain_commands p r))) t = Some (run_chain q p r 0 t) \<and>
    ((\<forall>(b, p') \<in> set r. b = c) \<longrightarrow> run_chain q p r 0 t = usual_chain q p r 0 t)"
  using execute_chain[OF assms] run_chain_usual by blast

theorem shell_conditionals_witness:
  "execute (some_os (\<lambda>t. 7) 0) (command_array (map word_command (chain_commands [[''a'', ''b''], [''c'']]
      [(True, [[''e'']]), (True, [[''e'']])]))) [] =
    Some (usual_chain (some_os (\<lambda>t. 7) 0) [[''a'', ''b''], [''c'']] [(True, [[''e'']]), (True, [[''e'']])] 0 [])"
  using shell_conditionals[of "some_os (\<lambda>t. 7) 0" "[[''a'', ''b''], [''c'']]" "[(True, [[''e'']]), (True, [[''e'']])]" "[]" True]
  by (simp add: some_os_ok some_pipeline_ok)

text \<open>
  With both operators the rules differ: after \<open>p || p' && p''\<close> with a \<open>p\<close> that succeeds, the shell ends the line, where \<open>p''\<close>
  should run; tests.txt expects \<open>true || false && echo 123\<close> to print.
\<close>

lemma shell_mixed_conditions:
  assumes "run_pipeline q p t = (0, t')"
  shows "run_chain q p [(False, p'), (True, p'')] n t = (n + length p, t')"
    "usual_chain q p [(False, p'), (True, p'')] n t = (n + length p + length p'', snd (run_pipeline q p'' t'))"
  using assms by (simp_all add: usual_chain_def)

text \<open>
  C35. In a pipeline of programs with at most seven words each, on a system that does not fail it and whose pipes get
  numbers of their own: there is a new pipe and a process for each program, in order.  What a process does in
  its child, followed through \<open>dup2\<close>, \<open>close\<close> and \<open>execv\<close>, ends in the program that the search in PATH gave at that
  time, run with exactly its words; its standard input is then the pipe of the process before it, that of
  the first the terminal, and its standard output and error are its own pipe.  A name that is not found is reported
  to that pipe.
\<close>

theorem shell_pipeline_wiring:
  assumes "os_ok q" "pipes_ok q" "pipeline_ok q p"
  shows "\<exists>t' ps. execute q (command_array (map word_command (pipeline_commands p))) t = Some (length p, t') \<and>
    pipes t' = pipes t @ ps \<and> length ps = length p \<and> length (children t') = length (children t) + length p \<and>
    (\<forall>i < length p. started q (if i = 0 then 0 else fst (ps ! (i - 1))) (pipes t @ ps) (length (pipes t) + i) (p ! i) t')"
  by (rule pipeline_wiring[OF assms]) blast

theorem shell_pipeline_wiring_witness:
  "\<exists>t' ps. execute (some_os (\<lambda>t. 7) 0) (command_array (map word_command (pipeline_commands [[''a'', ''b''], [''c'']]))) [] =
      Some (2, t') \<and> pipes t' = ps \<and> length ps = 2 \<and> length (children t') = 2 \<and>
    started (some_os (\<lambda>t. 7) 0) 0 ps 0 [''a'', ''b''] t' \<and> started (some_os (\<lambda>t. 7) 0) (fst (ps ! 0)) ps 1 [''c''] t'"
  using shell_pipeline_wiring[OF some_os_ok some_os_pipes some_pipeline_ok(1), of _ 0 "[]"]
  by (auto simp: All_less_Suc2 numeral_2_eq_2)

text \<open>
  C34. The search through PATH by positions finds the first directory, in order, that has an executable file of the
  name, and fails if there is none.  It looks nowhere else, so that a name with a slash is not found.
\<close>

theorem shell_path_search:
  assumes "env_path q = Some path" "\<forall>d \<in> set (directories path). length d + length nm + 1 < 128"
  shows "resolvePath q t nm = Some (find (can_exec q t) (map (\<lambda>d. d @ ''/'' @ nm) (directories path)))"
  using resolve_loop_find[of nm 0 path q t] assms by (simp add: resolvePath_def RESOLVED_NAME_MAX_LEN_def)

theorem shell_path_search_witness:
  "resolvePath (some_os (\<lambda>t. 7) 0) [] ''a'' =
    Some (find (can_exec (some_os (\<lambda>t. 7) 0) []) (map (\<lambda>d. d @ ''/'' @ ''a'') (directories ''/usr/bin:/bin'')))"
  by (rule shell_path_search) (simp_all add: some_os_def directories.simps)

subsection \<open>Faults\<close>

text \<open>
  C38. A quotation that goes over a line ended with a backslash, on a line of any tokens before it, gives an argument
  of length $2^{64} - 1$: \<open>parser()\<close> writes through a null pointer.
\<close>

theorem shell_continued_quotation:
  assumes "spaced None l" "machine_ok m" "q \<noteq> Bare" "NUL \<notin> set w" "NL \<notin> set w" "rest \<noteq> []"
  shows "parser m (write_line l @ replicate (Suc n) SPC @ mark q @ escape q w @ BSL # NL # rest) = None"
  using assms by (rule parser_quoted_continuation)

theorem shell_continued_quotation_witness:
  "parser (some_machine 1) (write_line [(0, W Bare ''echo'')] @ replicate (Suc 0) SPC @ mark Double @ escape Double ''a'' @
    BSL # NL # [DQ, NL]) = None"
  by (rule shell_continued_quotation) (simp_all add: some_machine_ok isSpecialChar_def)

text \<open>
  A last line without a line end, of a plain word, keeps \<open>parser()\<close> in its loop for ever, or ends in undefined
  behaviour, whatever the machine.
\<close>

theorem shell_unterminated_line:
  assumes "plain w"
  shows "parser m w = None"
  using assms by (rule parser_unterminated)

theorem shell_unterminated_line_witness: "parser (some_machine 1) ''ls'' = None"
  by (rule shell_unterminated_line) (simp add: plain_def needs_escape_def isSpecialChar_def)

text \<open>A quotation mark at the start of a line makes \<open>parser()\<close> read the byte before its buffer.\<close>

theorem shell_leading_quote:
  assumes "q \<noteq> Bare" "l \<noteq> []"
  shows "parser m (mark q @ l) = None"
  using assms by (rule parser_leading_quote)

theorem shell_leading_quote_witness: "parser (some_machine 1) (mark Double @ [CHR ''a'', DQ, NL]) = None"
  by (rule shell_leading_quote) simp_all

definition parsed :: "(CommandArray \<times> string) outcome option \<Rightarrow> (CommandType \<times> string option list) list option" where
  "parsed r = (case r of Some (Ret (ca, _)) \<Rightarrow> Some (commands ca) | _ \<Rightarrow> None)"

text \<open>
  Quotation, on examples: a quotation inside a word loses the first character of the word and keeps the mark;
  a quoted operator is an operator; within single quotation marks a backslash is dropped, against tests.txt; an empty
  command is read through a null pointer; and an argument has no room for a terminator unless the allocator gives more than it is asked for.
\<close>

theorem shell_quoting_faults:
  "parsed (parser (some_machine 1) (''echo a'' @ [DQ] @ ''b c'' @ [DQ, NL])) =
     Some [(COMMAND_TYPE_REGULAR, [Some ''echo'', Some (DQ # ''b c'')])] \<and>
   parsed (parser (some_machine 1) (''echo '' @ [DQ] @ ''|'' @ [DQ, NL])) =
     Some [(COMMAND_TYPE_REGULAR, [Some ''echo'']), (COMMAND_TYPE_OPERATOR_PIPE, [])] \<and>
   parsed (parser (some_machine 1) (''echo '' @ [SQ, BSL, DQ, SQ, NL])) =
     Some [(COMMAND_TYPE_REGULAR, [Some ''echo'', Some [DQ]])] \<and>
   parser (some_machine 1) [SPC, DQ, DQ, NL] = None \<and>
   parser (some_machine 0) (''ls'' @ [NL]) = None"
  by code_simp

lemma stop_in: "h \<in> set js \<Longrightarrow> Kill (pid h) \<in> set (concat (map stop_actions js))"
  by (auto simp: stop_actions_def)

text \<open>
  When \<open>fork\<close> fails for the first of two processes of a pipeline, the shell later sends a signal to the
  process number \<open>-1\<close>, that is, to all processes of the user.
\<close>

theorem shell_fork_failure:
  assumes "os_ok q" "pipeline_ok q [v, w]" "\<And>t'. fork_pid q (t @ [Pipe t']) = - 1"
  shows "\<exists>n t'. execute q (command_array (map word_command (pipeline_commands [v, w]))) t = Some (n, t') \<and> Kill (- 1) \<in> set t'"
proof -
  obtain h j t1 where s: "start_all q [v, w] ([], t) = ([h, j], t1)" "pid h = - 1"
    using assms(3) by (simp add: start_all_def start_process_def Let_def)
  have "Kill (- 1) \<in> set (snd (run_pipeline q [v, w] t))"
    using stop_in[of h "[h]"] by (simp add: run_pipeline_def s finish_pipeline_def Let_def)
  moreover have "execute q (command_array (map word_command (pipeline_commands [v, w]))) t =
      Some (2, snd (run_pipeline q [v, w] t))"
    using execute_chain[OF assms(1,2), of "[]" t] by simp
  ultimately show ?thesis by simp
qed

theorem shell_fork_failure_witness:
  "\<exists>n t'. execute (some_os (\<lambda>t. - 1) 0) (command_array (map word_command (pipeline_commands [[''a'', ''b''], [''c'']]))) [] =
    Some (n, t') \<and> Kill (- 1) \<in> set t'"
  by (rule shell_fork_failure) (simp_all add: some_os_ok some_pipeline_ok, simp add: some_os_def)

text \<open>
  The array of arguments that a child passes to \<open>execv\<close> ends with a null pointer if there are at most seven words;
  with eight, which the parser accepts, it does not, and \<open>execv\<close> reads on behind it.
\<close>

theorem shell_argv_terminator:
  assumes "ws \<noteq> []" "length ws \<le> 8"
  shows "child_steps h (Some nm) (word_command (COMMAND_TYPE_REGULAR, ws)) \<noteq> None \<longleftrightarrow> length ws \<le> 7"
proof -
  have "None \<in> set (map Some ws @ replicate (8 - length ws) None) \<longleftrightarrow> length ws \<le> 7"
    using assms(2) by (auto simp: set_replicate_conv_if)
  then show ?thesis by (cases "length ws \<le> 7") (simp_all add: child_steps_def word_command_def)
qed

theorem shell_argv_terminator_witness:
  "child_steps zero_handler (Some ''/bin/a'') (word_command (COMMAND_TYPE_REGULAR, replicate 8 ''a'')) \<noteq> None \<longleftrightarrow>
    length (replicate 8 ''a'') \<le> 7"
  by (rule shell_argv_terminator) simp_all

end
