(* ===== verification/Simulation.thy ===== *)
theory Simulation imports Prelude begin

text \<open>
  Two step relations with the same events, one with more detail than the other.  The contract of the detailed one: its steps are
  steps of the other, as far as \<open>abs\<close> shows, and it can do each of those.  What follows for runs is proved here
  once.
\<close>

inductive run_of :: "('s \<Rightarrow> 'e \<Rightarrow> 's \<Rightarrow> bool) \<Rightarrow> 's \<Rightarrow> 'e list \<Rightarrow> 's \<Rightarrow> bool" for step where
  stop: "run_of step s [] s"
| more: "run_of step s es s' \<Longrightarrow> step s' e s'' \<Longrightarrow> run_of step s (es @ [e]) s''"

locale bisimulation =
  fixes detailed :: "'s \<Rightarrow> 'e \<Rightarrow> 's \<Rightarrow> bool"
    and plain :: "'a \<Rightarrow> 'e \<Rightarrow> 'a \<Rightarrow> bool"
    and abs :: "'s \<Rightarrow> 'a"
    and inv :: "'s \<Rightarrow> bool"
  assumes step: "inv s \<Longrightarrow> detailed s e s' \<Longrightarrow> plain (abs s) e (abs s') \<and> inv s'"
    and match: "inv s \<Longrightarrow> plain (abs s) e a \<Longrightarrow> \<exists>s'. detailed s e s' \<and> abs s' = a"
begin

lemma run_steps: "run_of detailed s es s' \<Longrightarrow> inv s \<Longrightarrow> run_of plain (abs s) es (abs s') \<and> inv s'"
proof (induction rule: run_of.induct)
  case (more s es s1 e s2)
  then show ?case using step[of s1 e s2] run_of.more[of plain "abs s" es "abs s1" e "abs s2"] by blast
qed (simp add: run_of.stop)

lemma run_matched: "run_of plain a es a' \<Longrightarrow> a = abs s \<Longrightarrow> inv s \<Longrightarrow> \<exists>s'. run_of detailed s es s' \<and> abs s' = a'"
proof (induction rule: run_of.induct)
  case (more a es a1 e a2)
  then obtain s1 where s1: "run_of detailed s es s1" "abs s1 = a1" by blast
  then have "inv s1" using run_steps more.prems(2) by blast
  with match s1 more.hyps(2) obtain s2 where "detailed s1 e s2" "abs s2 = a2" by blast
  then show ?case using run_of.more[OF s1(1)] by blast
qed (auto intro: run_of.stop)

text \<open>So the two have the same runs, as sequences of events.\<close>

lemma same_runs: "inv s \<Longrightarrow> (\<exists>s'. run_of detailed s es s') \<longleftrightarrow> (\<exists>a'. run_of plain (abs s) es a')"
  using run_steps run_matched by blast

end

end
