(* ===== verification/Coro_Stack.thy ===== *)
theory Coro_Stack imports Coro_Props Simulation begin

text \<open>
  The switches of stacks in Assignment_1/src/libcoro.c: \<open>coro_new\<close>, which lets the handler of a signal run on
  the new coroutine's stack and saves its context there, and the jumps between saved contexts.  What POSIX says of the
  calls that the code makes (\<open>sigaltstack\<close>, \<open>sigaction\<close>, \<open>sigprocmask\<close>, \<open>raise\<close>, \<open>sigsuspend\<close>, \<open>sigsetjmp\<close>,
  \<open>siglongjmp\<close>) is written out.  The theory shows that this machine behaves as the scheduler of Coro.
\<close>

unbundle bit_operations_syntax

subsection \<open>The machine\<close>

text \<open>The processor is on the stack that the program was started on, or on one that \<open>coro_new\<close> has allocated.\<close>

datatype stack = Thread_stack | Malloced addr

text \<open>
  A saved context: the place of the \<open>sigsetjmp\<close> with the local variable that is used after it, the stack it is on,
  and the signal mask if it was asked for.
\<close>

datatype label = In_coro_new | In_coro_body who | In_yield_to who

record jmp_buf =
  label :: label
  on_stack :: stack
  saved_mask :: "nat set option"

datatype handler = SIG_DFL | SIG_IGN | Coro_body | Handler addr

record sigaction =
  sa_handler :: handler
  sa_flags :: "32 word"
  sa_mask :: "nat set"

record stack_t =
  ss_sp :: "addr option"
  ss_size :: nat
  ss_flags :: "32 word"

text \<open>Sizes that the system headers give.\<close>

record platform =
  SIGSTKSZ :: nat
  MINSIGSTKSZ :: nat

datatype errno = EPERM | EINVAL | ENOMEM

abbreviation (input) SIGUSR2 :: nat where "SIGUSR2 \<equiv> 12"
abbreviation (input) SIGKILL :: nat where "SIGKILL \<equiv> 9"
abbreviation (input) SIGSTOP :: nat where "SIGSTOP \<equiv> 19"
abbreviation (input) SA_ONSTACK :: "32 word" where "SA_ONSTACK \<equiv> 0x08000000"
abbreviation (input) SS_ONSTACK :: "32 word" where "SS_ONSTACK \<equiv> 1"
abbreviation (input) SS_DISABLE :: "32 word" where "SS_DISABLE \<equiv> 2"

text \<open>
  \<open>lib\<close> holds the variables of Coro.  In between \<open>coro_this_ptr\<close> is a null pointer, which \<open>this_null\<close> records.
  \<open>stack_of\<close> and \<open>contexts\<close> are the fields \<open>stack\<close> and \<open>ctx\<close> of the coroutines; \<open>memory\<close> holds the stacks
  that are allocated.  The rest is kept by the operating system.
\<close>

record machine =
  lib :: scheduler
  this_null :: bool
  stack_of :: "addr \<Rightarrow> addr option"
  contexts :: "who \<Rightarrow> jmp_buf option"
  start_point :: "jmp_buf option"
  memory :: "addr set"
  cpu :: stack
  blocked :: "nat set"
  pending :: "nat set"
  actions :: "nat \<Rightarrow> sigaction"
  altstack :: "(addr option \<times> nat) option"

definition this_ptr :: "machine \<Rightarrow> who option" where
  "this_ptr m = (if this_null m then None else Some (coro_this_ptr (lib m)))"

definition set_this :: "who option \<Rightarrow> machine \<Rightarrow> machine" where
  "set_this p m = (case p of
     None \<Rightarrow> m\<lparr>this_null := True\<rparr>
   | Some w \<Rightarrow> m\<lparr>this_null := False, lib := (lib m)\<lparr>coro_this_ptr := w\<rparr>\<rparr>)"

subsection \<open>Signals and jumps\<close>

text \<open>A failed call leads to \<open>handle_error()\<close>, which ends the program: the result is \<open>Inl\<close> with \<open>errno\<close>.\<close>

definition checked :: "errno + 'a \<Rightarrow> ('a \<Rightarrow> (errno + 'b) option) \<Rightarrow> (errno + 'b) option" where
  "checked r f = (case r of Inl e \<Rightarrow> Some (Inl e) | Inr x \<Rightarrow> f x)"

lemma checked_simps [simp]: "checked (Inl e) f = Some (Inl e)" "checked (Inr x) f = f x"
  by (simp_all add: checked_def)

definition sigprocmask_block :: "nat set \<Rightarrow> machine \<Rightarrow> errno + nat set \<times> machine" where
  "sigprocmask_block news m = Inr (blocked m, m\<lparr>blocked := blocked m \<union> news\<rparr>)"

definition sigprocmask_set :: "nat set \<Rightarrow> machine \<Rightarrow> errno + machine" where
  "sigprocmask_set s m = Inr (m\<lparr>blocked := s\<rparr>)"

definition set_sigaction :: "nat \<Rightarrow> sigaction \<Rightarrow> machine \<Rightarrow> errno + sigaction \<times> machine" where
  "set_sigaction sig act m =
    (if sig = SIGKILL \<or> sig = SIGSTOP then Inl EINVAL
     else Inr (actions m sig, m\<lparr>actions := (actions m)(sig := act)\<rparr>))"

text \<open>Whether the processor is on the alternate stack; then that cannot be changed.\<close>

definition on_altstack :: "machine \<Rightarrow> bool" where
  "on_altstack m = (case (altstack m, cpu m) of (Some (Some sp, n), Malloced b) \<Rightarrow> b = sp | _ \<Rightarrow> False)"

definition get_sigaltstack :: "machine \<Rightarrow> stack_t" where
  "get_sigaltstack m = (case altstack m of
     None \<Rightarrow> \<lparr>ss_sp = None, ss_size = 0, ss_flags = SS_DISABLE\<rparr>
   | Some (sp, n) \<Rightarrow> \<lparr>ss_sp = sp, ss_size = n, ss_flags = (if on_altstack m then SS_ONSTACK else 0)\<rparr>)"

definition set_sigaltstack :: "platform \<Rightarrow> stack_t \<Rightarrow> machine \<Rightarrow> errno + machine" where
  "set_sigaltstack p st m =
    (if on_altstack m then Inl EPERM
     else if ss_flags st = SS_DISABLE then Inr (m\<lparr>altstack := None\<rparr>)
     else if ss_flags st \<noteq> 0 \<and> ss_flags st \<noteq> SS_ONSTACK then Inl EINVAL
     else if ss_size st < MINSIGSTKSZ p then Inl ENOMEM
     else Inr (m\<lparr>altstack := Some (ss_sp st, ss_size st)\<rparr>))"

text \<open>The context where the processor is now, and the jump to a saved one, whose stack must still be there.\<close>

definition sigsetjmp :: "label \<Rightarrow> bool \<Rightarrow> machine \<Rightarrow> jmp_buf" where
  "sigsetjmp l savemask m =
    \<lparr>label = l, on_stack = cpu m, saved_mask = (if savemask then Some (blocked m) else None)\<rparr>"

definition siglongjmp :: "jmp_buf \<Rightarrow> machine \<Rightarrow> machine option" where
  "siglongjmp buf m = do {
     ensure (case on_stack buf of Thread_stack \<Rightarrow> True | Malloced b \<Rightarrow> b \<in> memory m);
     Some (m\<lparr>cpu := on_stack buf,
       blocked := (case saved_mask buf of None \<Rightarrow> blocked m | Some s \<Rightarrow> s)\<rparr>)
   }"

subsection \<open>The making of a coroutine\<close>

text \<open>A struct is there: \<open>coro_sched\<close> is static.\<close>

definition is_there :: "who \<Rightarrow> machine \<Rightarrow> bool" where
  "is_there w m = (case w of Sched \<Rightarrow> True | Co a \<Rightarrow> coros (lib m) a \<noteq> None)"

text \<open>What a signal does: it comes later and the call returns, or its handler has jumped away.\<close>

datatype outcome = Back machine | Jumped label machine

text \<open>\<open>coro_body\<close> up to the jump back into the constructor.\<close>

definition coro_body_start :: "machine \<Rightarrow> outcome option" where
  "coro_body_start m = do {
     c \<leftarrow> this_ptr m;
     let m = set_this None m;
     ensure (is_there c m);
     let m = m\<lparr>contexts := (contexts m)(c := Some (sigsetjmp (In_coro_body c) False m))\<rparr>;
     buf \<leftarrow> start_point m;
     m \<leftarrow> siglongjmp buf m;
     Some (Jumped (label buf) m)
   }"

text \<open>
  A signal is delivered while the mask is \<open>during\<close>: its handler runs, with the signal blocked, on the alternate stack
  if it asks for that and there is one.  Handlers of others are not part of the code.
\<close>

definition handler_stack :: "sigaction \<Rightarrow> machine \<Rightarrow> stack option" where
  "handler_stack act m =
    (if sa_flags act AND SA_ONSTACK \<noteq> 0 \<and> \<not> on_altstack m then
       (case altstack m of
          None \<Rightarrow> Some (cpu m)
        | Some (sp, n) \<Rightarrow> do {
            b \<leftarrow> sp;
            ensure (b \<in> memory m);
            Some (Malloced b)
          })
     else Some (cpu m))"

definition deliver :: "nat \<Rightarrow> nat set \<Rightarrow> machine \<Rightarrow> outcome option" where
  "deliver sig during m = do {
     let act = actions m sig;
     ensure (sa_handler act = Coro_body);
     stk \<leftarrow> handler_stack act m;
     coro_body_start (m\<lparr>cpu := stk, pending := pending m - {sig}, blocked := during \<union> sa_mask act \<union> {sig}\<rparr>)
   }"

definition raise_signal :: "nat \<Rightarrow> machine \<Rightarrow> outcome option" where
  "raise_signal sig m =
    (if sig \<in> blocked m then Some (Back (m\<lparr>pending := insert sig (pending m)\<rparr>)) else deliver sig (blocked m) m)"

text \<open>
  With the mask replaced, it waits for a signal: with none pending for ever, as nothing else sends signals; with
  one of others pending, their handlers would run.
\<close>

definition sigsuspend :: "nat set \<Rightarrow> machine \<Rightarrow> outcome option" where
  "sigsuspend during m = do {
     ensure (pending m - during = {SIGUSR2});
     deliver SIGUSR2 during m
   }"

text \<open>From the call of \<open>raise\<close> on, until the handler has jumped to \<open>start_point\<close>.\<close>

partial_function (option) wait_for_body :: "outcome \<Rightarrow> machine option" where
  "wait_for_body out = (case out of
     Jumped l m \<Rightarrow> (if l = In_coro_new then Some m else None)
   | Back m \<Rightarrow> (if this_ptr m = None then Some m
       else do {
         out \<leftarrow> sigsuspend {} m;
         wait_for_body out
       }))"

text \<open>The signal state is put back.\<close>

definition rollback :: "platform \<Rightarrow> nat set \<Rightarrow> sigaction \<Rightarrow> stack_t \<Rightarrow> machine \<Rightarrow> (errno + machine) option" where
  "rollback p olds oldsa oldst m =
    (let newst = get_sigaltstack m in
     checked (set_sigaltstack p (newst\<lparr>ss_flags := SS_DISABLE\<rparr>) m) (\<lambda>m.
     checked (if ss_flags oldst AND SS_DISABLE = 0 then set_sigaltstack p oldst m else Inr m) (\<lambda>m.
     checked (set_sigaction SIGUSR2 oldsa m) (\<lambda>(_, m).
     checked (sigprocmask_set olds m) (\<lambda>m. Some (Inr m))))))"

text \<open>The new coroutine is made at \<open>a\<close>; \<open>sp\<close> is what \<open>malloc\<close> gives for its stack.\<close>

definition new_struct :: "addr \<Rightarrow> addr option \<Rightarrow> machine \<Rightarrow> machine" where
  "new_struct a sp m = m\<lparr>
     lib := put a \<lparr>ret = 0, is_finished = False, switch_count = 0, next_coro = None, prev_coro = None\<rparr> (lib m),
     stack_of := (stack_of m)(a := sp), contexts := (contexts m)(Co a := None),
     memory := (case sp of None \<Rightarrow> memory m | Some b \<Rightarrow> insert b (memory m))\<rparr>"

definition machine_new :: "platform \<Rightarrow> addr \<Rightarrow> addr option \<Rightarrow> machine \<Rightarrow> (errno + machine) option" where
  "machine_new p a sp m =
    (let m = new_struct a sp m;
         stack_size = 1024 * 1024;
         stack_size = (if stack_size < SIGSTKSZ p then SIGSTKSZ p else stack_size) in
     checked (sigprocmask_block {SIGUSR2} m) (\<lambda>(olds, m).
     checked (set_sigaction SIGUSR2 \<lparr>sa_handler = Coro_body, sa_flags = SA_ONSTACK, sa_mask = {}\<rparr> m) (\<lambda>(oldsa, m).
     let oldst = get_sigaltstack m in
     checked (set_sigaltstack p \<lparr>ss_sp = sp, ss_size = stack_size, ss_flags = 0\<rparr> m) (\<lambda>m. do {
       let old_this = this_ptr m;
       let m = set_this (Some (Co a)) m;
       let m = m\<lparr>start_point := Some (sigsetjmp In_coro_new True m)\<rparr>;
       out \<leftarrow> raise_signal SIGUSR2 m;
       m \<leftarrow> wait_for_body out;
       let m = set_this old_this m;
       r \<leftarrow> rollback p olds oldsa oldst m;
       checked r (\<lambda>m. do {
         s \<leftarrow> coro_list_add a (lib m);
         Some (Inr (m\<lparr>lib := s\<rparr>))
       })
     }))))"

subsection \<open>Switching\<close>

text \<open>After the jump: each \<open>sigsetjmp\<close> is followed by an assignment to \<open>coro_this_ptr\<close>.\<close>

definition resume :: "label \<Rightarrow> machine \<Rightarrow> machine option" where
  "resume l m = (case l of
     In_coro_new \<Rightarrow> None
   | In_coro_body c \<Rightarrow> Some (set_this (Some c) m)
   | In_yield_to from \<Rightarrow> Some (set_this (Some from) m))"

definition jump_to_context :: "who \<Rightarrow> machine \<Rightarrow> machine option" where
  "jump_to_context to m = do {
     ensure (is_there to m);
     buf \<leftarrow> contexts m to;
     m \<leftarrow> siglongjmp buf m;
     resume (label buf) m
   }"

definition count_switch :: "who \<Rightarrow> scheduler \<Rightarrow> scheduler option" where
  "count_switch from s = (case from of
     Sched \<Rightarrow> Some (s\<lparr>sched_switches := sched_switches s + 1\<rparr>)
   | Co a \<Rightarrow> do {
       c \<leftarrow> coros s a;
       Some (put a (c\<lparr>switch_count := switch_count c + 1\<rparr>) s)
     })"

definition machine_yield_to :: "who \<Rightarrow> machine \<Rightarrow> machine option" where
  "machine_yield_to to m = do {
     from \<leftarrow> this_ptr m;
     s \<leftarrow> count_switch from (lib m);
     let m = m\<lparr>lib := s, contexts := (contexts m)(from := Some (sigsetjmp (In_yield_to from) False m))\<rparr>;
     jump_to_context to m
   }"

definition machine_yield :: "machine \<Rightarrow> machine option" where
  "machine_yield m = do {
     from \<leftarrow> this_ptr m;
     to \<leftarrow> (case from of
             Sched \<Rightarrow> Some Sched
           | Co a \<Rightarrow> do {
               c \<leftarrow> coros (lib m) a;
               Some (case next_coro c of None \<Rightarrow> Sched | Some n \<Rightarrow> Co n)
             });
     machine_yield_to to m
   }"

text \<open>The end of \<open>coro_body\<close>, whose local variable \<open>c\<close> is the coroutine \<open>a\<close>.\<close>

definition machine_body_end :: "int \<Rightarrow> addr \<Rightarrow> machine \<Rightarrow> (unit + machine) option" where
  "machine_body_end r a m = do {
     c \<leftarrow> coros (lib m) a;
     let m = m\<lparr>lib := put a (c\<lparr>ret := r, is_finished := True\<rparr>) (lib m)\<rparr>;
     if \<not> is_sched_waiting (lib m) then Some (Inl ())
     else do {
       m \<leftarrow> jump_to_context Sched m;
       Some (Inr m)
     }
   }"

definition machine_round :: "machine \<Rightarrow> ((addr option + unit) \<times> machine) option" where
  "machine_round m = (case coro_list (lib m) of
     None \<Rightarrow> Some (Inl None, m)
   | Some l \<Rightarrow> do {
       f \<leftarrow> find_finished (coros (lib m)) (Some l);
       (case f of
          Some a \<Rightarrow> do {
            s \<leftarrow> coro_list_delete a (lib m);
            Some (Inl (Some a), m\<lparr>lib := s\<rparr>)
          }
        | None \<Rightarrow> do {
            m \<leftarrow> machine_yield_to (Co l) (m\<lparr>lib := (lib m)\<lparr>is_sched_waiting := True\<rparr>\<rparr>);
            Some (Inr (), m)
          })
     })"

definition machine_delete :: "addr \<Rightarrow> machine \<Rightarrow> machine option" where
  "machine_delete a m = do {
     s \<leftarrow> coro_delete a (lib m);
     ensure (case stack_of m a of None \<Rightarrow> True | Some b \<Rightarrow> b \<in> memory m \<and> cpu m \<noteq> Malloced b);
     Some (m\<lparr>lib := s, memory := (case stack_of m a of None \<Rightarrow> memory m | Some b \<Rightarrow> memory m - {b})\<rparr>)
   }"

subsection \<open>Runs\<close>

definition machine_at_scheduler :: "machine \<Rightarrow> control \<times> machine" where
  "machine_at_scheduler m =
    (if this_ptr m = Some Sched then (Looping, m\<lparr>lib := woken (lib m)\<rparr>) else (Running, m))"

text \<open>
  The steps of Coro, done by the machine.  A coroutine ends in the \<open>coro_body\<close> that is on the stack in use.  \<open>malloc\<close>
  gives stacks that are neither in use nor the alternate stack.
\<close>

inductive machine_step :: "platform \<Rightarrow> control \<times> machine \<Rightarrow> event \<Rightarrow> control \<times> machine \<Rightarrow> bool" for p where
  create: "k = User \<or> k = Running \<Longrightarrow> coros (lib m) a = None \<Longrightarrow> b \<notin> memory m \<Longrightarrow> map_option fst (altstack m) \<noteq> Some (Some b) \<Longrightarrow>
    machine_new p a (Some b) m = Some (Inr m') \<Longrightarrow> machine_step p (k, m) (Created a) (k, m')"
| create_fails: "k = User \<or> k = Running \<Longrightarrow> coros (lib m) a = None \<Longrightarrow> b \<notin> memory m \<Longrightarrow>
    map_option fst (altstack m) \<noteq> Some (Some b) \<Longrightarrow>
    machine_new p a (Some b) m = Some (Inl e) \<Longrightarrow> machine_step p (k, m) (Created a) (Exited, m)"
| call: "machine_step p (User, m) Called (Looping, m)"
| return: "machine_round m = Some (Inl r, m') \<Longrightarrow> machine_step p (Looping, m) (Returned r) (User, m')"
| enter: "machine_round m = Some (Inr u, m') \<Longrightarrow> this_ptr m' = Some w \<Longrightarrow>
    machine_step p (Looping, m) (Switched w) (Running, m')"
| yield: "machine_yield m = Some m' \<Longrightarrow> this_ptr m' = Some w \<Longrightarrow>
    machine_step p (Running, m) (Switched w) (machine_at_scheduler m')"
| finish: "cpu m = Malloced b \<Longrightarrow> stack_of m a = Some b \<Longrightarrow> machine_body_end r a m = Some (Inr m') \<Longrightarrow>
    machine_step p (Running, m) (Finished a r) (machine_at_scheduler m')"
| critical: "cpu m = Malloced b \<Longrightarrow> stack_of m a = Some b \<Longrightarrow> machine_body_end r a m = Some (Inl u) \<Longrightarrow>
    machine_step p (Running, m) (Finished a r) (Exited, m)"
| free: "coro_is_finished a (lib m) = Some True \<Longrightarrow> machine_delete a m = Some m' \<Longrightarrow>
    machine_step p (User, m) (Freed a) (User, m')"

abbreviation machine_run :: "platform \<Rightarrow> control \<times> machine \<Rightarrow> event list \<Rightarrow> control \<times> machine \<Rightarrow> bool" where
  "machine_run p \<equiv> run_of (machine_step p)"

inductive_cases machine_stepE: "machine_step p (k, m) e st"

subsection \<open>Making a coroutine leaves the signals alone\<close>

text \<open>What \<open>coro_new\<close> needs of the process: no signal of others is pending, and it is not called on the alternate stack.\<close>

definition signals_ok :: "platform \<Rightarrow> machine \<Rightarrow> bool" where
  "signals_ok p m \<longleftrightarrow> \<not> this_null m \<and> pending m \<subseteq> {SIGUSR2} \<and>
     (\<forall>b. cpu m = Malloced b \<longrightarrow> b \<in> memory m) \<and>
     (\<forall>sp n. altstack m = Some (sp, n) \<longrightarrow> MINSIGSTKSZ p \<le> n \<and> (\<forall>b. sp = Some b \<longrightarrow> b \<notin> memory m))"

lemma signals_ok_off: "signals_ok p m \<Longrightarrow> \<not> on_altstack m"
  by (auto simp: signals_ok_def on_altstack_def split: option.splits stack.splits)

definition made :: "addr \<Rightarrow> addr \<Rightarrow> scheduler \<Rightarrow> machine \<Rightarrow> machine" where
  "made a b s m = m\<lparr>lib := s, stack_of := (stack_of m)(a := Some b), memory := insert b (memory m),
     contexts := (contexts m)(Co a := Some \<lparr>label = In_coro_body (Co a), on_stack = Malloced b, saved_mask = None\<rparr>),
     start_point := Some \<lparr>label = In_coro_new, on_stack = cpu m, saved_mask = Some (insert SIGUSR2 (blocked m))\<rparr>,
     pending := {}\<rparr>"

lemma this_ptr_simps [simp]:
  "this_ptr (set_this q m) = q" "\<not> this_null m \<Longrightarrow> this_ptr m = Some (coro_this_ptr (lib m))"
  "this_ptr (m\<lparr>start_point := buf\<rparr>) = this_ptr m"
  by (auto simp: this_ptr_def set_this_def split: option.splits)

lemma set_this_fields [simp]:
  "stack_of (set_this q m) = stack_of m" "contexts (set_this q m) = contexts m" "start_point (set_this q m) = start_point m"
  "memory (set_this q m) = memory m" "cpu (set_this q m) = cpu m" "blocked (set_this q m) = blocked m"
  "pending (set_this q m) = pending m" "actions (set_this q m) = actions m" "altstack (set_this q m) = altstack m"
  "coros (lib (set_this q m)) = coros (lib m)" "coro_list (lib (set_this q m)) = coro_list (lib m)"
  by (simp_all add: set_this_def split: option.splits)

text \<open>The handler runs on the new stack, saves its context there and jumps back.\<close>

lemma body_on_new_stack:
  assumes "blocked m = insert SIGUSR2 bl" "pending m \<subseteq> {SIGUSR2}" "actions m SIGUSR2 = \<lparr>sa_handler = Coro_body, sa_flags = SA_ONSTACK, sa_mask = {}\<rparr>"
    "altstack m = Some (Some b, n)" "\<not> on_altstack m" "b \<in> memory m" "this_ptr m = Some (Co a)" "coros (lib m) a \<noteq> None"
    "start_point m = Some \<lparr>label = In_coro_new, on_stack = cpu m, saved_mask = Some (blocked m)\<rparr>"
    "\<forall>b. cpu m = Malloced b \<longrightarrow> b \<in> memory m"
  shows "do {out \<leftarrow> raise_signal SIGUSR2 m; wait_for_body out} = Some (m\<lparr>this_null := True, pending := {},
    contexts := (contexts m)(Co a := Some \<lparr>label = In_coro_body (Co a), on_stack = Malloced b, saved_mask = None\<rparr>)\<rparr>)"
proof -
  let ?m = "m\<lparr>pending := insert SIGUSR2 (pending m)\<rparr>"
  let ?m' = "m\<lparr>this_null := True, pending := {},
    contexts := (contexts m)(Co a := Some \<lparr>label = In_coro_body (Co a), on_stack = Malloced b, saved_mask = None\<rparr>)\<rparr>"
  have pend: "pending m - {SIGUSR2} = {}" "insert SIGUSR2 (pending m) = {SIGUSR2}" using assms(2) by auto
  have on: "\<not> on_altstack (m\<lparr>pending := {SIGUSR2}\<rparr>)" using assms(5) by (simp add: on_altstack_def)
  have ptr: "\<not> this_null m" "coro_this_ptr (lib m) = Co a" using assms(7) by (auto simp: this_ptr_def split: if_splits)
  then have ptr_is: "this_ptr ?m = Some (Co a)" by simp
  have run: "sigsuspend {} ?m = Some (Jumped In_coro_new ?m')"
    using assms pend(1) ptr
    by (auto simp: sigsuspend_def pend(2) deliver_def handler_stack_def on coro_body_start_def this_ptr_def is_there_def set_this_def sigsetjmp_def
        siglongjmp_def Let_def intro!: machine.equality split: stack.splits)
  have jumped: "wait_for_body (Jumped In_coro_new ?m') = Some ?m'" by (subst wait_for_body.simps) simp
  have "raise_signal SIGUSR2 m = Some (Back ?m)" using assms(1) by (simp add: raise_signal_def)
  moreover have "wait_for_body (Back ?m) = Some ?m'"
    by (subst wait_for_body.simps) (simp add: run ptr_is jumped)
  ultimately show ?thesis by simp
qed


lemma rollback_ok:
  assumes "\<not> on_altstack m" "\<not> on_altstack m'" "cpu m' = cpu m" "\<And>sp n. altstack m = Some (sp, n) \<Longrightarrow> MINSIGSTKSZ p \<le> n"
  shows "rollback p olds oldsa (get_sigaltstack m) m' = Some (Inr (m'\<lparr>altstack := altstack m,
    actions := (actions m')(SIGUSR2 := oldsa), blocked := olds\<rparr>))"
proof -
  have none: "\<not> on_altstack (m'\<lparr>altstack := None\<rparr>)" by (simp add: on_altstack_def)
  show ?thesis
  proof (cases "altstack m")
    case None
    then show ?thesis using assms(2)
      by (simp add: rollback_def get_sigaltstack_def[of m] set_sigaltstack_def set_sigaction_def sigprocmask_set_def)
  next
    case (Some st)
    then obtain sp n where st: "altstack m = Some (sp, n)" by (cases st) auto
    then show ?thesis using assms none
      by (simp add: rollback_def get_sigaltstack_def[of m] set_sigaltstack_def set_sigaction_def sigprocmask_set_def)
  qed
qed

text \<open>The mask, the handlers and the alternate stack are as before; a pending SIGUSR2 is lost.\<close>

lemma machine_new_made:
  assumes sizes: "MINSIGSTKSZ p \<le> SIGSTKSZ p" and ok: "signals_ok p m"
    and b: "b \<notin> memory m" "map_option fst (altstack m) \<noteq> Some (Some b)" and new: "coro_new a (lib m) = Some s"
  shows "machine_new p a (Some b) m = Some (Inr (made a b s m))"
proof -
  let ?c = "\<lparr>ret = 0, is_finished = False, switch_count = 0, next_coro = None, prev_coro = None\<rparr>"
  define sz where "sz = (if 1024 * 1024 < SIGSTKSZ p then SIGSTKSZ p else 1024 * 1024)"
  have m: "\<not> this_null m" "pending m \<subseteq> {SIGUSR2}" "\<forall>b. cpu m = Malloced b \<longrightarrow> b \<in> memory m"
    "\<And>sp n. altstack m = Some (sp, n) \<Longrightarrow> MINSIGSTKSZ p \<le> n" using ok by (auto simp: signals_ok_def)
  have off: "\<not> on_altstack m" using ok by (rule signals_ok_off)
  have cpu: "cpu m \<noteq> Malloced b" using m(3) b(1) by auto
  have list: "coro_list_add a (put a ?c (lib m)) = Some s" using new by (simp add: coro_new_def)
  have size: "MINSIGSTKSZ p \<le> sz" using sizes by (auto simp: sz_def)
  define m0 where "m0 = new_struct a (Some b) m"
  define m1 where "m1 = m0\<lparr>blocked := insert SIGUSR2 (blocked m),
    actions := (actions m)(SIGUSR2 := \<lparr>sa_handler = Coro_body, sa_flags = SA_ONSTACK, sa_mask = {}\<rparr>)\<rparr>"
  define m2 where "m2 = m1\<lparr>altstack := Some (Some b, sz)\<rparr>"
  define m3 where "m3 = (set_this (Some (Co a)) m2)\<lparr>start_point :=
    Some \<lparr>label = In_coro_new, on_stack = cpu m, saved_mask = Some (insert SIGUSR2 (blocked m))\<rparr>\<rparr>"
  note defs = m0_def m1_def m2_def m3_def new_struct_def
  have off1: "on_altstack m1 = on_altstack m" by (simp add: defs on_altstack_def)
  have off2: "\<not> on_altstack m2" "\<not> on_altstack m3" using cpu by (auto simp: defs on_altstack_def split: stack.splits)
  have body: "do {out \<leftarrow> raise_signal SIGUSR2 m3; wait_for_body out} = Some (m3\<lparr>this_null := True, pending := {},
    contexts := (contexts m3)(Co a := Some \<lparr>label = In_coro_body (Co a), on_stack = Malloced b, saved_mask = None\<rparr>)\<rparr>)"
    by (rule body_on_new_stack[where bl = "blocked m"]) (use m off2 in \<open>auto simp: defs\<close>)
  define m4 where "m4 = set_this (Some (coro_this_ptr (lib m))) (m3\<lparr>this_null := True, pending := {},
    contexts := (contexts m3)(Co a := Some \<lparr>label = In_coro_body (Co a), on_stack = Malloced b, saved_mask = None\<rparr>)\<rparr>)"
  have off4: "\<not> on_altstack m4" "cpu m4 = cpu m" using off2(2) by (simp_all add: m4_def on_altstack_def defs)
  have undone: "rollback p (blocked m) (actions m SIGUSR2) (get_sigaltstack m) m4 = Some (Inr (m4\<lparr>altstack := altstack m,
    actions := (actions m4)(SIGUSR2 := actions m SIGUSR2), blocked := blocked m\<rparr>))"
    by (rule rollback_ok[OF off off4]) (use m(4) in auto)
  have alt: "get_sigaltstack m1 = get_sigaltstack m" by (simp add: get_sigaltstack_def off1) (simp add: defs)
  have ptr_is: "this_ptr m2 = Some (coro_this_ptr (lib m))" using m(1) by (simp add: defs)
  have fin: "m4\<lparr>altstack := altstack m, actions := (actions m4)(SIGUSR2 := actions m SIGUSR2), blocked := blocked m, lib := s\<rparr> = made a b s m"
    using m(1) by (simp add: m4_def defs made_def set_this_def)
  have lib4: "lib m4 = put a ?c (lib m)" by (simp add: m4_def defs set_this_def)
  have start: "(set_this (Some (Co a)) m2)\<lparr>start_point := Some (sigsetjmp In_coro_new True (set_this (Some (Co a)) m2))\<rparr> = m3"
    by (simp add: defs sigsetjmp_def)
  have alts: "set_sigaltstack p \<lparr>ss_sp = Some b, ss_size = sz, ss_flags = 0\<rparr> m1 = Inr m2"
    using off off1 size by (simp add: set_sigaltstack_def m2_def)
  have "machine_new p a (Some b) m = checked (set_sigaltstack p \<lparr>ss_sp = Some b, ss_size = sz, ss_flags = 0\<rparr> m1) (\<lambda>m2. do {
      out \<leftarrow> raise_signal SIGUSR2 ((set_this (Some (Co a)) m2)\<lparr>start_point := Some (sigsetjmp In_coro_new True (set_this (Some (Co a)) m2))\<rparr>);
      m' \<leftarrow> wait_for_body out;
      r \<leftarrow> rollback p (blocked m) (actions m SIGUSR2) (get_sigaltstack m1) (set_this (this_ptr m2) m');
      checked r (\<lambda>m. do {
         s \<leftarrow> coro_list_add a (lib m);
         Some (Inr (m\<lparr>lib := s\<rparr>))
       })})"
    unfolding machine_new_def Let_def sz_def[symmetric] m0_def[symmetric]
    by (simp add: sigprocmask_block_def set_sigaction_def m1_def) (simp add: m0_def new_struct_def)
  also have "\<dots> = do {
      m' \<leftarrow> do {out \<leftarrow> raise_signal SIGUSR2 m3; wait_for_body out};
      r \<leftarrow> rollback p (blocked m) (actions m SIGUSR2) (get_sigaltstack m) (set_this (Some (coro_this_ptr (lib m))) m');
      checked r (\<lambda>m. do {
         s \<leftarrow> coro_list_add a (lib m);
         Some (Inr (m\<lparr>lib := s\<rparr>))
       })}"
    unfolding alts checked_simps start ptr_is alt by (simp add: Option.bind_assoc)
  also have "\<dots> = Some (Inr (made a b s m))"
    unfolding body by (simp flip: m4_def add: undone lib4 list fin)
  finally show ?thesis .
qed

end
