(* ===== verification/Coro_Machine.thy ===== *)
theory Coro_Machine imports Coro_Stack begin

text \<open>
  The machine of Coro_Stack behaves as the scheduler of Coro: the invariant of its stacks, that each operation keeps it
  and does what the operation of Coro does, and what follows for runs.
\<close>

subsection \<open>The invariant of the stacks\<close>

definition own_stack :: "machine \<Rightarrow> who \<Rightarrow> stack" where
  "own_stack m w = (case w of Sched \<Rightarrow> Thread_stack
     | Co a \<Rightarrow> (case stack_of m a of None \<Rightarrow> Thread_stack | Some b \<Rightarrow> Malloced b))"

text \<open>A context that can be jumped to: on the stack of whoever it belongs to.\<close>

definition context_ok :: "machine \<Rightarrow> who \<Rightarrow> bool" where
  "context_ok m w \<longleftrightarrow> (\<exists>l. (l = In_yield_to w \<or> l = In_coro_body w) \<and>
     contexts m w = Some \<lparr>label = l, on_stack = own_stack m w, saved_mask = None\<rparr>)"

definition suspended :: "scheduler \<Rightarrow> who \<Rightarrow> bool" where
  "suspended s w \<longleftrightarrow> w \<noteq> coro_this_ptr s \<and> (case w of Sched \<Rightarrow> True | Co a \<Rightarrow> alive s a)"

text \<open>
  The processor is on the stack of the coroutine that \<open>coro_this_ptr\<close> names; each coroutine has a stack of its own; and
  the scheduler and every coroutine that is not running and has not ended has a context there.
\<close>

definition stacks_ok :: "platform \<Rightarrow> machine \<Rightarrow> bool" where
  "stacks_ok p m \<longleftrightarrow> signals_ok p m \<and> finite (memory m) \<and> cpu m = own_stack m (coro_this_ptr (lib m)) \<and>
     (\<forall>a \<in> dom (views (lib m)). \<exists>b \<in> memory m. stack_of m a = Some b) \<and>
     inj_on (stack_of m) (dom (views (lib m))) \<and>
     (\<forall>w. suspended (lib m) w \<longrightarrow> context_ok m w)"

definition same_signals :: "machine \<Rightarrow> machine \<Rightarrow> bool" where
  "same_signals m m' \<longleftrightarrow> blocked m' = blocked m \<and> actions m' = actions m \<and> altstack m' = altstack m"

lemma own_stack_cong: "stack_of m' = stack_of m \<Longrightarrow> own_stack m' = own_stack m"
  by (intro ext) (simp add: own_stack_def split: who.split)

lemma own_stack_upd [simp]:
  "own_stack (m\<lparr>lib := s\<rparr>) = own_stack m" "own_stack (m\<lparr>contexts := c\<rparr>) = own_stack m"
  "own_stack (m\<lparr>cpu := t\<rparr>) = own_stack m" "own_stack (m\<lparr>this_null := n\<rparr>) = own_stack m"
  "own_stack (m\<lparr>memory := b\<rparr>) = own_stack m"
  by (rule own_stack_cong, simp)+

text \<open>Only the scheduler's own variables change.\<close>

lemma stacks_ok_lib:
  assumes "stacks_ok p m" "views s = views (lib m)" "coro_this_ptr s = coro_this_ptr (lib m)"
  shows "stacks_ok p (m\<lparr>lib := s\<rparr>)" "same_signals m (m\<lparr>lib := s\<rparr>)"
proof -
  have al: "alive s = alive (lib m)" by (rule views_cong(2)[OF assms(2)])
  show "stacks_ok p (m\<lparr>lib := s\<rparr>)"
    using assms unfolding stacks_ok_def suspended_def by (simp add: al context_ok_def signals_ok_def cong: who.case_cong)
qed (simp add: same_signals_def)

lemma count_switch_views:
  assumes "count_switch w s = Some s'"
  shows "dom (views s') = dom (views s)" "alive s' = alive s" "coro_this_ptr s' = coro_this_ptr s"
    "\<And>x. coros s' x = None \<longleftrightarrow> coros s x = None"
  using assms
  by (auto simp: count_switch_def views_put views_def view_def alive_def fun_eq_iff split: who.splits Option.bind_splits if_splits)

lemma coro_yield_to_split:
  "coro_yield_to to s = do {s \<leftarrow> count_switch (coro_this_ptr s) s; jump to s}"
  by (simp add: coro_yield_to_def count_switch_def)

lemma stacks_ok_memory: "stacks_ok p m \<Longrightarrow> a \<in> dom (views (lib m)) \<Longrightarrow> \<exists>b \<in> memory m. own_stack m (Co a) = Malloced b"
  by (force simp: stacks_ok_def own_stack_def)

text \<open>A jump lands on the stack of its target.\<close>

lemma jump_to_context_ok:
  assumes "context_ok m to" "is_there to m" "\<forall>b. own_stack m to = Malloced b \<longrightarrow> b \<in> memory m"
  shows "jump_to_context to m = Some (m\<lparr>cpu := own_stack m to, this_null := False, lib := (lib m)\<lparr>coro_this_ptr := to\<rparr>\<rparr>)"
  using assms by (auto simp: context_ok_def jump_to_context_def siglongjmp_def resume_def set_this_def split: stack.splits)

lemma yield_to_machine:
  assumes ok: "stacks_ok p m" and run: "coro_yield_to to (lib m) = Some s"
    and al: "case to of Sched \<Rightarrow> True | Co a \<Rightarrow> alive (lib m) a"
  shows "\<exists>m'. machine_yield_to to m = Some m' \<and> lib m' = s \<and> stacks_ok p m' \<and> same_signals m m'"
proof -
  let ?from = "coro_this_ptr (lib m)"
  obtain s0 where s0: "count_switch ?from (lib m) = Some s0" "jump to s0 = Some s"
    using run by (auto simp: coro_yield_to_split split: Option.bind_splits)
  then have s: "s = s0\<lparr>coro_this_ptr := to\<rparr>" "case to of Sched \<Rightarrow> True | Co a \<Rightarrow> coros s0 a \<noteq> None"
    by (auto simp: jump_def split: who.splits Option.bind_splits)
  note v = count_switch_views[OF s0(1)]
  let ?m1 = "m\<lparr>lib := s0, contexts := (contexts m)(?from := Some (sigsetjmp (In_yield_to ?from) False m))\<rparr>"
  let ?m2 = "?m1\<lparr>cpu := own_stack m to, this_null := False, lib := s\<rparr>"
  have null: "\<not> this_null m" "cpu m = own_stack m ?from" using ok by (auto simp: stacks_ok_def signals_ok_def)
  have ctx: "context_ok ?m1 w" if "w = ?from \<or> suspended (lib m) w" for w
    using that ok null by (auto simp: context_ok_def sigsetjmp_def stacks_ok_def)
  have there: "is_there to ?m1" using s(2) by (auto simp: is_there_def split: who.splits)
  have mem: "\<forall>b. own_stack m to = Malloced b \<longrightarrow> b \<in> memory m"
  proof (cases to)
    case (Co a)
    with al have "a \<in> dom (views (lib m))" by (auto simp: alive_def)
    with stacks_ok_memory[OF ok this] Co show ?thesis by auto
  qed (simp add: own_stack_def)
  have "jump_to_context to ?m1 = Some (?m1\<lparr>cpu := own_stack ?m1 to, this_null := False, lib := (lib ?m1)\<lparr>coro_this_ptr := to\<rparr>\<rparr>)"
    by (rule jump_to_context_ok) (use ctx al there mem in \<open>auto simp: suspended_def\<close>)
  then have "jump_to_context to ?m1 = Some ?m2" by (simp add: s(1))
  then have run: "machine_yield_to to m = Some ?m2" using null s0(1) by (simp add: machine_yield_to_def)
  have al': "views s = views s0" by (simp add: s(1))
  have al'': "alive s = alive (lib m)" using views_cong(2)[OF al'] v(2) by simp
  have "context_ok ?m2 w" if "suspended s w" for w
  proof -
    have "w = ?from \<or> suspended (lib m) w" using that al'' by (cases w) (auto simp: suspended_def)
    from ctx[OF this] show ?thesis by (simp add: context_ok_def)
  qed
  then have "stacks_ok p ?m2" using ok v(1) al' mem
    by (simp add: stacks_ok_def signals_ok_def) (simp add: s(1))
  then show ?thesis using run by (intro exI[of _ ?m2]) (simp add: same_signals_def)
qed

subsection \<open>Each operation of the machine is the one of Coro\<close>

lemma listed_alive: "coro_ok Running s as \<Longrightarrow> a \<in> set as \<Longrightarrow> alive s a"
  using alive_or_finished[of s as a] by (auto simp: coro_ok_def filter_empty_conv)

lemma yield_machine:
  assumes ok: "coro_ok Running (lib m) as" "stacks_ok p m" and run: "coro_yield (lib m) = Some s"
  shows "\<exists>m'. machine_yield m = Some m' \<and> lib m' = s \<and> stacks_ok p m' \<and> same_signals m m'"
proof -
  obtain i where i: "i < length as" "coro_this_ptr (lib m) = Co (as ! i)"
    using ok(1) by (auto simp: coro_ok_def) (metis in_set_conv_nth)
  have l: "listed (lib m) as" using ok(1) by (simp add: coro_ok_def)
  obtain c where c: "coros (lib m) (as ! i) = Some c" using listed_cell[OF l, of "as ! i"] i(1) by auto
  define to where "to = (case next_coro c of None \<Rightarrow> Sched | Some n \<Rightarrow> Co n)"
  have "next_coro c = (if Suc i < length as then Some (as ! Suc i) else None)" by (rule listed_next[OF l i(1) c])
  then have al: "case to of Sched \<Rightarrow> True | Co a \<Rightarrow> alive (lib m) a"
    using listed_alive[OF ok(1), of "as ! Suc i"] by (auto simp: to_def)
  have null: "\<not> this_null m" using ok(2) by (simp add: stacks_ok_def signals_ok_def)
  have "coro_yield_to to (lib m) = Some s" using run i(2) c by (simp add: coro_yield_def to_def)
  from yield_to_machine[OF ok(2) this al] null i(2) c show ?thesis by (simp add: machine_yield_def to_def)
qed

lemma round_machine:
  assumes ok: "coro_ok Looping (lib m) as" "stacks_ok p m" and run: "sched_round (lib m) = Some (r, s)"
  shows "\<exists>m'. machine_round m = Some (r, m') \<and> lib m' = s \<and> stacks_ok p m' \<and> same_signals m m'"
proof (cases "coro_list (lib m)")
  case None
  then show ?thesis using run ok(2) by (simp add: sched_round_def machine_round_def same_signals_def)
next
  case (Some l)
  have ls: "listed (lib m) as" using ok(1) by (simp add: coro_ok_def)
  then have "as \<noteq> []" and hd: "hd as = l" using listed_first[OF ls] Some by (auto split: if_splits)
  then have l: "l \<in> set as" by auto
  have f: "find_finished (coros (lib m)) (Some l) = Some (find (finished (lib m)) as)"
    using find_finished_list[OF ls] Some by simp
  show ?thesis
  proof (cases "find (finished (lib m)) as")
    case found: (Some a)
    then obtain us vs where as: "as = us @ a # vs" by (blast dest: find_split)
    from coro_list_delete_listed[OF ls[unfolded as]] obtain s' where s': "coro_list_delete a (lib m) = Some s'"
      "views s' = views (lib m)" "coro_this_ptr s' = coro_this_ptr (lib m)" by blast
    have "r = Inl (Some a)" "s = s'" using run Some f found s'(1) by (auto simp: sched_round_def)
    then show ?thesis using Some f found s' stacks_ok_lib[OF ok(2) s'(2,3)] by (simp add: machine_round_def)
  next
    case none: None
    then have "\<not> finished (lib m) l" using l by (auto simp: find_None_iff)
    then have al: "alive (lib m) l" using alive_or_finished[OF ls l] by simp
    let ?m = "m\<lparr>lib := (lib m)\<lparr>is_sched_waiting := True\<rparr>\<rparr>"
    have run': "r = Inr ()" "coro_yield_to (Co l) (lib ?m) = Some s"
      using run Some f none by (auto simp: sched_round_def split: Option.bind_splits)
    have m: "stacks_ok p ?m" "same_signals m ?m" by (rule stacks_ok_lib[OF ok(2)]; simp)+
    have "alive (lib ?m) l" using al by (simp add: alive_def)
    with yield_to_machine[OF m(1) run'(2)] obtain m' where
      "machine_yield_to (Co l) ?m = Some m'" "lib m' = s" "stacks_ok p m'" "same_signals ?m m'" by auto
    then show ?thesis using Some f none run'(1) m(2) by (auto simp: machine_round_def same_signals_def)
  qed
qed

lemma end_machine:
  assumes ok: "coro_ok Running (lib m) as" "stacks_ok p m" and a: "coro_this_ptr (lib m) = Co a"
  shows "\<exists>m'. machine_body_end r a m = Some (Inr m') \<and> coro_body_end r (lib m) = Some (Inr (lib m')) \<and>
    stacks_ok p m' \<and> same_signals m m'"
proof -
  from end_ok[OF ok(1), of r] a obtain s v n where s: "coro_body_end r (lib m) = Some (Inr s)"
    "views (lib m) a = Some (v, False, n)" "views s = (views (lib m))(a \<mapsto> (r, True, n))" "coro_this_ptr s = Sched"
    "is_sched_waiting s" by auto
  then obtain c where c: "coros (lib m) a = Some c" "is_sched_waiting (lib m)"
    "s = (put a (c\<lparr>ret := r, is_finished := True\<rparr>) (lib m))\<lparr>coro_this_ptr := Sched\<rparr>"
    using a by (auto simp: coro_body_end_def jump_def Let_def split: Option.bind_splits if_splits)
  let ?m1 = "m\<lparr>lib := put a (c\<lparr>ret := r, is_finished := True\<rparr>) (lib m)\<rparr>"
  let ?m2 = "?m1\<lparr>cpu := Thread_stack, this_null := False, lib := s\<rparr>"
  have "context_ok m Sched" using ok(2) a by (auto simp: stacks_ok_def suspended_def)
  then have "context_ok ?m1 Sched" by (simp add: context_ok_def)
  then have "jump_to_context Sched ?m1 = Some (?m1\<lparr>cpu := own_stack ?m1 Sched, this_null := False, lib := (lib ?m1)\<lparr>coro_this_ptr := Sched\<rparr>\<rparr>)"
    by (intro jump_to_context_ok) (simp_all add: is_there_def own_stack_def)
  then have "jump_to_context Sched ?m1 = Some ?m2" by (simp add: own_stack_def c(3))
  then have run: "machine_body_end r a m = Some (Inr ?m2)" using c(1,2) by (simp add: machine_body_end_def Let_def)
  have dom: "dom (views s) = dom (views (lib m))" using s(2) by (auto simp: s(3))
  have al: "alive (lib m) x \<and> x \<noteq> a" if "alive s x" for x using that by (auto simp: alive_def s(3) split: if_splits)
  have "context_ok ?m2 w" if "suspended s w" for w
  proof -
    have "suspended (lib m) w" using that al a s(4) by (cases w) (auto simp: suspended_def)
    then show ?thesis using ok(2) by (auto simp: stacks_ok_def context_ok_def)
  qed
  then have "stacks_ok p ?m2" using ok(2) dom by (simp add: stacks_ok_def signals_ok_def s(4)) (simp add: own_stack_def)
  then show ?thesis using run s(1) by (intro exI[of _ ?m2]) (simp add: same_signals_def)
qed

lemma inj_on_fun_upd_new:
  assumes "inj_on f A" "a \<notin> A" "\<And>x. x \<in> A \<Longrightarrow> f x \<noteq> v"
  shows "inj_on (f(a := v)) (insert a A)"
  using assms by (auto simp: inj_on_def)

lemma new_machine:
  assumes sizes: "MINSIGSTKSZ p \<le> SIGSTKSZ p" and ok: "coro_ok k (lib m) as" "stacks_ok p m" and new: "coro_new a (lib m) = Some s"
    and a: "coros (lib m) a = None" and b: "b \<notin> memory m" "map_option fst (altstack m) \<noteq> Some (Some b)"
  shows "machine_new p a (Some b) m = Some (Inr (made a b s m))" "stacks_ok p (made a b s m)" "same_signals m (made a b s m)"
proof -
  have sig: "signals_ok p m" using ok(2) by (simp add: stacks_ok_def)
  show "machine_new p a (Some b) m = Some (Inr (made a b s m))" by (rule machine_new_made[OF sizes sig b new])
  show "same_signals m (made a b s m)" by (simp add: same_signals_def made_def)
  have "listed (lib m) as" using ok(1) by (simp add: coro_ok_def)
  from coro_new_listed[OF this a] new have s: "views s = (views (lib m))(a \<mapsto> (0, False, 0))" "coro_this_ptr s = coro_this_ptr (lib m)" by auto
  have ad: "a \<notin> dom (views (lib m))" using a by (simp add: domIff views_def)
  have this_dom: "x \<in> dom (views (lib m))" if "coro_this_ptr (lib m) = Co x" for x
  proof -
    have "k = Running" using that ok(1) by (auto simp: coro_ok_def split: control.splits)
    with that ok(1) have "x \<in> set as" by (auto simp: coro_ok_def)
    with \<open>k = Running\<close> ok(1) have "alive (lib m) x" using listed_alive by blast
    then show ?thesis by (auto simp: alive_def)
  qed
  have own: "own_stack (made a b s m) w = (if w = Co a then Malloced b else own_stack m w)" for w
    by (simp add: own_stack_def made_def split: who.split)
  have fresh: "stack_of m x \<noteq> Some b" if "x \<in> dom (views (lib m))" for x
    using that ok(2) b(1) by (force simp: stacks_ok_def)
  have "inj_on ((stack_of m)(a := Some b)) (insert a (dom (views (lib m))))"
    by (rule inj_on_fun_upd_new[OF _ ad fresh]) (use ok(2) in \<open>simp add: stacks_ok_def\<close>)
  then have inj: "inj_on (stack_of (made a b s m)) (dom (views s))" by (simp add: made_def s(1))
  have ctx: "context_ok (made a b s m) w" if "suspended s w" for w
  proof (cases "w = Co a")
    case True
    then show ?thesis by (auto simp: context_ok_def own) (simp add: made_def)
  next
    case False
    then have "suspended (lib m) w" using that by (cases w) (auto simp: suspended_def s alive_def split: if_splits)
    then show ?thesis using ok(2) False by (auto simp: stacks_ok_def context_ok_def own) (simp_all add: made_def)
  qed
  have cpu: "cpu m = own_stack (made a b s m) (coro_this_ptr s)"
    using ok(2) this_dom ad by (auto simp: own s(2) stacks_ok_def)
  have "signals_ok p (made a b s m)" using sig b by (auto simp: signals_ok_def made_def)
  then show "stacks_ok p (made a b s m)"
    using ok(2) inj ctx cpu by (auto simp: stacks_ok_def s(1)) (auto simp: made_def s(1))
qed

lemma delete_machine:
  assumes ok: "coro_ok User (lib m) as" "stacks_ok p m" and fin: "coro_is_finished a (lib m) = Some True"
  shows "\<exists>m'. machine_delete a m = Some m' \<and> coro_delete a (lib m) = Some (lib m') \<and> stacks_ok p m' \<and> same_signals m m'"
proof -
  let ?s = "(lib m)\<lparr>coros := (coros (lib m))(a := None)\<rparr>"
  have del: "coro_delete a (lib m) = Some ?s" using fin by (auto simp: coro_delete_def coro_is_finished_def)
  have v: "views ?s = (views (lib m))(a := None)" by (auto simp: views_def fun_eq_iff)
  have dom: "a \<in> dom (views (lib m))" using fin by (auto simp: coro_is_finished_views)
  then obtain b where b: "stack_of m a = Some b" "b \<in> memory m" using ok(2) by (auto simp: stacks_ok_def)
  have sched: "coro_this_ptr (lib m) = Sched" using ok(1) by (simp add: coro_ok_def)
  then have cpu: "cpu m = Thread_stack" using ok(2) by (simp add: stacks_ok_def own_stack_def)
  let ?m = "m\<lparr>lib := ?s, memory := memory m - {b}\<rparr>"
  have run: "machine_delete a m = Some ?m" using del b cpu by (simp add: machine_delete_def)
  have others: "stack_of m x \<noteq> Some b" if "x \<in> dom (views (lib m))" "x \<noteq> a" for x
  proof
    assume "stack_of m x = Some b"
    moreover have "inj_on (stack_of m) (dom (views (lib m)))" using ok(2) by (simp add: stacks_ok_def)
    ultimately have "x = a" using that(1) dom b(1) by (metis inj_onD)
    then show False using that(2) by simp
  qed
  have stacks: "\<exists>b' \<in> memory m - {b}. stack_of m x = Some b'" if "x \<in> dom (views ?s)" for x
  proof -
    have x: "x \<in> dom (views (lib m))" "x \<noteq> a" using that by (auto simp: v)
    then obtain b' where "b' \<in> memory m" "stack_of m x = Some b'" using ok(2) by (auto simp: stacks_ok_def)
    with others[OF x] show ?thesis by auto
  qed
  have inj: "inj_on (stack_of m) (dom (views ?s))" using ok(2) by (auto simp: stacks_ok_def v intro: inj_on_subset)
  have ctx: "context_ok ?m w" if "suspended ?s w" for w
  proof -
    have "suspended (lib m) w" using that by (cases w) (auto simp: suspended_def alive_def v split: if_splits)
    then show ?thesis using ok(2) by (auto simp: stacks_ok_def context_ok_def)
  qed
  have "signals_ok p ?m" using ok(2) cpu by (auto simp: stacks_ok_def signals_ok_def)
  then have "stacks_ok p ?m" using ok(2) stacks inj ctx by (simp add: stacks_ok_def)
  then show ?thesis using run del by (intro exI[of _ ?m]) (simp add: same_signals_def)
qed

subsection \<open>Runs of the machine are runs of Coro\<close>

lemma same_signals_trans: "same_signals m m' \<Longrightarrow> same_signals m' m'' \<Longrightarrow> same_signals m m''"
  by (simp add: same_signals_def)

lemma at_scheduler_machine:
  assumes "stacks_ok p m"
  shows "fst (machine_at_scheduler m) = fst (at_scheduler (lib m))"
    "lib (snd (machine_at_scheduler m)) = snd (at_scheduler (lib m))"
    "stacks_ok p (snd (machine_at_scheduler m))" "same_signals m (snd (machine_at_scheduler m))"
  using assms stacks_ok_lib[OF assms, of "woken (lib m)"]
  by (auto simp: machine_at_scheduler_def at_scheduler_def stacks_ok_def signals_ok_def woken_def same_signals_def)

lemma running_stack:
  assumes ok: "coro_ok Running (lib m) as" "stacks_ok p m" and cpu: "cpu m = Malloced b" "stack_of m a = Some b"
    and a: "coros (lib m) a \<noteq> None"
  shows "coro_this_ptr (lib m) = Co a"
proof -
  obtain x where x: "coro_this_ptr (lib m) = Co x" "x \<in> set as" using ok(1) by (auto simp: coro_ok_def)
  have xd: "x \<in> dom (views (lib m))" using listed_alive[OF ok(1) x(2)] by (auto simp: alive_def)
  from stacks_ok_memory[OF ok(2) xd] cpu(1) ok(2) x(1) have "own_stack m (Co x) = Malloced b"
    by (auto simp: stacks_ok_def)
  then have "stack_of m x = stack_of m a" using cpu(2) by (simp add: own_stack_def split: option.splits)
  moreover have "a \<in> dom (views (lib m))" using a by (simp add: domIff views_def)
  moreover have "inj_on (stack_of m) (dom (views (lib m)))" using ok(2) by (simp add: stacks_ok_def)
  ultimately have "x = a" using xd by (auto dest: inj_onD)
  then show ?thesis using x(1) by simp
qed

lemma machine_step_refines:
  assumes sizes: "MINSIGSTKSZ p \<le> SIGSTKSZ p" and ok: "coro_ok k (lib m) as" "stacks_ok p m"
    and step: "machine_step p (k, m) e (k', m')"
  shows "coro_step (k, lib m) e (k', lib m') \<and> stacks_ok p m' \<and> same_signals m m'"
  using step
proof cases
  case (create a b)
  have "listed (lib m) as" using ok(1) by (simp add: coro_ok_def)
  from coro_new_listed[OF this create(4)] obtain s where s: "coro_new a (lib m) = Some s" by blast
  from new_machine[OF sizes ok s create(4-6)] create have "m' = made a b s m" "stacks_ok p m'" "same_signals m m'" by simp_all
  moreover have "lib (made a b s m) = s" by (simp add: made_def)
  ultimately show ?thesis using create s coro_step.create[OF create(3,4) s] by simp
next
  case (create_fails a b er)
  have "listed (lib m) as" using ok(1) by (simp add: coro_ok_def)
  from coro_new_listed[OF this create_fails(5)] obtain s where s: "coro_new a (lib m) = Some s" by blast
  from new_machine(1)[OF sizes ok s create_fails(5-7)] create_fails(8) show ?thesis by simp
next
  case call
  then show ?thesis using ok(2) coro_step.call by (simp add: same_signals_def)
next
  case (return r)
  with ok have l: "coro_ok Looping (lib m) as" by simp
  then obtain q s where s: "sched_round (lib m) = Some (q, s)" using round_ok by blast
  from round_machine[OF l ok(2) s] return s coro_step.return[of "lib m" r s] show ?thesis by auto
next
  case (enter u w)
  with ok have l: "coro_ok Looping (lib m) as" by simp
  then obtain q s where s: "sched_round (lib m) = Some (q, s)" using round_ok by blast
  from round_machine[OF l ok(2) s] enter s have "q = Inr u" "lib m' = s" "stacks_ok p m'" "same_signals m m'" by auto
  moreover from this(3) have "w = coro_this_ptr (lib m')" using enter(5) by (auto simp: stacks_ok_def signals_ok_def)
  ultimately show ?thesis using enter s coro_step.enter[of "lib m" u s] by simp
next
  case (yield m1 w)
  with ok have r: "coro_ok Running (lib m) as" by simp
  then obtain i where "i < length as" "coro_this_ptr (lib m) = Co (as ! i)" by (auto simp: coro_ok_def) (metis in_set_conv_nth)
  from yield_ok[OF r this] obtain s where s: "coro_yield (lib m) = Some s" by blast
  from yield_machine[OF r ok(2) s] yield(4) have m1: "lib m1 = s" "stacks_ok p m1" "same_signals m m1" by auto
  then have w: "w = coro_this_ptr (lib m1)" using yield(5) by (auto simp: stacks_ok_def signals_ok_def)
  have "(k', lib m') = at_scheduler s"
    using at_scheduler_machine(1,2)[OF m1(2)] yield(3) m1(1) by (metis fst_conv prod.collapse snd_conv)
  moreover have "stacks_ok p m'" "same_signals m m'"
    using at_scheduler_machine(3,4)[OF m1(2)] yield(3) m1(3) same_signals_trans by (metis snd_conv)+
  ultimately show ?thesis using yield(1,2) w m1(1) coro_step.yield[OF s] by simp
next
  case (finish b a r m1)
  with ok have rn: "coro_ok Running (lib m) as" by simp
  have "coros (lib m) a \<noteq> None" using finish(6) by (auto simp: machine_body_end_def split: Option.bind_splits)
  from running_stack[OF rn ok(2) finish(4,5) this] have a: "coro_this_ptr (lib m) = Co a" .
  from end_machine[OF rn ok(2) a, of r] finish(6) have m1: "coro_body_end r (lib m) = Some (Inr (lib m1))" "stacks_ok p m1" "same_signals m m1"
    by auto
  have "(k', lib m') = at_scheduler (lib m1)"
    using at_scheduler_machine(1,2)[OF m1(2)] finish(3) by (metis fst_conv prod.collapse snd_conv)
  moreover have "stacks_ok p m'" "same_signals m m'"
    using at_scheduler_machine(3,4)[OF m1(2)] finish(3) m1(3) same_signals_trans by (metis snd_conv)+
  ultimately show ?thesis using finish(1,2) coro_step.finish[OF a m1(1)] by simp
next
  case (critical b a r u)
  with ok have rn: "coro_ok Running (lib m) as" by simp
  have "coros (lib m) a \<noteq> None" using critical(7) by (auto simp: machine_body_end_def split: Option.bind_splits)
  from running_stack[OF rn ok(2) critical(5,6) this] have a: "coro_this_ptr (lib m) = Co a" .
  from end_machine[OF rn ok(2) a, of r] critical(7) show ?thesis by auto
next
  case (free a)
  with ok have u: "coro_ok User (lib m) as" by simp
  from delete_machine[OF u ok(2) free(4)] free(5) have "coro_delete a (lib m) = Some (lib m')" "stacks_ok p m'" "same_signals m m'" by auto
  then show ?thesis using free coro_step.free[of a "lib m" "lib m'"] by simp
qed

lemma machine_step_exists:
  assumes sizes: "MINSIGSTKSZ p \<le> SIGSTKSZ p" and ok: "coro_ok k (lib m) as" "stacks_ok p m"
    and step: "coro_step (k, lib m) e (k', s')"
  shows "\<exists>m'. machine_step p (k, m) e (k', m') \<and> lib m' = s'"
  using step
proof cases
  case (create a)
  have "{b. map_option fst (altstack m) = Some (Some b)} \<subseteq> {the (the (map_option fst (altstack m)))}" by auto
  then have "finite (memory m \<union> {b. map_option fst (altstack m) = Some (Some b)})"
    using ok(2) by (auto simp: stacks_ok_def intro: finite_subset)
  then obtain b where b: "b \<notin> memory m \<union> {b. map_option fst (altstack m) = Some (Some b)}" using ex_new_if_finite infinite_UNIV_nat by blast
  then have b': "b \<notin> memory m" "map_option fst (altstack m) \<noteq> Some (Some b)" by auto
  from new_machine(1)[OF sizes ok create(5,4) b'] have "machine_step p (k, m) (Created a) (k, made a b s' m)"
    by (rule machine_step.create[OF create(3,4) b'])
  then show ?thesis using create(1,2) by (intro exI[of _ "made a b s' m"]) (simp add: made_def)
next
  case call
  then show ?thesis using machine_step.call by auto
next
  case (return r)
  with ok have "coro_ok Looping (lib m) as" by simp
  from round_machine[OF this ok(2) return(4)] return show ?thesis using machine_step.return by blast
next
  case (enter u)
  with ok have "coro_ok Looping (lib m) as" by simp
  from round_machine[OF this ok(2) enter(4)] obtain m' where m': "machine_round m = Some (Inr u, m')" "lib m' = s'" "stacks_ok p m'" by blast
  then have "this_ptr m' = Some (coro_this_ptr s')" by (simp add: stacks_ok_def signals_ok_def)
  from machine_step.enter[OF m'(1) this] m'(2) enter show ?thesis by auto
next
  case (yield t)
  with ok have "coro_ok Running (lib m) as" by simp
  from yield_machine[OF this ok(2) yield(4)] obtain m' where m': "machine_yield m = Some m'" "lib m' = t" "stacks_ok p m'" by blast
  then have "this_ptr m' = Some (coro_this_ptr t)" by (simp add: stacks_ok_def signals_ok_def)
  from machine_step.yield[OF m'(1) this] have "machine_step p (Running, m) e (machine_at_scheduler m')" using yield(2) by simp
  moreover have "machine_at_scheduler m' = (k', snd (machine_at_scheduler m'))" "lib (snd (machine_at_scheduler m')) = s'"
    using at_scheduler_machine(1,2)[OF m'(3)] yield(3) m'(2) by (metis fst_conv prod.collapse, metis snd_conv)
  ultimately show ?thesis using yield(1) by metis
next
  case (finish a r t)
  with ok have rn: "coro_ok Running (lib m) as" by simp
  from end_machine[OF rn ok(2) finish(4), of r] finish(5) obtain m' where
    m': "machine_body_end r a m = Some (Inr m')" "lib m' = t" "stacks_ok p m'" by auto
  obtain x where "x \<in> set as" "coro_this_ptr (lib m) = Co x" using rn by (auto simp: coro_ok_def)
  then have "a \<in> dom (views (lib m))" using finish(4) listed_alive[OF rn] by (auto simp: alive_def)
  from stacks_ok_memory[OF ok(2) this] finish(4) ok(2) obtain b where b: "cpu m = Malloced b" "stack_of m a = Some b"
    by (auto simp: stacks_ok_def own_stack_def split: option.splits)
  from machine_step.finish[OF b m'(1)] have "machine_step p (Running, m) e (machine_at_scheduler m')" using finish(2) by simp
  moreover have "machine_at_scheduler m' = (k', snd (machine_at_scheduler m'))" "lib (snd (machine_at_scheduler m')) = s'"
    using at_scheduler_machine(1,2)[OF m'(3)] finish(3) m'(2) by (metis fst_conv prod.collapse, metis snd_conv)
  ultimately show ?thesis using finish(1) by metis
next
  case (critical a r u)
  with ok have rn: "coro_ok Running (lib m) as" by simp
  from end_machine[OF rn ok(2) critical(5), of r] critical(6) show ?thesis by auto
next
  case (free a)
  with ok have "coro_ok User (lib m) as" by simp
  from delete_machine[OF this ok(2) free(4)] free(5) obtain m' where "machine_delete a m = Some m'" "lib m' = s'" by auto
  with machine_step.free[OF free(4)] free show ?thesis by blast
qed

text \<open>A process that has called nothing but \<open>coro_sched_init()\<close>.\<close>

definition fresh_machine :: "platform \<Rightarrow> machine \<Rightarrow> bool" where
  "fresh_machine p m \<longleftrightarrow> lib m = coro_sched_init \<and> \<not> this_null m \<and> memory m = {} \<and> cpu m = Thread_stack \<and>
     pending m \<subseteq> {SIGUSR2} \<and> (\<forall>sp n. altstack m = Some (sp, n) \<longrightarrow> MINSIGSTKSZ p \<le> n)"

lemma fresh_machine_ok:
  assumes "fresh_machine p m"
  shows "stacks_ok p m"
proof -
  have "views (lib m) = Map.empty" "coro_this_ptr (lib m) = Sched"
    using assms by (auto simp: fresh_machine_def coro_sched_init_def views_def)
  then show ?thesis
    using assms by (auto simp: fresh_machine_def stacks_ok_def signals_ok_def own_stack_def suspended_def alive_def split: who.splits)
qed

text \<open>The contract of Simulation: the machine, for any sizes that a platform may have, against Coro.\<close>

definition scheduled :: "control \<times> machine \<Rightarrow> control \<times> scheduler" where
  "scheduled st = (fst st, lib (snd st))"

definition machine_inv :: "platform \<Rightarrow> control \<times> machine \<Rightarrow> bool" where
  "machine_inv p st \<longleftrightarrow> MINSIGSTKSZ p \<le> SIGSTKSZ p \<and> stacks_ok p (snd st) \<and> (\<exists>as. coro_ok (fst st) (lib (snd st)) as)"

interpretation stacks: bisimulation "machine_step p" coro_step scheduled "machine_inv p" for p
proof
  fix s e s'
  assume inv: "machine_inv p s" and step: "machine_step p s e s'"
  obtain k m where s: "s = (k, m)" by (cases s)
  obtain k' m' where s': "s' = (k', m')" by (cases s')
  from inv obtain as where ok: "MINSIGSTKSZ p \<le> SIGSTKSZ p" "coro_ok k (lib m) as" "stacks_ok p m" by (auto simp: machine_inv_def s)
  from machine_step_refines[OF ok step[unfolded s s']] have r: "coro_step (k, lib m) e (k', lib m')" "stacks_ok p m'" by auto
  from coro_step_ok[OF r(1) ok(2)] r ok(1) show "coro_step (scheduled s) e (scheduled s') \<and> machine_inv p s'"
    by (auto simp: scheduled_def machine_inv_def s s')
next
  fix s e a
  assume inv: "machine_inv p s" and step: "coro_step (scheduled s) e a"
  obtain k m where s: "s = (k, m)" by (cases s)
  obtain k' t where a: "a = (k', t)" by (cases a)
  from inv obtain as where ok: "MINSIGSTKSZ p \<le> SIGSTKSZ p" "coro_ok k (lib m) as" "stacks_ok p m" by (auto simp: machine_inv_def s)
  from step have "coro_step (k, lib m) e (k', t)" by (simp add: scheduled_def s a)
  from machine_step_exists[OF ok this] show "\<exists>s'. machine_step p s e s' \<and> scheduled s' = a" by (auto simp: scheduled_def s a)
qed

lemma coro_run_of: "coro_run st es st' \<longleftrightarrow> run_of coro_step st es st'"
proof
  show "coro_run st es st' \<Longrightarrow> run_of coro_step st es st'" by (induction rule: coro_run.induct) (auto intro: run_of.intros)
  show "run_of coro_step st es st' \<Longrightarrow> coro_run st es st'" by (induction rule: run_of.induct) (auto intro: coro_run.intros)
qed

lemma fresh_machine_inv:
  assumes "MINSIGSTKSZ p \<le> SIGSTKSZ p" "fresh_machine p m"
  shows "machine_inv p (User, m)" "scheduled (User, m) = (User, coro_sched_init)"
proof -
  have lib: "lib m = coro_sched_init" using assms(2) by (simp add: fresh_machine_def)
  from coro_reaches_ok[OF coro_run.stop] obtain as where "coro_ok User coro_sched_init as" by blast
  then show "machine_inv p (User, m)" using assms fresh_machine_ok[OF assms(2)] by (auto simp: machine_inv_def lib)
qed (use assms(2) in \<open>simp add: scheduled_def fresh_machine_def\<close>)

text \<open>The signals of the process stay as they are.\<close>

lemma machine_run_signals: "machine_run p st es st' \<Longrightarrow> machine_inv p st \<Longrightarrow> same_signals (snd st) (snd st')"
proof (induction rule: run_of.induct)
  case (more st es st1 e st2)
  then have inv: "machine_inv p st1" using stacks.run_steps by blast
  obtain k1 m1 where st1: "st1 = (k1, m1)" by (cases st1)
  obtain k2 m2 where st2: "st2 = (k2, m2)" by (cases st2)
  from inv obtain as where "MINSIGSTKSZ p \<le> SIGSTKSZ p" "coro_ok k1 (lib m1) as" "stacks_ok p m1" by (auto simp: machine_inv_def st1)
  from machine_step_refines[OF this more.hyps(2)[unfolded st1 st2]] more show ?case
    by (auto simp: st1 st2 same_signals_def)
qed (simp add: same_signals_def)

lemma machine_run_refines:
  assumes "machine_run p (User, m0) es (k, m)" "MINSIGSTKSZ p \<le> SIGSTKSZ p" "fresh_machine p m0"
  shows "coro_reaches es k (lib m) \<and> stacks_ok p m \<and> same_signals m0 m"
proof -
  note fresh = fresh_machine_inv[OF assms(2,3)]
  from stacks.run_steps[OF assms(1) fresh(1)] machine_run_signals[OF assms(1) fresh(1)] show ?thesis
    unfolding fresh(2) by (simp add: coro_run_of scheduled_def machine_inv_def)
qed

subsection \<open>Properties\<close>

text \<open>A process on Linux that blocks SIGINT and has an alternate stack of its own, and its first coroutine.\<close>

definition linux :: platform where
  "linux = \<lparr>SIGSTKSZ = 8192, MINSIGSTKSZ = 2048\<rparr>"

definition demo_machine :: machine where
  "demo_machine = \<lparr>lib = coro_sched_init, this_null = False, stack_of = (\<lambda>_. None), contexts = (\<lambda>_. None), start_point = None,
     memory = {}, cpu = Thread_stack, blocked = {2}, pending = {},
     actions = (\<lambda>_. \<lparr>sa_handler = SIG_DFL, sa_flags = 0, sa_mask = {}\<rparr>), altstack = Some (Some 7, 8192)\<rparr>"

lemma demo_machine_fresh: "MINSIGSTKSZ linux \<le> SIGSTKSZ linux" "fresh_machine linux demo_machine"
  by (simp_all add: linux_def fresh_machine_def demo_machine_def)

definition demo_first :: machine where
  "demo_first = made 1 100 (the (coro_new 1 coro_sched_init)) demo_machine"

lemma demo_first_run: "machine_run linux (User, demo_machine) [Created 1, Called] (Looping, demo_first)"
proof -
  have fields: "lib demo_machine = coro_sched_init" "memory demo_machine = {}" "altstack demo_machine = Some (Some 7, 8192)"
    by (simp_all add: demo_machine_def)
  have new: "coro_new 1 (lib demo_machine) = Some (the (coro_new 1 coro_sched_init))"
    by (simp add: fields coro_new_def coro_list_add_def coro_sched_init_def)
  have sig: "signals_ok linux demo_machine" using fresh_machine_ok[OF demo_machine_fresh(2)] by (simp add: stacks_ok_def)
  have fresh: "coros (lib demo_machine) 1 = None" "100 \<notin> memory demo_machine" "map_option fst (altstack demo_machine) \<noteq> Some (Some 100)"
    by (simp_all add: fields coro_sched_init_def)
  have "machine_new linux 1 (Some 100) demo_machine = Some (Inr demo_first)"
    unfolding demo_first_def by (rule machine_new_made[OF demo_machine_fresh(1) sig fresh(2,3) new])
  from machine_step.create[OF _ fresh this, of User]
  have "machine_run linux (User, demo_machine) ([] @ [Created 1]) (User, demo_first)"
    by (intro run_of.more[OF run_of.stop]) simp
  from run_of.more[OF this machine_step.call] show ?thesis by simp
qed

text \<open>
  C12. The switches of stacks implement the scheduler: in every run of the machine the processor is on the stack of whoever
  \<open>coro_this_ptr\<close> names, the run is one of Coro, and the machine has all the runs that Coro has.
\<close>

theorem coro_switch_refines:
  assumes "MINSIGSTKSZ p \<le> SIGSTKSZ p" "fresh_machine p m0"
  shows "(machine_run p (User, m0) es (k, m) \<longrightarrow> coro_reaches es k (lib m) \<and> this_ptr m = Some (coro_this_ptr (lib m)) \<and>
      cpu m = own_stack m (coro_this_ptr (lib m))) \<and>
    (coro_reaches es k s \<longrightarrow> (\<exists>m'. machine_run p (User, m0) es (k, m') \<and> lib m' = s))"
proof (rule conjI; rule impI)
  assume "machine_run p (User, m0) es (k, m)"
  from machine_run_refines[OF this assms] have "coro_reaches es k (lib m)" "stacks_ok p m" by auto
  then show "coro_reaches es k (lib m) \<and> this_ptr m = Some (coro_this_ptr (lib m)) \<and> cpu m = own_stack m (coro_this_ptr (lib m))"
    by (auto simp: stacks_ok_def signals_ok_def)
next
  assume "coro_reaches es k s"
  then have "run_of coro_step (scheduled (User, m0)) es (k, s)" unfolding fresh_machine_inv(2)[OF assms] coro_run_of .
  from stacks.run_matched[OF this refl fresh_machine_inv(1)[OF assms]] obtain st where "machine_run p (User, m0) es st" "scheduled st = (k, s)" by blast
  then show "\<exists>m'. machine_run p (User, m0) es (k, m') \<and> lib m' = s" by (cases st) (auto simp: scheduled_def)
qed

theorem coro_switch_refines_witness:
  "coro_reaches [Created 1, Called] Looping (lib demo_first) \<and> cpu demo_first = Thread_stack \<and>
   (\<exists>m. machine_run linux (User, demo_machine) [Created 1, Created 2, Called] (Looping, m) \<and> lib m = two_coros)"
  using coro_switch_refines[OF demo_machine_fresh, of "[Created 1, Called]" Looping demo_first] demo_first_run
    coro_switch_refines[OF demo_machine_fresh, of "[Created 1, Created 2, Called]" Looping _ two_coros] two_coros_run
  by (auto simp: demo_first_def made_def demo_machine_def)

text \<open>
  C23. When \<open>malloc\<close> gives it a structure and a stack that are not in use, on a system whose \<open>SIGSTKSZ\<close> is at least its
  \<open>MINSIGSTKSZ\<close>, \<open>coro_new\<close> succeeds at any time, in the program and in coroutines: the new coroutine's
  context is saved on its own stack, and the signal mask, the handlers and the alternate stack are those the
  process started with.  Without a stack it has no defined behaviour (\<open>coro_new_unchecked_malloc\<close>).
\<close>

theorem coro_new_keeps_signals:
  assumes "machine_run p (User, m0) es (k, m)" "MINSIGSTKSZ p \<le> SIGSTKSZ p" "fresh_machine p m0" "k = User \<or> k = Running"
    "coros (lib m) a = None" "b \<notin> memory m" "map_option fst (altstack m) \<noteq> Some (Some b)"
  shows "\<exists>m'. machine_new p a (Some b) m = Some (Inr m') \<and> coro_new a (lib m) = Some (lib m') \<and>
    contexts m' (Co a) = Some \<lparr>label = In_coro_body (Co a), on_stack = Malloced b, saved_mask = None\<rparr> \<and>
    cpu m' = cpu m \<and> blocked m' = blocked m0 \<and> actions m' = actions m0 \<and> altstack m' = altstack m0"
proof -
  from machine_run_refines[OF assms(1-3)] have r: "coro_reaches es k (lib m)" "stacks_ok p m" "same_signals m0 m" by auto
  from coro_reaches_ok[OF r(1)] obtain as where ok: "coro_ok k (lib m) as" by blast
  then have "listed (lib m) as" by (simp add: coro_ok_def)
  from coro_new_listed[OF this assms(5)] obtain s where s: "coro_new a (lib m) = Some s" by blast
  from new_machine[OF assms(2) ok r(2) s assms(5-7)] r(3) s show ?thesis
    by (intro exI[of _ "made a b s m"]) (simp add: made_def same_signals_def)
qed

theorem coro_new_keeps_signals_witness:
  "\<exists>m'. machine_new linux 1 (Some 100) demo_machine = Some (Inr m') \<and> blocked m' = {2} \<and> altstack m' = Some (Some 7, 8192) \<and>
     contexts m' (Co 1) = Some \<lparr>label = In_coro_body (Co 1), on_stack = Malloced 100, saved_mask = None\<rparr>"
  using coro_new_keeps_signals[OF run_of.stop demo_machine_fresh, of 1 100]
  by (auto simp: demo_machine_def coro_sched_init_def)

text \<open>
  \<open>coro_new\<close> does not look at what \<open>malloc\<close> gives: without a stack the handler has no place to run.
\<close>

lemma coro_new_unchecked_malloc:
  assumes "MINSIGSTKSZ p \<le> SIGSTKSZ p" "signals_ok p m"
  shows "machine_new p a None m = None"
proof -
  define m0 where "m0 = new_struct a None m"
  define sz where "sz = (if 1024 * 1024 < SIGSTKSZ p then SIGSTKSZ p else 1024 * 1024)"
  have off: "\<not> on_altstack m" using assms(2) by (rule signals_ok_off)
  define m1 where "m1 = m0\<lparr>blocked := insert SIGUSR2 (blocked m),
    actions := (actions m)(SIGUSR2 := \<lparr>sa_handler = Coro_body, sa_flags = SA_ONSTACK, sa_mask = {}\<rparr>)\<rparr>"
  have off1: "\<not> on_altstack m1" using off by (simp add: m1_def m0_def new_struct_def on_altstack_def)
  have sz: "\<not> sz < MINSIGSTKSZ p" using assms(1) by (auto simp: sz_def)
  have stuck: "wait_for_body (Back m') = None"
    if "altstack m' = Some (None, sz)" "this_ptr m' = Some (Co a)" "actions m' = actions m1" for m'
    using that by (subst wait_for_body.simps)
      (auto simp: sigsuspend_def deliver_def handler_stack_def on_altstack_def m1_def bind_eq_None_conv)
  have alts: "set_sigaltstack p \<lparr>ss_sp = None, ss_size = sz, ss_flags = 0\<rparr> m1 = Inr (m1\<lparr>altstack := Some (None, sz)\<rparr>)"
    using off1 sz by (simp add: set_sigaltstack_def)
  have blk: "blocked m0 = blocked m" "actions m0 = actions m" by (simp_all add: m0_def new_struct_def)
  let ?m3 = "(set_this (Some (Co a)) (m1\<lparr>altstack := Some (None, sz)\<rparr>))\<lparr>start_point := Some (sigsetjmp In_coro_new True
    (set_this (Some (Co a)) (m1\<lparr>altstack := Some (None, sz)\<rparr>)))\<rparr>"
  have raised: "raise_signal SIGUSR2 ?m3 = Some (Back (?m3\<lparr>pending := insert SIGUSR2 (pending ?m3)\<rparr>))"
    by (simp add: raise_signal_def m1_def)
  have "wait_for_body (Back (?m3\<lparr>pending := insert SIGUSR2 (pending ?m3)\<rparr>)) = None"
    by (rule stuck) (simp_all add: this_ptr_def set_this_def)
  with raised have "do {out \<leftarrow> raise_signal SIGUSR2 ?m3; wait_for_body out} = None" by simp
  then have "do {out \<leftarrow> raise_signal SIGUSR2 ?m3; m' \<leftarrow> wait_for_body out; f m'} = None" for f :: "machine \<Rightarrow> (errno + machine) option"
    by (simp flip: Option.bind_assoc)
  then show ?thesis
    unfolding machine_new_def Let_def sz_def[symmetric] m0_def[symmetric]
    by (simp add: sigprocmask_block_def set_sigaction_def blk flip: m1_def) (simp add: alts)
qed

end
