(* ===== verification/Heap_Help.thy ===== *)
theory Heap_Help imports Prelude begin

text \<open>
  The allocation counter of utils/heap_help/heap_help.c: wrappers around the functions of the C library that count the
  blocks in use.  The C library is a parameter; its state is of any type.
\<close>

subsection \<open>The C library and the state of the counter\<close>

text \<open>A pointer is an address or null.\<close>

record 'h libc =
  default_malloc :: "nat \<Rightarrow> 'h \<Rightarrow> addr option \<times> 'h"
  default_calloc :: "nat \<Rightarrow> nat \<Rightarrow> 'h \<Rightarrow> addr option \<times> 'h"
  default_realloc :: "addr option \<Rightarrow> nat \<Rightarrow> 'h \<Rightarrow> addr option \<times> 'h"
  default_strdup :: "addr \<Rightarrow> 'h \<Rightarrow> addr option \<times> 'h"
  default_getline :: "addr option \<Rightarrow> nat \<Rightarrow> 'h \<Rightarrow> (int \<times> addr option \<times> nat) \<times> 'h"
  default_free :: "addr \<Rightarrow> 'h \<Rightarrow> 'h"
  getenv_hhreport :: "string option"

record 'h counter =
  heap :: 'h
  alloc_count :: int
  touched :: bool
  global_lock :: bool
  atexit_handlers :: nat
  atexit_done :: bool
  printed :: "string list"


subsection \<open>Counting\<close>

definition alloc_count_inc :: "'h counter \<Rightarrow> 'h counter" where
  "alloc_count_inc s = s\<lparr>alloc_count := alloc_count s + 1\<rparr>"


text \<open>In a single thread the spin lock is taken at once or never.\<close>

definition heaph_lock :: "'h counter \<Rightarrow> 'h counter option" where
  "heaph_lock s = (if global_lock s then None else Some (s\<lparr>global_lock := True\<rparr>))"

definition heaph_unlock :: "'h counter \<Rightarrow> 'h counter option" where
  "heaph_unlock s = do {
     ensure (global_lock s);
     Some (s\<lparr>global_lock := False\<rparr>)
   }"





definition heaph_init :: "'h libc \<Rightarrow> 'h counter \<Rightarrow> 'h counter" where
  "heaph_init c s = (if getenv_hhreport c = Some ''1'' then s\<lparr>atexit_handlers := atexit_handlers s + 1\<rparr> else s)"

definition heaph_touch :: "'h libc \<Rightarrow> 'h counter \<Rightarrow> 'h counter option" where
  "heaph_touch c s = (if touched s then Some s else do {
     s \<leftarrow> heaph_lock s;
     let s = heaph_init c s;
     let old = touched s;
     let s = s\<lparr>touched := True\<rparr>;
     s \<leftarrow> heaph_unlock s;
     ensure (\<not> old);
     Some s
   })"

subsection \<open>The wrappers\<close>






definition hh_realloc :: "'h libc \<Rightarrow> addr option \<Rightarrow> nat \<Rightarrow> 'h counter \<Rightarrow> (addr option \<times> 'h counter) option" where
  "hh_realloc c p n s = do {
     s \<leftarrow> heaph_touch c s;
     let (res, h) = default_realloc c p n (heap s);
     let s = s\<lparr>heap := h\<rparr>;
     Some (res, if p = None \<and> res \<noteq> None then alloc_count_inc s else s)
   }"



subsection \<open>Programs\<close>









subsection \<open>The counter is the number of blocks\<close>

definition counter_ok :: "('h \<Rightarrow> addr set) \<Rightarrow> 'h counter \<Rightarrow> bool" where
  "counter_ok live s \<longleftrightarrow> finite (live (heap s)) \<and> alloc_count s = int (card (live (heap s))) \<and> \<not> global_lock s"

lemma touch_ok:
  assumes "\<not> global_lock s"
  shows "\<exists>s'. heaph_touch c s = Some s' \<and> heap s' = heap s \<and> alloc_count s' = alloc_count s \<and> \<not> global_lock s' \<and> touched s' \<and>
    printed s' = printed s"
  using assms by (auto simp: heaph_touch_def heaph_lock_def heaph_unlock_def heaph_init_def Let_def)











text \<open>
  \<open>realloc\<close> of a block to size 0, which frees it and gives no other in common C libraries, leaves the counter one too
  high.
\<close>

lemma heaph_realloc_zero:
  assumes "counter_ok live s" "p \<in> live (heap s)" "default_realloc c (Some p) 0 (heap s) = (None, h')"
    "live h' = live (heap s) - {p}"
  shows "\<exists>s'. hh_realloc c (Some p) 0 s = Some (None, s') \<and> alloc_count s' = int (card (live (heap s'))) + 1"
proof -
  obtain t where t: "heaph_touch c s = Some t" "heap t = heap s" "alloc_count t = alloc_count s"
    using touch_ok[of s c] assms(1) by (auto simp: counter_ok_def)
  have "finite (live (heap s))" "alloc_count s = int (card (live (heap s)))" using assms(1) by (simp_all add: counter_ok_def)
  then show ?thesis
    using t assms(3,4) card.remove[OF _ assms(2)] by (simp add: hh_realloc_def)
qed

subsection \<open>The first use, by several threads\<close>

text \<open>
  Where a thread is in \<open>heaph_touch\<close>: before the load of \<open>is_done\<close>, before the lock, inside it, before the
  unlock, which asserts that the lock is held, with what the exchange gave, before the last assertion, or done.
\<close>

datatype touch_pc = Load | Lock | Init | Exchange | Unlock bool | Check bool | Touched | Failed

record touch_state =
  is_done :: bool
  lock_held :: bool
  inits :: nat
  pcs :: "touch_pc list"

definition touch_pc_step :: "touch_pc \<Rightarrow> touch_state \<Rightarrow> (touch_pc \<times> touch_state) option" where
  "touch_pc_step pc s = (case pc of
     Load \<Rightarrow> Some (if is_done s then Touched else Lock, s)
   | Lock \<Rightarrow> (if lock_held s then None else Some (Init, s\<lparr>lock_held := True\<rparr>))
   | Init \<Rightarrow> Some (Exchange, s\<lparr>inits := inits s + 1\<rparr>)
   | Exchange \<Rightarrow> Some (Unlock (is_done s), s\<lparr>is_done := True\<rparr>)
   | Unlock old \<Rightarrow> Some (if lock_held s then (Check old, s\<lparr>lock_held := False\<rparr>) else (Failed, s))
   | Check old \<Rightarrow> Some (if old then Failed else Touched, s)
   | Touched \<Rightarrow> None
   | Failed \<Rightarrow> None)"

inductive touch_step :: "touch_state \<Rightarrow> touch_state \<Rightarrow> bool" where
  "i < length (pcs s) \<Longrightarrow> touch_pc_step (pcs s ! i) s = Some (pc, s') \<Longrightarrow> touch_step s (s'\<lparr>pcs := (pcs s)[i := pc]\<rparr>)"

definition touch_start :: "nat \<Rightarrow> touch_state" where
  "touch_start n = \<lparr>is_done = False, lock_held = False, inits = 0, pcs = replicate n Load\<rparr>"


lemma touch_stepI:
  "i < length (pcs s) \<Longrightarrow> touch_pc_step (pcs s ! i) s = Some (pc, s') \<Longrightarrow> t = s'\<lparr>pcs := (pcs s)[i := pc]\<rparr> \<Longrightarrow>
    touch_step\<^sup>*\<^sup>* t u \<Longrightarrow> touch_step\<^sup>*\<^sup>* s u"
  by (metis converse_rtranclp_into_rtranclp touch_step.intros)

text \<open>A single thread: it holds the lock between Init and the unlock, and the flag is set from the exchange on.\<close>

definition single_ok :: "touch_state \<Rightarrow> bool" where
  "single_ok s \<longleftrightarrow> (\<exists>pc. pcs s = [pc] \<and> (case pc of
     Load \<Rightarrow> \<not> lock_held s | Lock \<Rightarrow> \<not> lock_held s \<and> \<not> is_done s | Init \<Rightarrow> lock_held s \<and> \<not> is_done s
   | Exchange \<Rightarrow> lock_held s \<and> \<not> is_done s | Unlock old \<Rightarrow> lock_held s \<and> \<not> old | Check old \<Rightarrow> \<not> lock_held s \<and> \<not> old
   | Touched \<Rightarrow> \<not> lock_held s | Failed \<Rightarrow> False))"

lemma single_step: "touch_step s s' \<Longrightarrow> single_ok s \<Longrightarrow> single_ok s'"
  by (induction rule: touch_step.induct)
    (auto simp: single_ok_def touch_pc_step_def split: touch_pc.splits if_splits)

lemma single_run: "touch_step\<^sup>*\<^sup>* s s' \<Longrightarrow> single_ok s \<Longrightarrow> single_ok s'"
  by (induction rule: rtranclp_induct) (auto dest: single_step)

subsection \<open>Properties\<close>









text \<open>
  C40. The first use is safe in one thread only: two threads that find the flag unset initialise one after the other,
  and the second fails the assertion at the end of \<open>heaph_touch\<close>; a single thread never does.
\<close>

theorem heaph_touch_race:
  "(\<exists>s. touch_step\<^sup>*\<^sup>* (touch_start 2) s \<and> Failed \<in> set (pcs s) \<and> inits s = 2) \<and>
   (\<forall>s. touch_step\<^sup>*\<^sup>* (touch_start 1) s \<longrightarrow> Failed \<notin> set (pcs s))"
proof
  let ?s = "\<lambda>d l n ps. \<lparr>is_done = d, lock_held = l, inits = n, pcs = ps\<rparr>"
  note go = touch_stepI[where i = 0] touch_stepI[where i = 1]
  have "touch_start 2 = ?s False False 0 [Load, Load]" by (simp add: touch_start_def numeral_2_eq_2)
  moreover have "touch_step\<^sup>*\<^sup>* (?s False False 0 [Load, Load]) (?s True False 2 [Touched, Failed])"
    by (rule go(1)[where t = "?s False False 0 [Lock, Load]"], (simp add: touch_pc_step_def)+,
       rule go(2)[where t = "?s False False 0 [Lock, Lock]"], (simp add: touch_pc_step_def)+,
       rule go(1)[where t = "?s False True 0 [Init, Lock]"], (simp add: touch_pc_step_def)+,
       rule go(1)[where t = "?s False True 1 [Exchange, Lock]"], (simp add: touch_pc_step_def)+,
       rule go(1)[where t = "?s True True 1 [Unlock False, Lock]"], (simp add: touch_pc_step_def)+,
       rule go(1)[where t = "?s True False 1 [Check False, Lock]"], (simp add: touch_pc_step_def)+,
       rule go(1)[where t = "?s True False 1 [Touched, Lock]"], (simp add: touch_pc_step_def)+,
       rule go(2)[where t = "?s True True 1 [Touched, Init]"], (simp add: touch_pc_step_def)+,
       rule go(2)[where t = "?s True True 2 [Touched, Exchange]"], (simp add: touch_pc_step_def)+,
       rule go(2)[where t = "?s True True 2 [Touched, Unlock True]"], (simp add: touch_pc_step_def)+,
       rule go(2)[where t = "?s True False 2 [Touched, Check True]"], (simp add: touch_pc_step_def)+,
       rule go(2)[where t = "?s True False 2 [Touched, Failed]"], (simp add: touch_pc_step_def)+)
  ultimately show "\<exists>s. touch_step\<^sup>*\<^sup>* (touch_start 2) s \<and> Failed \<in> set (pcs s) \<and> inits s = 2"
    by (intro exI[of _ "?s True False 2 [Touched, Failed]"]) simp
next
  have "single_ok (touch_start 1)" by (simp add: single_ok_def touch_start_def)
  then show "\<forall>s. touch_step\<^sup>*\<^sup>* (touch_start 1) s \<longrightarrow> Failed \<notin> set (pcs s)"
    using single_run by (fastforce simp: single_ok_def)
qed

theorem heaph_touch_race_witness: "Failed \<notin> set (pcs (touch_start 1))"
  using heaph_touch_race by blast

end
