(* ===== verification/Spec2Isabelle.thy ===== *)
theory Spec2Isabelle imports Ufs_Faults Ufs_Tests Tp_Props Sort_Run_Props Sh_Props Coro_Machine Heap_Help begin

text \<open>
  A verification library for the C programs of system-programming-assignments.

  \<^bold>\<open>The program.\<close>  The repository holds four assignments that share no code.  Assignment_1 sorts files of
  numbers with coroutines (src/Assignment_1/src: libsort.c, libcoro.c, libutil.c, main.c).  Assignment_2 is a
  shell (src/Assignment_2/src: parser.c, executor.c, main.c).  Assignment_3 is a file system in memory (userfs.c).
  Assignment_4 is a pool of threads (thread_pool.c).  utils/heap_help counts allocations.  This library models them all.

  \<^bold>\<open>Conventions\<close> (Prelude).  A C function is a HOL function into \<open>option\<close>; \<open>None\<close> stands for undefined
  behaviour: a null or dangling pointer, an index outside an array, a failed \<open>assert\<close>, a value read before it
  is set, or a loop that does not end (\<^theory_text>\<open>partial_function\<close>).  Error codes are ordinary results.  So a
  theorem that says that a call gives \<open>Some\<close> includes that it returns and is free of undefined behaviour.
  Heap objects live in maps from addresses; the allocator is a parameter that may refuse any request.

  \<^bold>\<open>Assignment_3, userfs.c.\<close>
  \<^item> Ufs_State: the structs \<open>block\<close>, \<open>file\<close> and \<open>filedesc\<close>, the static variables, pointers.
    Dll: doubly linked lists in a heap.
  \<^item> Ufs_Blocks, Ufs_Files, Ufs_Fds: the block lists, the list of files, the array of descriptors, and their
    invariants \<open>files_wf\<close> and \<open>fds_wf\<close>.
  \<^item> Ufs_Io, Ufs_Resize, Ufs_Api: \<open>ufs_write\<close>, \<open>ufs_read\<close>, \<open>ufs_resize\<close>, \<open>ufs_open\<close>, \<open>ufs_close\<close>,
    \<open>ufs_delete\<close>, \<open>ufs_shutdown\<close>; each keeps the invariant \<open>ufs_wf\<close>.
  \<^item> Refinement: the interface \<open>refines\<close>, a step of an implementation against a step of a specification, and
    what follows for whole runs.  Ufs_Spec: the specification \<open>fs\<close> of a file system as maps from names to
    contents and from descriptors to positions, the abstraction \<open>fs_of\<close>, and the interpretation: every
    public call refines the specification.  A read that ends exactly on the end of a full last block is excluded
    by \<open>call_ok\<close>, and so are writes and resizes that run out of memory, because the code is wrong there.
  \<^item> Ufs_Props: refinement, round trips, errors, bounds, ownership.  Ufs_Faults: the excluded runs, shown to go
    wrong, and the contracts of deleting and resizing.
  \<^item> Ufs_Tests: tests of the repository (test.c), run on the model from the start of the program.

  \<^bold>\<open>Assignment_4, thread_pool.c.\<close>
  \<^item> Tp_Queue: the structs and the ring buffer; the interface \<open>bounded_queue\<close> and its interpretation on the
    ring buffer.
  \<^item> Tp_Api: each public function as the atomic sections it does under the mutexes, the signal and the broadcast to the
    pool's condition variable, and \<open>worker_step\<close>, the sections of \<open>thread_worker\<close> with a program counter.
  \<^item> Tp_Steps: workers and clients as step relations, runs with their events, and who holds a task.
    Tp_Inv: the invariant \<open>sys_ok\<close>, kept by every step, with the fact that no wake-up is lost.  Tp_Live: the order of tasks, the measure \<open>work\<close> that
    every worker's step lowers, and a pool whose mutex was left locked.
  \<^item> Tp_Demo: a concrete run.  Tp_Props: safety, order, errors, results of joins, liveness.

  The sections are those between a lock and the matching unlock; accesses to a task outside its mutex happen in
  the worker and in the timed join, which reads the result after its unlock, and are sections of their own.  A worker that finds
  nothing to do sleeps until a push signals it, a delete broadcasts, or it wakes spuriously; which sleeper a signal wakes
  is a parameter, and the liveness theorems hold without any spurious wake-up.  A join that waits may test its task again at
  any time; nothing is claimed of when it does.  The addresses of freed tasks are not used again.  Clients keep to thread_pool.h: they push new or joined tasks, leave detached tasks
  alone, and do not push into a pool that is being deleted.  The arithmetic on \<open>double\<close> in the timed join is
  taken as exact.

  \<^bold>\<open>Assignment_1.\<close>
  \<^item> Sort_Text: streams, \<open>fscanf("%d")\<close> and printing of numbers, and texts that hold a list of numbers.
  \<^item> Sort_Merge: \<open>count_numbers_in_file\<close>, \<open>transfer_numbers\<close>, \<open>merge_files\<close>.  Sort_Quick: \<open>quick_sort\<close> and the
    macro \<open>YIELD\<close>; what the other coroutines do meanwhile is a parameter that may change all globals, of which the theorems
    assume that the sizes of the two arrays stay and that \<open>trace_id\<close> stays below 10000.
    Sort_File: \<open>split\<close>, \<open>sort_file\<close>, whose last \<open>YIELD\<close> uses the global \<open>trace_id\<close>, and \<open>merge_sorted_files\<close>.
  \<^item> Sort_Main: the list of files, the coroutines of main.c as a step relation that numbers the sorts as \<open>trace_id\<close> does (the
    number 10000 is undefined behaviour), the final merge, and the times of libutil.c.
  \<^item> Sort_Props: the sort of a file and of the program, and three faults.
  \<^item> Coro: the scheduler of libcoro.c, its list of coroutines (on Dll), \<open>coro_yield\<close>, \<open>coro_sched_wait\<close> and the end of
    a coroutine, with runs of programs as a step relation.  Here a switch of stacks is a change of \<open>coro_this_ptr\<close>.
    Coro_Props: the invariant \<open>coro_ok\<close>, kept by every step; the coroutines take turns, and are handed out
    once each in the order in which they end.
  \<^item> Coro_Stack: the same functions once more with what Coro leaves out, the saved contexts, the stacks and the signals:
    \<open>coro_new\<close> lets the handler of SIGUSR2 run on the new stack, saves its context there and puts the signals back.
    Simulation: the interface \<open>bisimulation\<close> of two step relations with the same events.  Coro_Machine: the invariant
    \<open>stacks_ok\<close> and the interpretation: this machine has the runs that Coro has, on the right stacks.
  \<^item> Sort_Run: \<open>main()\<close>, the coroutines of main.c and the scheduler of libcoro.c as one program, each of whose steps is
    one of Sort_Main with the step of Coro that it calls.  Sort_Run_Props: the measure \<open>steps_left\<close>, and that the program
    ends and sorts.

  \<^bold>\<open>Assignment_2, the shell.\<close>
  \<^item> Sh_Lex: the first half of \<open>parser()\<close>, which cuts a line into arguments by positions in its buffer, with quotation,
    escapes and continued lines.  Sh_Parse: the array of commands, and the whole of \<open>parser()\<close>.  Two things that C
    leaves open are parameters (\<open>machine\<close>): how many zero bytes follow a block that \<open>calloc\<close> gives, and what the
    uninitialised \<open>trimParen\<close> holds.
  \<^item> Sh_Line: how lines are written from tokens, and that the lexer gives the tokens back, by moving over one written
    token in the middle of the buffer.  Sh_Build: the commands that a line means, and that \<open>parser()\<close> gives them up to ten
    commands of eight words.
  \<^item> Sh_Exec: executor.c and the loop of \<open>main()\<close>.  The operating system is a parameter (\<open>os\<close>), and what is asked of it
    is a trace.  Sh_Run: a specification \<open>run_line\<close> with the processes of a pipeline as a list, what each child has to do
    written out (\<open>child_script\<close>), and the search in PATH as the first match, and the simulation \<open>sim\<close> of it by the array
    of handlers.  Sh_Chain: pipelines joined by \<open>&&\<close> and \<open>||\<close>, and what becomes of the children of a pipeline: their
    descriptors followed through \<open>dup2\<close> and \<open>close\<close> up to the program that runs (\<open>fate_of\<close>).
  \<^item> Sh_Faults: lines on which the parser goes wrong.  Sh_Props: the properties of parser, executor and both together.

  \<^bold>\<open>utils/heap_help.\<close>  Heap_Help: the wrappers around the allocator of the C library, which is a parameter; the counter is the
  number of blocks in use; the first use by several threads as a step relation.

  \<^bold>\<open>Bounds.\<close>  No fuel is used.  The constants are those of the code: blocks of 512 bytes, files of at most 104857600,
  pools of at most 20 threads and 100000 tasks, 524288 numbers in memory, 10000 sorts, names of 127 characters.  \<open>size_t\<close> is a natural number;
  where it could wrap round, the model says so (the size check of \<open>ufs_write\<close> wraps, empty ranges of \<open>split\<close> are
  undefined).  Times are 64-bit words.

  \<^bold>\<open>Not modelled.\<close>  Signals that others send, as while \<open>coro_new\<close> waits for its own.  What a started program does is the
  operating system's; whether \<open>waitpid\<close> returns is one of its answers, and the theorems on the shell assume that it does (a
  process that fills its pipe never ends, since the shell reads after the wait).  What \<open>stdout\<close> holds unwritten at a
  \<open>fork\<close> is left out.  The name of a userfs file is kept inside
  its struct, so that its own allocation and leak do not show.  \<open>printf\<close> of warnings and statistics, code that is
  commented out or never called (\<open>checkClosedParenthesis\<close>), and the tests that are long to evaluate or run threads are left
  out.  \<open>tmpfile\<close>, \<open>fopen\<close> for writing and \<open>calloc\<close> in Assignment_1, and the allocations of the shell's parser, are
  taken to succeed; so the checks for null pointers in \<open>extendCommandArray\<close> and \<open>extendArgv\<close> are left out.
\<close>

end
